(* ===== verification/RB_Prelude.thy ===== *)
theory RB_Prelude
  imports Main "HOL-Library.Word"
begin

section \<open>Prelude: Rust values and shared lemmas\<close>

text \<open>
  What every component of the model shares: the machine integers of the crate, Rust's
  \<open>Result\<close>, \<open>Poll\<close> and panics as values, the operations of \<open>Vec\<close> and \<open>Option\<close> the code
  uses, and the lemmas on lists, options and words that the component proofs rest on.
  \<open>Result<T, E>\<close> is the sum \<open>'e + 't\<close>; \<open>Err\<close> and \<open>Ok\<close> name its injections.
\<close>

named_theorems index_simps \<open>party indexes and slots of a round store\<close>
named_theorems store_defs \<open>definitions of the round stores\<close>
named_theorems router_defs \<open>definitions of the rounds router\<close>
named_theorems sm_defs \<open>definitions of the protocol state machine\<close>
named_theorems sim_defs \<open>definitions of the simulation\<close>
named_theorems echo_defs \<open>definitions of echo broadcast\<close>

subsection \<open>Types\<close>

type_synonym u16 = "16 word"
type_synonym u64 = "64 word"

abbreviation Ok :: "'a \<Rightarrow> 'e + 'a" where
  "Ok \<equiv> Inr"

abbreviation Err :: "'e \<Rightarrow> 'e + 'a" where
  "Err \<equiv> Inl"

text \<open>A computation that may panic (\<open>assert!\<close>, \<open>panic!\<close>, \<open>expect\<close>).\<close>

datatype 'a or_panic = Ret 'a | Panic

text \<open>\<open>core::task::Poll\<close>.\<close>

datatype 'a poll = Ready 'a | Pending

definition map_err :: "('e \<Rightarrow> 'f) \<Rightarrow> 'e + 'a \<Rightarrow> 'f + 'a" where
  "map_err f r = map_sum f id r"

definition map_ok :: "('a \<Rightarrow> 'b) \<Rightarrow> 'e + 'a \<Rightarrow> 'e + 'b" where
  "map_ok f r = map_sum id f r"

definition is_ok :: "'e + 'a \<Rightarrow> bool" where
  "is_ok r = (case r of Err _ \<Rightarrow> False | Ok _ \<Rightarrow> True)"

lemma map_err_simps [simp]:
  "map_err f (Err e) = Err (f e)" "map_err f (Ok x) = Ok x"
  by (simp_all add: map_err_def)

lemma map_ok_simps [simp]:
  "map_ok f (Err e) = Err e" "map_ok f (Ok x) = Ok (f x)"
  by (simp_all add: map_ok_def)

lemma is_ok_simps [simp]: "\<not> is_ok (Err e)" "is_ok (Ok x)"
  by (simp_all add: is_ok_def)

lemma map_err_eq_iff [simp]:
  "map_err f r = Ok x \<longleftrightarrow> r = Ok x"
  "map_err f r = Err e \<longleftrightarrow> (\<exists>e'. r = Err e' \<and> e = f e')"
  by (cases r; auto)+

lemma map_ok_eq_iff [simp]:
  "map_ok f r = Err e \<longleftrightarrow> r = Err e"
  "map_ok f r = Ok y \<longleftrightarrow> (\<exists>x. r = Ok x \<and> y = f x)"
  by (cases r; auto)+

lemma is_ok_map_ok [simp]: "is_ok (map_ok f r) = is_ok r"
  by (cases r) (simp_all add: map_ok_def is_ok_def)

lemma is_ok_map_err [simp]: "is_ok (map_err f r) = is_ok r"
  by (cases r) (simp_all add: map_err_def is_ok_def)

lemma is_ok_iff: "is_ok r \<longleftrightarrow> (\<exists>x. r = Ok x)"
  by (cases r) auto

lemma unit_ok_cases: "(r :: 'e + unit) = Ok () \<or> (\<exists>e. r = Err e)"
  by (cases r) auto

subsection \<open>Vectors\<close>

text \<open>\<open>slice::get\<close>: \<open>None\<close> out of range.\<close>

definition get_slot :: "'a list \<Rightarrow> nat \<Rightarrow> 'a option" where
  "get_slot xs k = (if k < length xs then Some (xs ! k) else None)"

lemma get_slot_iff:
  "get_slot xs k = None \<longleftrightarrow> length xs \<le> k"
  "get_slot xs k = Some y \<longleftrightarrow> k < length xs \<and> xs ! k = y"
  by (auto simp: get_slot_def)

text \<open>\<open>into_iter().flatten().collect()\<close> on a vector of options.\<close>

primrec flatten :: "'a option list \<Rightarrow> 'a list" where
  "flatten [] = []"
| "flatten (x # xs) = (case x of None \<Rightarrow> flatten xs | Some y \<Rightarrow> y # flatten xs)"

text \<open>\<open>Vec::insert\<close>: panics when the index is past the end.\<close>

definition vec_insert :: "nat \<Rightarrow> 'a \<Rightarrow> 'a list \<Rightarrow> 'a list or_panic" where
  "vec_insert k x xs = (if k \<le> length xs then Ret (take k xs @ x # drop k xs) else Panic)"

definition vacant :: "'a option list \<Rightarrow> nat" where
  "vacant xs = length (filter (\<lambda>x. x = None) xs)"

lemma vacant_simps [simp]:
  "vacant [] = 0"
  "vacant (x # xs) = (if x = None then Suc (vacant xs) else vacant xs)"
  by (simp_all add: vacant_def)

lemma vacant_replicate_None [simp]: "vacant (replicate k None) = k"
  by (induction k) auto

lemma vacant_le_length: "vacant xs \<le> length xs"
  by (simp add: vacant_def)

lemma vacant_update:
  "k < length xs \<Longrightarrow> xs ! k = None \<Longrightarrow> vacant xs = Suc (vacant (xs[k := Some y]))"
proof (induction xs arbitrary: k)
  case (Cons x xs)
  then show ?case by (cases k) auto
qed simp

lemma vacant_pos: "k < length xs \<Longrightarrow> xs ! k = None \<Longrightarrow> 0 < vacant xs"
  by (metis vacant_update zero_less_Suc)

lemma vacant_zero_iff: "vacant xs = 0 \<longleftrightarrow> (\<forall>k < length xs. xs ! k \<noteq> None)"
  by (auto simp: vacant_def filter_empty_conv in_set_conv_nth)

lemma flatten_full: "vacant xs = 0 \<Longrightarrow> flatten xs = map the xs"
  by (induction xs) (auto split: if_splits option.splits)

lemma length_flatten: "length (flatten xs) + vacant xs = length xs"
  by (induction xs) (auto split: option.splits)

lemma zip_zip_same: "zip xs (zip (map f xs) (map g xs)) = map (\<lambda>x. (x, f x, g x)) xs"
  by (induction xs) auto

subsection \<open>Words as indexes\<close>

lemma unat_pred: "0 < (w :: 'a::len word) \<Longrightarrow> unat (w - 1) = unat w - 1"
  by (metis unat_gt_0 unat_minus_one word_neq_0_conv)

lemma unat_less_iff: "((a :: 'a::len word) < b) = (unat a < unat b)"
  by (rule word_less_nat_alt)

lemma unat_le_iff: "((a :: 'a::len word) \<le> b) = (unat a \<le> unat b)"
  by (rule word_le_nat_alt)

lemma unat_Suc_less:
  assumes "(a :: 'a::len word) < b"
  shows "unat (a + 1) = Suc (unat a)"
proof -
  have "Suc (unat a) \<le> unat b" using assms by (simp add: unat_less_iff)
  also have "\<dots> < 2 ^ LENGTH('a)" by (rule unsigned_less)
  finally have "Suc (unat a) < 2 ^ LENGTH('a)" .
  then show ?thesis by (simp add: unat_word_ariths)
qed

lemma unat_of_nat_u16: "k < 65536 \<Longrightarrow> unat (of_nat k :: u16) = k"
  by (simp add: unat_of_nat take_bit_nat_eq_self)

lemma unat_u16_bound: "unat (w :: u16) < 65536"
  using unsigned_less [of w, where ?'a = nat] by simp

end
