(* ===== verification/RB_Delivery.thy ===== *)
theory RB_Delivery
  imports RB_Prelude
begin

section \<open>Messages\<close>

text \<open>
  \<open>round-based/src/delivery.rs\<close>: incoming and outgoing messages, with the message type and
  the destination they carry.
\<close>

type_synonym party_index = u16
type_synonym msg_id = u64

datatype message_type = Broadcast bool | P2P

datatype message_destination = AllParties bool | OneParty party_index

record 'm incoming =
  inc_id :: msg_id
  inc_sender :: party_index
  inc_msg_type :: message_type
  inc_msg :: 'm

record 'm outgoing =
  out_recipient :: message_destination
  out_msg :: 'm

subsection \<open>Incoming messages\<close>

definition Incoming_map :: "('m \<Rightarrow> 't) \<Rightarrow> 'm incoming \<Rightarrow> 't incoming" where
  "Incoming_map f m =
     \<lparr>inc_id = inc_id m, inc_sender = inc_sender m, inc_msg_type = inc_msg_type m,
      inc_msg = f (inc_msg m)\<rparr>"

definition Incoming_try_map :: "('m \<Rightarrow> 'e + 't) \<Rightarrow> 'm incoming \<Rightarrow> 'e + 't incoming" where
  "Incoming_try_map f m =
     (case f (inc_msg m) of
        Err e \<Rightarrow> Err e
      | Ok t \<Rightarrow> Ok \<lparr>inc_id = inc_id m, inc_sender = inc_sender m,
                   inc_msg_type = inc_msg_type m, inc_msg = t\<rparr>)"

definition Incoming_is_broadcast :: "'m incoming \<Rightarrow> bool" where
  "Incoming_is_broadcast m = (case inc_msg_type m of Broadcast _ \<Rightarrow> True | _ \<Rightarrow> False)"

definition Incoming_is_reliably_broadcasted :: "'m incoming \<Rightarrow> bool" where
  "Incoming_is_reliably_broadcasted m =
     (case inc_msg_type m of Broadcast True \<Rightarrow> True | _ \<Rightarrow> False)"

definition Incoming_is_p2p :: "'m incoming \<Rightarrow> bool" where
  "Incoming_is_p2p m = (case inc_msg_type m of P2P \<Rightarrow> True | _ \<Rightarrow> False)"

subsection \<open>Outgoing messages\<close>

definition Outgoing_all_parties :: "'m \<Rightarrow> 'm outgoing" where
  "Outgoing_all_parties m = \<lparr>out_recipient = AllParties False, out_msg = m\<rparr>"

definition Outgoing_reliable_broadcast :: "'m \<Rightarrow> 'm outgoing" where
  "Outgoing_reliable_broadcast m = \<lparr>out_recipient = AllParties True, out_msg = m\<rparr>"

definition Outgoing_p2p :: "party_index \<Rightarrow> 'm \<Rightarrow> 'm outgoing" where
  "Outgoing_p2p recipient m = \<lparr>out_recipient = OneParty recipient, out_msg = m\<rparr>"

definition Outgoing_map :: "('m \<Rightarrow> 't) \<Rightarrow> 'm outgoing \<Rightarrow> 't outgoing" where
  "Outgoing_map f m = \<lparr>out_recipient = out_recipient m, out_msg = f (out_msg m)\<rparr>"

fun MessageDestination_is_p2p :: "message_destination \<Rightarrow> bool" where
  "MessageDestination_is_p2p (OneParty _) = True"
| "MessageDestination_is_p2p _ = False"

fun MessageDestination_is_broadcast :: "message_destination \<Rightarrow> bool" where
  "MessageDestination_is_broadcast (AllParties _) = True"
| "MessageDestination_is_broadcast _ = False"

fun MessageDestination_is_reliable_broadcast :: "message_destination \<Rightarrow> bool" where
  "MessageDestination_is_reliable_broadcast (AllParties True) = True"
| "MessageDestination_is_reliable_broadcast _ = False"

definition Outgoing_is_broadcast :: "'m outgoing \<Rightarrow> bool" where
  "Outgoing_is_broadcast m = MessageDestination_is_broadcast (out_recipient m)"

definition Outgoing_is_reliable_broadcast :: "'m outgoing \<Rightarrow> bool" where
  "Outgoing_is_reliable_broadcast m =
     MessageDestination_is_reliable_broadcast (out_recipient m)"

definition Outgoing_is_p2p :: "'m outgoing \<Rightarrow> bool" where
  "Outgoing_is_p2p m = MessageDestination_is_p2p (out_recipient m)"

subsection \<open>Lemmas\<close>

lemma Incoming_map_sel [simp]:
  "inc_id (Incoming_map f m) = inc_id m"
  "inc_sender (Incoming_map f m) = inc_sender m"
  "inc_msg_type (Incoming_map f m) = inc_msg_type m"
  "inc_msg (Incoming_map f m) = f (inc_msg m)"
  by (simp_all add: Incoming_map_def)

lemma Incoming_map_comp [simp]: "Incoming_map f (Incoming_map g m) = Incoming_map (f \<circ> g) m"
  by (simp add: Incoming_map_def)

lemma Incoming_map_id [simp]: "Incoming_map (\<lambda>x. x) m = m"
  by (simp add: Incoming_map_def)

lemma Incoming_try_map_Ok:
  "Incoming_try_map f m = Ok t \<longleftrightarrow> (\<exists>x. f (inc_msg m) = Ok x \<and> t = Incoming_map (\<lambda>_. x) m)"
  by (auto simp: Incoming_try_map_def Incoming_map_def split: sum.splits)

lemma Incoming_try_map_Err: "Incoming_try_map f m = Err e \<longleftrightarrow> f (inc_msg m) = Err e"
  by (auto simp: Incoming_try_map_def split: sum.splits)

lemma Outgoing_map_sel [simp]:
  "out_recipient (Outgoing_map f m) = out_recipient m"
  "out_msg (Outgoing_map f m) = f (out_msg m)"
  by (simp_all add: Outgoing_map_def)

end
