(* ===== verification/Round_Store.thy ===== *)
theory Round_Store
  imports RB_Delivery
begin

section \<open>The round store trait\<close>

text \<open>
  \<open>round-based/src/round/mod.rs\<close>. A Rust type that implements \<open>RoundStore\<close> is a dictionary
  of its trait methods over its state type \<open>'s\<close>. A method that takes \<open>&mut self\<close> returns the
  state it leaves behind also when it fails. \<open>output(self)\<close> gives the store back on failure.

  A property of a store is looked up by its Rust type: \<open>prop_type\<close> stands for the \<open>TypeId\<close>
  that \<open>downcast_mut\<close> compares, and \<open>any_slot\<close> for the \<open>&mut dyn Any\<close> that points to an
  \<open>Option<P>\<close>. Properties of user-defined types carry a type tag and a value of type \<open>'u\<close>.
\<close>

datatype prop_type = RequiresReliableBroadcast_t | User_t nat

datatype 'u store_prop = RequiresReliableBroadcast bool | UserProp nat 'u

fun type_of_prop :: "'u store_prop \<Rightarrow> prop_type" where
  "type_of_prop (RequiresReliableBroadcast _) = RequiresReliableBroadcast_t"
| "type_of_prop (UserProp t _) = User_t t"

record 'u any_slot =
  slot_type :: prop_type
  slot_val :: "'u store_prop option"

record ('s, 'm, 'o, 'e, 'u) round_store =
  rs_add_message :: "'s \<Rightarrow> 'm incoming \<Rightarrow> 's \<times> ('e + unit)"
  rs_wants_more :: "'s \<Rightarrow> bool"
  rs_output :: "'s \<Rightarrow> 's + 'o"
  rs_read_any_prop :: "'s \<Rightarrow> 'u any_slot \<Rightarrow> 'u any_slot"

subsection \<open>Extension methods and \<open>WithProp\<close>\<close>

definition default_read_any_prop :: "'s \<Rightarrow> 'u any_slot \<Rightarrow> 'u any_slot" where
  "default_read_any_prop s property = property"

definition read_prop ::
  "('s, 'm, 'o, 'e, 'u) round_store \<Rightarrow> 's \<Rightarrow> prop_type \<Rightarrow> 'u store_prop option" where
  "read_prop S s P = slot_val (rs_read_any_prop S s \<lparr>slot_type = P, slot_val = None\<rparr>)"

record ('u, 's) with_prop =
  wp_prop :: "'u store_prop"
  wp_store :: 's

definition set_prop :: "'s \<Rightarrow> 'u store_prop \<Rightarrow> ('u, 's) with_prop" where
  "set_prop s v = \<lparr>wp_prop = v, wp_store = s\<rparr>"

definition WithProp_add_message ::
  "('s, 'm, 'o, 'e, 'u) round_store \<Rightarrow> ('u, 's) with_prop \<Rightarrow> 'm incoming
     \<Rightarrow> ('u, 's) with_prop \<times> ('e + unit)" where
  "WithProp_add_message S w m =
     (let (s', r) = rs_add_message S (wp_store w) m in (w\<lparr>wp_store := s'\<rparr>, r))"

definition WithProp_wants_more ::
  "('s, 'm, 'o, 'e, 'u) round_store \<Rightarrow> ('u, 's) with_prop \<Rightarrow> bool" where
  "WithProp_wants_more S w = rs_wants_more S (wp_store w)"

definition WithProp_output ::
  "('s, 'm, 'o, 'e, 'u) round_store \<Rightarrow> ('u, 's) with_prop \<Rightarrow> ('u, 's) with_prop + 'o" where
  "WithProp_output S w =
     map_err (\<lambda>s. \<lparr>wp_prop = wp_prop w, wp_store = s\<rparr>) (rs_output S (wp_store w))"

definition WithProp_read_any_prop ::
  "('s, 'm, 'o, 'e, 'u) round_store \<Rightarrow> ('u, 's) with_prop \<Rightarrow> 'u any_slot \<Rightarrow> 'u any_slot" where
  "WithProp_read_any_prop S w property =
     (if slot_type property = type_of_prop (wp_prop w)
      then property\<lparr>slot_val := Some (wp_prop w)\<rparr>
      else rs_read_any_prop S (wp_store w) property)"

definition WithProp_store ::
  "('s, 'm, 'o, 'e, 'u) round_store \<Rightarrow> (('u, 's) with_prop, 'm, 'o, 'e, 'u) round_store" where
  "WithProp_store S =
     \<lparr>rs_add_message = WithProp_add_message S, rs_wants_more = WithProp_wants_more S,
      rs_output = WithProp_output S, rs_read_any_prop = WithProp_read_any_prop S\<rparr>"

lemmas WithProp_defs [store_defs] =
  WithProp_store_def WithProp_add_message_def WithProp_wants_more_def WithProp_output_def
  WithProp_read_any_prop_def set_prop_def read_prop_def

subsection \<open>Feeding a store\<close>

text \<open>Adding a list of messages one by one, up to the first error.\<close>

primrec store_feed ::
  "('s \<Rightarrow> 'm incoming \<Rightarrow> 's \<times> ('e + unit)) \<Rightarrow> 's \<Rightarrow> 'm incoming list \<Rightarrow> 's \<times> ('e + unit)"
where
  "store_feed add s [] = (s, Ok ())"
| "store_feed add s (m # ms) =
     (case add s m of (s', r) \<Rightarrow> (case r of Err e \<Rightarrow> (s', Err e) | Ok _ \<Rightarrow> store_feed add s' ms))"

lemma store_feed_append:
  "store_feed add s (xs @ ys) =
     (case store_feed add s xs of
        (s', r) \<Rightarrow> (case r of Err e \<Rightarrow> (s', Err e) | Ok _ \<Rightarrow> store_feed add s' ys))"
  by (induction xs arbitrary: s) (auto split: prod.splits sum.splits)

lemma store_feed_simulation:
  assumes sim: "\<And>s m. I s \<Longrightarrow> map_prod f id (add s m) = add' (f s) m"
    and inv: "\<And>s m. I s \<Longrightarrow> I (fst (add s m))"
  shows "I s \<Longrightarrow> map_prod f id (store_feed add s ms) = store_feed add' (f s) ms"
proof (induction ms arbitrary: s)
  case (Cons m ms)
  obtain s' r where add: "add s m = (s', r)" by fastforce
  then have "add' (f s) m = (f s', r)" and "I s'"
    using sim [OF Cons.prems, of m] inv [OF Cons.prems, of m] by simp_all
  with add Cons.IH show ?case by (cases r) simp_all
qed simp

lemma store_feed_invariant:
  assumes "\<And>s m. I s \<Longrightarrow> I (fst (add s m))"
  shows "I s \<Longrightarrow> I (fst (store_feed add s ms))"
proof (induction ms arbitrary: s)
  case (Cons m ms)
  then have "I (fst (add s m))" using assms by blast
  with Cons.IH show ?case by (auto split: prod.splits sum.splits)
qed simp

subsection \<open>The contract of a round store\<close>

text \<open>
  What the documentation of the trait asks of an implementation, for the states a store is
  driven through: \<open>output\<close> gives the store back while more messages are wanted, and returns
  an output as soon as none are. \<open>inv\<close> is the implementation's own invariant; it has to
  survive the messages the store accepts (a store that rejected a message is not used again).
\<close>

locale proper_store =
  fixes add_message :: "'s \<Rightarrow> 'm incoming \<Rightarrow> 's \<times> ('e + unit)"
    and wants_more :: "'s \<Rightarrow> bool"
    and outp :: "'s \<Rightarrow> 's + 'o"
    and inv :: "'s \<Rightarrow> bool"
  assumes inv_add: "inv s \<Longrightarrow> add_message s m = (s', Ok ()) \<Longrightarrow> inv s'"
    and output_ready: "inv s \<Longrightarrow> \<not> wants_more s \<Longrightarrow> is_ok (outp s)"
    and output_not_ready: "inv s \<Longrightarrow> wants_more s \<Longrightarrow> outp s = Err s"
begin

lemma output_ok_iff: "inv s \<Longrightarrow> is_ok (outp s) \<longleftrightarrow> \<not> wants_more s"
  using output_ready output_not_ready by fastforce

lemma feed_inv: "inv s \<Longrightarrow> store_feed add_message s ms = (s', Ok ()) \<Longrightarrow> inv s'"
  by (induction ms arbitrary: s) (auto split: prod.splits sum.splits dest: inv_add)

lemma output_err_iff: "inv s \<Longrightarrow> outp s = Err s' \<longleftrightarrow> wants_more s \<and> s' = s"
  using output_ready [of s] output_not_ready [of s] by (cases "wants_more s") auto

end

text \<open>A store dictionary that keeps the contract under a given invariant.\<close>

definition proper_round_store ::
  "('s, 'm, 'o, 'e, 'u) round_store \<Rightarrow> ('s \<Rightarrow> bool) \<Rightarrow> bool" where
  "proper_round_store S I = proper_store (rs_add_message S) (rs_wants_more S) (rs_output S) I"

text \<open>Wrapping a store with a property keeps its contract.\<close>

lemma WithProp_proper:
  assumes "proper_round_store S I"
  shows "proper_round_store (WithProp_store S) (\<lambda>w. I (wp_store w))"
proof -
  have S: "proper_store (rs_add_message S) (rs_wants_more S) (rs_output S) I"
    using assms by (simp add: proper_round_store_def)
  show ?thesis
    unfolding proper_round_store_def
  proof
    fix w m w'
    assume "I (wp_store w)" and "rs_add_message (WithProp_store S) w m = (w', Ok ())"
    then show "I (wp_store w')"
      using proper_store.inv_add [OF S]
      by (auto simp: store_defs split: prod.splits)
  next
    fix w
    assume "I (wp_store w)" and "\<not> rs_wants_more (WithProp_store S) w"
    then show "is_ok (rs_output (WithProp_store S) w)"
      using proper_store.output_ready [OF S] by (auto simp: store_defs is_ok_iff)
  next
    fix w
    assume "I (wp_store w)" and "rs_wants_more (WithProp_store S) w"
    then show "rs_output (WithProp_store S) w = Err w"
      using proper_store.output_not_ready [OF S] by (auto simp: store_defs)
  qed
qed

end
