(* ===== verification/Mpc_Traits.thy ===== *)
theory Mpc_Traits
  imports Round_Store
begin

section \<open>Protocol messages and the MPC traits\<close>

text \<open>
  \<open>round-based/src/mpc/mod.rs\<close>. A type \<open>M: ProtocolMsg\<close> is its method \<open>round\<close>; an
  implementation \<open>RoundMsg<R> for M\<close> is a dictionary with the associated constant and the two
  conversions. The laws in the locale are the documented contract of the two traits, over the
  messages that are \<open>valid\<close> values of the protocol's message type. The default methods of \<open>MpcExecution\<close> and \<open>SendMany\<close> are functions of the required \<open>send\<close>.
\<close>

record ('rm, 'm) round_msg =
  ROUND :: u16
  to_protocol_msg :: "'rm \<Rightarrow> 'm"
  from_protocol_msg :: "'m \<Rightarrow> 'm + 'rm"

locale lawful_msg =
  fixes valid :: "'m \<Rightarrow> bool"
    and proto_round :: "'m \<Rightarrow> u16"
    and M :: "('rm, 'm) round_msg"
  assumes valid_to: "valid (to_protocol_msg M x)"
    and round_to: "proto_round (to_protocol_msg M x) = ROUND M"
    and from_to: "from_protocol_msg M (to_protocol_msg M x) = Ok x"
    and from_own: "valid p \<Longrightarrow> proto_round p = ROUND M \<Longrightarrow> is_ok (from_protocol_msg M p)"
    and from_other: "valid p \<Longrightarrow> proto_round p \<noteq> ROUND M \<Longrightarrow> from_protocol_msg M p = Err p"
begin

lemma from_ok_iff: "valid p \<Longrightarrow> is_ok (from_protocol_msg M p) \<longleftrightarrow> proto_round p = ROUND M"
  using from_own from_other by fastforce

lemma to_inj: "to_protocol_msg M x = to_protocol_msg M y \<Longrightarrow> x = y"
  by (metis from_to sum.inject(2))

lemma from_toE:
  assumes "valid p" and "proto_round p = ROUND M"
  obtains x where "from_protocol_msg M p = Ok x"
  using from_own [OF assms] by (auto simp: is_ok_iff)

end

definition lawful_round_msg ::
  "('m \<Rightarrow> bool) \<Rightarrow> ('m \<Rightarrow> u16) \<Rightarrow> ('rm, 'm) round_msg \<Rightarrow> bool" where
  "lawful_round_msg valid rnd M = lawful_msg valid rnd M"

subsection \<open>Engines\<close>

text \<open>
  The required methods of \<open>Mpc\<close> and \<open>MpcExecution\<close> that protocols call, as a dictionary: \<open>'p\<close> is the
  engine during setup, \<open>'x\<close> the engine that carries out the protocol. The future of \<open>complete\<close> starts as
  the witness of the round and is polled; between two polls the engine may keep a state \<open>'w\<close> in it.
  Sending does not suspend: it is a call that returns.
\<close>

record ('p, 'x, 'w, 's, 'rm, 'm, 'o, 'ce, 'se) mpc_ops =
  op_add_round :: "'p \<Rightarrow> ('rm, 'm) round_msg \<Rightarrow> 's \<Rightarrow> ('p \<times> 'w) or_panic"
  op_finish_setup :: "'p \<Rightarrow> 'x"
  op_complete :: "'x \<Rightarrow> 'w \<Rightarrow> 'x \<times> 'w \<times> ('ce + 'o) poll"
  op_send :: "'x \<Rightarrow> 'm outgoing \<Rightarrow> 'x \<times> ('se + unit)"

subsection \<open>Default methods\<close>

definition send_p2p :: "('d \<Rightarrow> 'm outgoing \<Rightarrow> 'r) \<Rightarrow> 'd \<Rightarrow> party_index \<Rightarrow> 'm \<Rightarrow> 'r" where
  "send_p2p send self recipient m = send self (Outgoing_p2p recipient m)"

definition send_to_all :: "('d \<Rightarrow> 'm outgoing \<Rightarrow> 'r) \<Rightarrow> 'd \<Rightarrow> 'm \<Rightarrow> 'r" where
  "send_to_all send self m = send self (Outgoing_all_parties m)"

definition reliably_broadcast :: "('d \<Rightarrow> 'm outgoing \<Rightarrow> 'r) \<Rightarrow> 'd \<Rightarrow> 'm \<Rightarrow> 'r" where
  "reliably_broadcast send self m = send self (Outgoing_reliable_broadcast m)"

text \<open>\<open>SendMany\<close> has default methods of its own, over its own \<open>send\<close>.\<close>

definition SendMany_send_p2p :: "('d \<Rightarrow> 'm outgoing \<Rightarrow> 'r) \<Rightarrow> 'd \<Rightarrow> party_index \<Rightarrow> 'm \<Rightarrow> 'r" where
  "SendMany_send_p2p send self recipient m = send self (Outgoing_p2p recipient m)"

definition SendMany_send_to_all :: "('d \<Rightarrow> 'm outgoing \<Rightarrow> 'r) \<Rightarrow> 'd \<Rightarrow> 'm \<Rightarrow> 'r" where
  "SendMany_send_to_all send self m = send self (Outgoing_all_parties m)"

definition SendMany_reliably_broadcast :: "('d \<Rightarrow> 'm outgoing \<Rightarrow> 'r) \<Rightarrow> 'd \<Rightarrow> 'm \<Rightarrow> 'r" where
  "SendMany_reliably_broadcast send self m = send self (Outgoing_reliable_broadcast m)"

end
