(* ===== verification/Simple_Store.thy ===== *)
theory Simple_Store
  imports Round_Store
begin

section \<open>The simple round store\<close>

text \<open>
  \<open>round-based/src/round/simple_store.rs\<close>: \<open>RoundInput\<close> waits for one message of every other
  party; \<open>RoundMsgs\<close> is its output. The vectors have \<open>n - 1\<close> slots: the message of party
  \<open>s \<noteq> i\<close> is in slot \<open>s\<close> when \<open>s < i\<close> and in slot \<open>s - 1\<close> otherwise.
  The abstract counterpart is a \<open>collector\<close>, a finite map from senders to messages; every
  operation of the store is shown to implement the collector's.
\<close>

record 'm round_input =
  ri_i :: party_index
  ri_n :: u16
  ri_messages_ids :: "msg_id list"
  ri_messages :: "'m option list"
  ri_left_messages :: u16
  ri_expected_msg_type :: message_type

record 'm round_msgs =
  rm_i :: party_index
  rm_ids :: "msg_id list"
  rm_messages :: "'m list"

datatype round_input_error =
  AttemptToOverwriteReceivedMsg "msg_id \<times> msg_id" party_index
| SenderIndexOutOfRange msg_id party_index u16
| MismatchedMessageType msg_id message_type message_type

subsection \<open>Construction\<close>

definition RoundInput_new ::
  "party_index \<Rightarrow> u16 \<Rightarrow> message_type \<Rightarrow> 'm round_input or_panic" where
  "RoundInput_new i n msg_type =
     (if \<not> n \<ge> 2 then Panic
      else if \<not> i < n then Panic
      else Ret
        \<lparr>ri_i = i, ri_n = n,
         ri_messages_ids = replicate (unat n - 1) 0,
         ri_messages = replicate (unat n - 1) None,
         ri_left_messages = n - 1,
         ri_expected_msg_type = msg_type\<rparr>)"

definition RoundInput_broadcast :: "party_index \<Rightarrow> u16 \<Rightarrow> 'm round_input or_panic" where
  "RoundInput_broadcast i n = RoundInput_new i n (Broadcast False)"

definition RoundInput_reliable_broadcast ::
  "party_index \<Rightarrow> u16 \<Rightarrow> 'm round_input or_panic" where
  "RoundInput_reliable_broadcast i n = RoundInput_new i n (Broadcast True)"

definition RoundInput_p2p :: "party_index \<Rightarrow> u16 \<Rightarrow> 'm round_input or_panic" where
  "RoundInput_p2p i n = RoundInput_new i n P2P"

subsection \<open>Operations of the store\<close>

fun is_expected_type_of_msg :: "message_type \<Rightarrow> message_type \<Rightarrow> bool" where
  "is_expected_type_of_msg P2P P2P = True"
| "is_expected_type_of_msg (Broadcast False) (Broadcast _) = True"
| "is_expected_type_of_msg (Broadcast True) (Broadcast True) = True"
| "is_expected_type_of_msg _ _ = False"

definition msg_index :: "party_index \<Rightarrow> party_index \<Rightarrow> nat" where
  "msg_index i s = unat (if s < i then s else s - 1)"

definition RoundInput_add_message ::
  "'m round_input \<Rightarrow> 'm incoming \<Rightarrow> 'm round_input \<times> (round_input_error + unit)" where
  "RoundInput_add_message self m =
     (if \<not> is_expected_type_of_msg (ri_expected_msg_type self) (inc_msg_type m)
      then (self, Err (MismatchedMessageType (inc_id m) (ri_expected_msg_type self)
                        (inc_msg_type m)))
      else if inc_sender m = ri_i self then (self, Ok ())
      else
        (let index = msg_index (ri_i self) (inc_sender m) in
         case get_slot (ri_messages self) index of
           Some None \<Rightarrow>
             (self\<lparr>ri_messages := (ri_messages self)[index := Some (inc_msg m)],
                   ri_messages_ids := (ri_messages_ids self)[index := inc_id m],
                   ri_left_messages := ri_left_messages self - 1\<rparr>, Ok ())
         | Some (Some _) \<Rightarrow>
             (self, Err (AttemptToOverwriteReceivedMsg
                          (ri_messages_ids self ! index, inc_id m) (inc_sender m)))
         | None \<Rightarrow>
             (self, Err (SenderIndexOutOfRange (inc_id m) (inc_sender m) (ri_n self)))))"

definition RoundInput_wants_more :: "'m round_input \<Rightarrow> bool" where
  "RoundInput_wants_more self = (ri_left_messages self > 0)"

definition RoundInput_output :: "'m round_input \<Rightarrow> 'm round_input + 'm round_msgs" where
  "RoundInput_output self =
     (if ri_left_messages self > 0 then Err self
      else Ok \<lparr>rm_i = ri_i self, rm_ids = ri_messages_ids self,
               rm_messages = flatten (ri_messages self)\<rparr>)"

definition RoundInput_read_any_prop :: "'m round_input \<Rightarrow> 'u any_slot \<Rightarrow> 'u any_slot" where
  "RoundInput_read_any_prop self property =
     (if slot_type property = RequiresReliableBroadcast_t
      then property\<lparr>slot_val := Some (RequiresReliableBroadcast
             (case ri_expected_msg_type self of Broadcast True \<Rightarrow> True | _ \<Rightarrow> False))\<rparr>
      else property)"

definition RoundInput_store ::
  "('m round_input, 'm, 'm round_msgs, round_input_error, 'u) round_store" where
  "RoundInput_store =
     \<lparr>rs_add_message = RoundInput_add_message, rs_wants_more = RoundInput_wants_more,
      rs_output = RoundInput_output, rs_read_any_prop = RoundInput_read_any_prop\<rparr>"

lemmas RoundInput_op_defs [store_defs] =
  RoundInput_add_message_def RoundInput_wants_more_def RoundInput_output_def
  RoundInput_read_any_prop_def

subsection \<open>Operations of the output\<close>

definition into_vec_without_me :: "'m round_msgs \<Rightarrow> 'm list" where
  "into_vec_without_me r = rm_messages r"

definition into_vec_including_me :: "'m round_msgs \<Rightarrow> 'm \<Rightarrow> 'm list or_panic" where
  "into_vec_including_me r my_msg = vec_insert (unat (rm_i r)) my_msg (rm_messages r)"

definition RoundMsgs_iter :: "'m round_msgs \<Rightarrow> 'm list" where
  "RoundMsgs_iter r = rm_messages r"

definition iter_including_me :: "'m round_msgs \<Rightarrow> 'm \<Rightarrow> 'm list" where
  "iter_including_me r my_msg =
     take (unat (rm_i r)) (rm_messages r) @ [my_msg] @ drop (unat (rm_i r)) (rm_messages r)"

text \<open>The iterator \<open>InsertsAfter\<close>, its \<open>next\<close>, and what collecting it yields.\<close>

record 'm inserts_after =
  ia_offset :: nat
  ia_inner :: "'m list"
  ia_item :: "'m option"

definition inner_next :: "'m inserts_after \<Rightarrow> 'm option \<times> 'm inserts_after" where
  "inner_next it =
     (case ia_inner it of [] \<Rightarrow> (None, it) | x # xs \<Rightarrow> (Some x, it\<lparr>ia_inner := xs\<rparr>))"

definition InsertsAfter_next :: "'m inserts_after \<Rightarrow> 'm option \<times> 'm inserts_after" where
  "InsertsAfter_next it =
     (if ia_offset it = 0 then
        (case ia_item it of
           Some x \<Rightarrow> (Some x, it\<lparr>ia_item := None\<rparr>)
         | None \<Rightarrow> inner_next it)
      else inner_next (it\<lparr>ia_offset := ia_offset it - 1\<rparr>))"

function InsertsAfter_collect :: "'m inserts_after \<Rightarrow> 'm list" where
  "InsertsAfter_collect it =
     (case InsertsAfter_next it of (None, _) \<Rightarrow> [] | (Some x, it') \<Rightarrow> x # InsertsAfter_collect it')"
  by pat_completeness auto
termination
  by (relation "measure (\<lambda>it. length (ia_inner it) + (case ia_item it of None \<Rightarrow> 0 | _ \<Rightarrow> 1))")
    (auto simp: InsertsAfter_next_def inner_next_def
          split: if_splits option.splits list.splits)

declare InsertsAfter_collect.simps [simp del]

definition into_iter_including_me :: "'m round_msgs \<Rightarrow> 'm \<Rightarrow> 'm list" where
  "into_iter_including_me r my_msg =
     InsertsAfter_collect \<lparr>ia_offset = unat (rm_i r), ia_inner = rm_messages r,
                           ia_item = Some my_msg\<rparr>"

text \<open>
  \<open>(0..self.i).chain(self.i + 1..)\<close>: a bounded and an unbounded range of \<open>u16\<close>, chained. The
  chain never runs dry, so zipping it with the ids and the messages stops with these.
\<close>

record party_indexes =
  pi_cur :: u16
  pi_end :: u16
  pi_from :: u16

definition parties_indexes :: "party_index \<Rightarrow> party_indexes" where
  "parties_indexes i = \<lparr>pi_cur = 0, pi_end = i, pi_from = i + 1\<rparr>"

definition party_indexes_next :: "party_indexes \<Rightarrow> u16 \<times> party_indexes" where
  "party_indexes_next p =
     (if pi_cur p < pi_end p then (pi_cur p, p\<lparr>pi_cur := pi_cur p + 1\<rparr>)
      else (pi_from p, p\<lparr>pi_from := pi_from p + 1\<rparr>))"

fun zip_indexed ::
  "party_indexes \<Rightarrow> msg_id list \<Rightarrow> 'm list \<Rightarrow> (party_index \<times> msg_id \<times> 'm) list" where
  "zip_indexed p (d # ids) (m # ms) =
     (let (j, p') = party_indexes_next p in (j, d, m) # zip_indexed p' ids ms)"
| "zip_indexed _ _ _ = []"

definition into_iter_indexed :: "'m round_msgs \<Rightarrow> (party_index \<times> msg_id \<times> 'm) list" where
  "into_iter_indexed r = zip_indexed (parties_indexes (rm_i r)) (rm_ids r) (rm_messages r)"

definition iter_indexed :: "'m round_msgs \<Rightarrow> (party_index \<times> msg_id \<times> 'm) list" where
  "iter_indexed r = zip_indexed (parties_indexes (rm_i r)) (rm_ids r) (rm_messages r)"

subsection \<open>Aliases\<close>

definition round_p2p :: "u16 \<Rightarrow> u16 \<Rightarrow> 'm round_input or_panic" where
  "round_p2p i n = RoundInput_p2p i n"

definition round_broadcast :: "u16 \<Rightarrow> u16 \<Rightarrow> 'm round_input or_panic" where
  "round_broadcast i n = RoundInput_broadcast i n"

definition round_reliable_broadcast :: "u16 \<Rightarrow> u16 \<Rightarrow> 'm round_input or_panic" where
  "round_reliable_broadcast i n = RoundInput_reliable_broadcast i n"


subsection \<open>Slots and senders\<close>

text \<open>The party whose message is in slot \<open>k\<close>; the other parties in ascending order.\<close>

definition sender_at :: "party_index \<Rightarrow> nat \<Rightarrow> nat" where
  "sender_at i k = (if k < unat i then k else Suc k)"

definition others :: "party_index \<Rightarrow> u16 \<Rightarrow> party_index list" where
  "others i n = map (\<lambda>k. of_nat (sender_at i k)) [0..<unat n - Suc 0]"

lemma unat_neq: "(s :: u16) \<noteq> i \<Longrightarrow> unat s \<noteq> unat i"
  by (metis unsigned_word_eqI)

lemma msg_index_unat [index_simps]:
  "s \<noteq> i \<Longrightarrow> msg_index i s = (if unat s < unat i then unat s else unat s - 1)"
proof (cases "s < i")
  case False
  assume "s \<noteq> i"
  with False have "i < s" by simp
  then have "0 < s" by (metis word_gt_0 word_zero_le leD)
  with False show ?thesis by (simp add: msg_index_def unat_pred unat_less_iff)
qed (simp add: msg_index_def unat_less_iff)

lemma sender_at_msg_index [simp]:
  "s \<noteq> i \<Longrightarrow> sender_at i (msg_index i s) = unat s"
  using unat_neq [of s i] by (auto simp: sender_at_def msg_index_unat)

lemma msg_index_inj: "s \<noteq> i \<Longrightarrow> t \<noteq> i \<Longrightarrow> msg_index i s = msg_index i t \<Longrightarrow> s = t"
  by (metis sender_at_msg_index unsigned_word_eqI)

lemma msg_index_less_iff [index_simps]:
  "s \<noteq> i \<Longrightarrow> i < n \<Longrightarrow> msg_index i s < unat n - Suc 0 \<longleftrightarrow> s < n"
  using unat_neq [of s i] by (auto simp: msg_index_unat unat_less_iff)

lemma sender_at_neq: "sender_at i k \<noteq> unat i"
  by (simp add: sender_at_def)

lemma sender_at_less: "i < n \<Longrightarrow> k < unat n - Suc 0 \<Longrightarrow> sender_at i k < unat n"
  by (auto simp: sender_at_def unat_less_iff)

lemma sender_at_mono: "j < k \<Longrightarrow> sender_at i j < sender_at i k"
  by (auto simp: sender_at_def)

lemma unat_sender_at:
  assumes "i < n" and "k < unat n - Suc 0"
  shows "unat (of_nat (sender_at i k) :: u16) = sender_at i k"
  using sender_at_less [OF assms] unat_u16_bound [of n] by (simp add: unat_of_nat_u16)

lemma of_nat_sender_at:
  assumes "i < n" and "k < unat n - Suc 0"
  shows "(of_nat (sender_at i k) :: u16) \<noteq> i" "(of_nat (sender_at i k) :: u16) < n"
    "msg_index i (of_nat (sender_at i k)) = k"
proof -
  let ?s = "of_nat (sender_at i k) :: u16"
  have u: "unat ?s = sender_at i k" by (rule unat_sender_at [OF assms])
  then show n: "?s \<noteq> i" using sender_at_neq by metis
  show "?s < n" using sender_at_less [OF assms] u by (simp add: unat_less_iff)
  show "msg_index i ?s = k" using n u by (auto simp: msg_index_unat sender_at_def)
qed

lemma length_others [simp]: "length (others i n) = unat n - Suc 0"
  by (simp add: others_def)

lemma nth_others: "k < unat n - Suc 0 \<Longrightarrow> others i n ! k = of_nat (sender_at i k)"
  by (simp add: others_def)

lemma set_others:
  assumes "i < n"
  shows "set (others i n) = {s. s \<noteq> i \<and> s < n}"
proof (rule set_eqI, rule iffI)
  fix s assume "s \<in> set (others i n)"
  then show "s \<in> {s. s \<noteq> i \<and> s < n}"
    using of_nat_sender_at [OF assms] by (auto simp: others_def)
next
  fix s assume s: "s \<in> {s. s \<noteq> i \<and> s < n}"
  then have "msg_index i s < unat n - Suc 0" by (simp add: msg_index_less_iff assms)
  moreover have "s = of_nat (sender_at i (msg_index i s))" using s by simp
  ultimately show "s \<in> set (others i n)" by (auto simp: others_def)
qed

lemma others_nth_mono:
  assumes "i < n" and "j < k" and "k < unat n - Suc 0"
  shows "others i n ! j < others i n ! k"
proof -
  have "j < unat n - Suc 0" using assms by simp
  then show ?thesis
    using assms sender_at_mono [of j k i] by (simp only: nth_others unat_less_iff unat_sender_at)
qed

lemma sorted_others: "i < n \<Longrightarrow> sorted_wrt (<) (others i n)"
  by (simp add: sorted_wrt_iff_nth_less others_nth_mono)

lemma distinct_others: "i < n \<Longrightarrow> distinct (others i n)"
  using sorted_others strict_sorted_iff by blast

subsection \<open>The invariant of the store\<close>

definition RoundInput_wf :: "'m round_input \<Rightarrow> bool" where
  "RoundInput_wf s \<longleftrightarrow>
     2 \<le> ri_n s \<and> ri_i s < ri_n s \<and>
     length (ri_messages_ids s) = unat (ri_n s) - 1 \<and>
     length (ri_messages s) = unat (ri_n s) - 1 \<and>
     unat (ri_left_messages s) = vacant (ri_messages s)"

lemma RoundInput_new_ret:
  "RoundInput_new i n t = Ret s \<longleftrightarrow>
     2 \<le> n \<and> i < n \<and>
     s = \<lparr>ri_i = i, ri_n = n, ri_messages_ids = replicate (unat n - Suc 0) 0,
          ri_messages = replicate (unat n - Suc 0) None, ri_left_messages = n - 1,
          ri_expected_msg_type = t\<rparr>"
  by (auto simp: RoundInput_new_def)

lemma pos_if_two_le: "2 \<le> (n :: u16) \<Longrightarrow> 0 < n"
  by (simp add: unat_le_iff unat_less_iff)

lemma RoundInput_new_wf: "RoundInput_new i n t = Ret s \<Longrightarrow> RoundInput_wf s"
  by (auto simp: RoundInput_new_ret RoundInput_wf_def unat_pred pos_if_two_le)

lemma left_messages_pos:
  assumes "RoundInput_wf s" and "k < length (ri_messages s)" and "ri_messages s ! k = None"
  shows "0 < ri_left_messages s"
    "unat (ri_left_messages s - 1) = vacant ((ri_messages s)[k := Some m])"
proof -
  have u: "unat (ri_left_messages s) = Suc (vacant ((ri_messages s)[k := Some m]))"
    using assms by (simp add: RoundInput_wf_def vacant_update [of k "ri_messages s" m])
  then show "0 < ri_left_messages s" by (simp add: unat_less_iff)
  then show "unat (ri_left_messages s - 1) = vacant ((ri_messages s)[k := Some m])"
    using u by (simp add: unat_pred)
qed

lemma RoundInput_add_message_wf:
  assumes "RoundInput_wf s"
  shows "RoundInput_wf (fst (RoundInput_add_message s m))"
  using assms left_messages_pos [OF assms]
  by (auto simp: RoundInput_add_message_def RoundInput_wf_def Let_def get_slot_iff
           split: option.splits if_splits)

text \<open>The fields that say what the store is for never change.\<close>

lemma RoundInput_add_message_frame [simp]:
  "ri_i (fst (RoundInput_add_message s m)) = ri_i s"
  "ri_n (fst (RoundInput_add_message s m)) = ri_n s"
  "ri_expected_msg_type (fst (RoundInput_add_message s m)) = ri_expected_msg_type s"
  by (auto simp: RoundInput_add_message_def Let_def split: option.splits)

lemma RoundInput_add_message_err:
  "RoundInput_add_message s m = (s', Err e) \<Longrightarrow> s' = s"
  by (auto simp: RoundInput_add_message_def Let_def split: option.splits if_splits)


subsection \<open>The store as a collector\<close>

text \<open>
  What the store promises: it collects at most one message per party, in a map from senders
  to the id and the body of their message.
\<close>

record 'm collector =
  col_me :: party_index
  col_n :: u16
  col_type :: message_type
  col_got :: "party_index \<rightharpoonup> msg_id \<times> 'm"

definition collector_add ::
  "'m collector \<Rightarrow> 'm incoming \<Rightarrow> 'm collector \<times> (round_input_error + unit)" where
  "collector_add c m =
     (let s = inc_sender m in
      if \<not> is_expected_type_of_msg (col_type c) (inc_msg_type m)
      then (c, Err (MismatchedMessageType (inc_id m) (col_type c) (inc_msg_type m)))
      else if s = col_me c then (c, Ok ())
      else if \<not> s < col_n c then (c, Err (SenderIndexOutOfRange (inc_id m) s (col_n c)))
      else (case col_got c s of
              Some (d, _) \<Rightarrow> (c, Err (AttemptToOverwriteReceivedMsg (d, inc_id m) s))
            | None \<Rightarrow> (c\<lparr>col_got := (col_got c)(s \<mapsto> (inc_id m, inc_msg m))\<rparr>, Ok ())))"

definition received_from :: "'m round_input \<Rightarrow> party_index \<rightharpoonup> msg_id \<times> 'm" where
  "received_from self s =
     (if s = ri_i self then None
      else case get_slot (ri_messages self) (msg_index (ri_i self) s) of
             Some (Some m) \<Rightarrow> Some (ri_messages_ids self ! msg_index (ri_i self) s, m)
           | _ \<Rightarrow> None)"

definition collector_of :: "'m round_input \<Rightarrow> 'm collector" where
  "collector_of self =
     \<lparr>col_me = ri_i self, col_n = ri_n self, col_type = ri_expected_msg_type self,
      col_got = received_from self\<rparr>"

lemma received_from_update:
  assumes wf: "RoundInput_wf self" and s: "s \<noteq> ri_i self" "s < ri_n self"
    and k: "k = msg_index (ri_i self) s"
  shows "received_from (self\<lparr>ri_messages := (ri_messages self)[k := Some m],
           ri_messages_ids := (ri_messages_ids self)[k := d], ri_left_messages := l\<rparr>) =
         (received_from self)(s \<mapsto> (d, m))"
proof
  fix t
  let ?self' = "self\<lparr>ri_messages := (ri_messages self)[k := Some m],
           ri_messages_ids := (ri_messages_ids self)[k := d], ri_left_messages := l\<rparr>"
  have len: "k < length (ri_messages self)" "k < length (ri_messages_ids self)"
    using wf s by (simp_all add: RoundInput_wf_def msg_index_less_iff k)
  show "received_from ?self' t = ((received_from self)(s \<mapsto> (d, m))) t"
  proof (cases "t = s")
    case True
    then show ?thesis using len s(1) by (simp add: received_from_def get_slot_def flip: k)
  next
    case False
    then have "t = ri_i self \<or> msg_index (ri_i self) t \<noteq> k"
      using s(1) msg_index_inj k by blast
    then show ?thesis using False by (auto simp: received_from_def get_slot_def split: option.splits)
  qed
qed

lemma slot_out_of_range:
  "RoundInput_wf self \<Longrightarrow> s \<noteq> ri_i self \<Longrightarrow>
   get_slot (ri_messages self) (msg_index (ri_i self) s) = None \<longleftrightarrow> \<not> s < ri_n self"
  by (auto simp: RoundInput_wf_def get_slot_iff simp flip: msg_index_less_iff)

lemma add_message_refines_collector:
  assumes wf: "RoundInput_wf self"
  shows "map_prod collector_of id (RoundInput_add_message self m) =
         collector_add (collector_of self) m"
proof (cases "is_expected_type_of_msg (ri_expected_msg_type self) (inc_msg_type m)
              \<and> inc_sender m \<noteq> ri_i self")
  case True
  let ?s = "inc_sender m"
  note slot = slot_out_of_range [OF wf, of ?s]
  show ?thesis
  proof (cases "get_slot (ri_messages self) (msg_index (ri_i self) ?s)")
    case None
    with True slot show ?thesis
      by (simp add: RoundInput_add_message_def collector_add_def collector_of_def Let_def)
  next
    case (Some x)
    then have less: "?s < ri_n self" using True slot by auto
    show ?thesis
    proof (cases x)
      case None
      with Some True less received_from_update [OF wf _ less refl] show ?thesis
        by (simp add: RoundInput_add_message_def collector_add_def collector_of_def
                      received_from_def [of self ?s] Let_def)
    next
      case (Some y)
      with \<open>get_slot _ _ = Some x\<close> True less show ?thesis
        by (simp add: RoundInput_add_message_def collector_add_def collector_of_def
                      received_from_def Let_def)
    qed
  qed
next
  case False
  then show ?thesis
    by (auto simp: RoundInput_add_message_def collector_add_def collector_of_def Let_def)
qed

lemma collector_of_new:
  "RoundInput_new i n t = Ret self \<Longrightarrow>
   collector_of self = \<lparr>col_me = i, col_n = n, col_type = t, col_got = Map.empty\<rparr>"
  by (auto simp: RoundInput_new_ret collector_of_def received_from_def fun_eq_iff get_slot_def)

subsection \<open>Completion and output\<close>

lemma received_from_others:
  assumes "RoundInput_wf self" and "k < unat (ri_n self) - Suc 0"
  shows "received_from self (others (ri_i self) (ri_n self) ! k) =
         map_option (\<lambda>m. (ri_messages_ids self ! k, m)) (ri_messages self ! k)"
  using assms of_nat_sender_at [of "ri_i self" "ri_n self" k]
  by (auto simp: RoundInput_wf_def received_from_def nth_others get_slot_def split: option.splits)

lemma wants_more_iff:
  assumes wf: "RoundInput_wf self"
  shows "RoundInput_wants_more self \<longleftrightarrow>
         (\<exists>s. s \<noteq> ri_i self \<and> s < ri_n self \<and> received_from self s = None)"
proof -
  let ?os = "others (ri_i self) (ri_n self)"
  have i: "ri_i self < ri_n self" and len: "length (ri_messages self) = length ?os"
    using wf by (simp_all add: RoundInput_wf_def)
  have "RoundInput_wants_more self \<longleftrightarrow> vacant (ri_messages self) \<noteq> 0"
    using wf by (simp add: RoundInput_wants_more_def RoundInput_wf_def unat_less_iff)
  also have "\<dots> \<longleftrightarrow> (\<exists>k < length ?os. received_from self (?os ! k) = None)"
    using wf by (auto simp: vacant_zero_iff received_from_others RoundInput_wf_def)
  also have "\<dots> \<longleftrightarrow> (\<exists>s \<in> set ?os. received_from self s = None)"
    by (metis in_set_conv_nth)
  finally show ?thesis using i by (auto simp: set_others)
qed

lemma RoundInput_output_ready:
  assumes wf: "RoundInput_wf self" and "\<not> RoundInput_wants_more self"
  shows "RoundInput_output self =
    Ok \<lparr>rm_i = ri_i self,
        rm_ids = map (\<lambda>s. fst (the (received_from self s))) (others (ri_i self) (ri_n self)),
        rm_messages = map (\<lambda>s. snd (the (received_from self s))) (others (ri_i self) (ri_n self))\<rparr>"
proof -
  let ?os = "others (ri_i self) (ri_n self)"
  have full: "vacant (ri_messages self) = 0"
    using assms by (simp add: RoundInput_wants_more_def RoundInput_wf_def unat_less_iff)
  have len: "length (ri_messages self) = length ?os" "length (ri_messages_ids self) = length ?os"
    using wf by (simp_all add: RoundInput_wf_def)
  have some: "ri_messages self ! k \<noteq> None" if "k < length ?os" for k
    using full that len by (simp add: vacant_zero_iff)
  have "ri_messages_ids self = map (\<lambda>s. fst (the (received_from self s))) ?os"
    using some len by (intro nth_equalityI) (auto simp: received_from_others [OF wf] option.map_sel)
  moreover have "map the (ri_messages self) = map (\<lambda>s. snd (the (received_from self s))) ?os"
    using some len by (intro nth_equalityI) (auto simp: received_from_others [OF wf] option.map_sel)
  ultimately show ?thesis
    using assms(2) full by (simp add: RoundInput_output_def RoundInput_wants_more_def flatten_full)
qed

text \<open>\<open>RoundInput\<close> keeps the contract of the round store trait.\<close>

interpretation round_input: proper_store RoundInput_add_message RoundInput_wants_more
  RoundInput_output RoundInput_wf
proof
  fix self :: "'m round_input" and m self'
  assume "RoundInput_wf self" and "RoundInput_add_message self m = (self', Ok ())"
  then show "RoundInput_wf self'" by (metis RoundInput_add_message_wf fst_conv)
next
  fix self :: "'m round_input"
  assume "RoundInput_wf self" and "\<not> RoundInput_wants_more self"
  then show "is_ok (RoundInput_output self)" by (simp add: RoundInput_output_ready)
next
  fix self :: "'m round_input"
  assume "RoundInput_wants_more self"
  then show "RoundInput_output self = Err self"
    by (simp add: RoundInput_output_def RoundInput_wants_more_def)
qed

lemma RoundInput_proper: "proper_round_store RoundInput_store RoundInput_wf"
  unfolding proper_round_store_def
  by (simp add: RoundInput_store_def round_input.proper_store_axioms)


subsection \<open>Views of the output\<close>

definition RoundMsgs_wf :: "'m round_msgs \<Rightarrow> u16 \<Rightarrow> bool" where
  "RoundMsgs_wf r n \<longleftrightarrow> rm_i r < n \<and> length (rm_ids r) = unat n - 1 \<and>
     length (rm_messages r) = unat n - 1"

lemma RoundInput_output_wf:
  assumes "RoundInput_wf self" and "RoundInput_output self = Ok r"
  shows "RoundMsgs_wf r (ri_n self)" "rm_i r = ri_i self"
proof -
  have "\<not> RoundInput_wants_more self"
    using assms round_input.output_ok_iff is_ok_iff by blast
  then show "RoundMsgs_wf r (ri_n self)" "rm_i r = ri_i self"
    using assms RoundInput_output_ready [OF assms(1)]
    by (auto simp: RoundMsgs_wf_def RoundInput_wf_def)
qed

lemma collect_rest:
  "InsertsAfter_collect \<lparr>ia_offset = 0, ia_inner = xs, ia_item = None\<rparr> = xs"
  by (induction xs)
    (simp_all add: InsertsAfter_collect.simps [of "\<lparr>ia_offset = 0, ia_inner = _, ia_item = None\<rparr>"]
                   InsertsAfter_next_def inner_next_def)

lemma collect_inserts:
  "k \<le> length xs \<Longrightarrow>
   InsertsAfter_collect \<lparr>ia_offset = k, ia_inner = xs, ia_item = Some x\<rparr> =
     take k xs @ x # drop k xs"
proof (induction k arbitrary: xs)
  case 0
  then show ?case
    by (subst InsertsAfter_collect.simps) (simp add: InsertsAfter_next_def collect_rest)
next
  case (Suc k)
  then obtain y ys where "xs = y # ys" by (cases xs) auto
  with Suc show ?case
    by (subst InsertsAfter_collect.simps) (simp add: InsertsAfter_next_def inner_next_def)
qed

lemma rm_i_le: "RoundMsgs_wf r n \<Longrightarrow> unat (rm_i r) \<le> length (rm_messages r)"
  by (auto simp: RoundMsgs_wf_def unat_less_iff)

lemma including_me_views:
  assumes "RoundMsgs_wf r n"
  shows "into_vec_including_me r x = Ret (iter_including_me r x)"
    "into_iter_including_me r x = iter_including_me r x"
  using rm_i_le [OF assms]
  by (simp_all add: into_vec_including_me_def vec_insert_def iter_including_me_def
                    into_iter_including_me_def collect_inserts)

lemma iter_including_me_nth:
  assumes "RoundMsgs_wf r n" and "j < n"
  shows "iter_including_me r x ! unat j =
         (if j = rm_i r then x else rm_messages r ! msg_index (rm_i r) j)"
proof (cases "j = rm_i r")
  case True
  then show ?thesis using rm_i_le [OF assms(1)] by (simp add: iter_including_me_def nth_append)
next
  case False
  then show ?thesis
    using assms rm_i_le [OF assms(1)] unat_neq [OF False]
    by (auto simp: iter_including_me_def nth_append msg_index_unat nth_Cons' min_def)
qed

lemma length_iter_including_me:
  "RoundMsgs_wf r n \<Longrightarrow> length (iter_including_me r x) = unat n"
  using rm_i_le [of r n] by (auto simp: iter_including_me_def RoundMsgs_wf_def unat_less_iff)

text \<open>The chained ranges produce the parties other than \<open>i\<close> in ascending order.\<close>

definition indexes_at :: "party_index \<Rightarrow> nat \<Rightarrow> party_indexes" where
  "indexes_at i k =
     \<lparr>pi_cur = of_nat (min k (unat i)), pi_end = i,
      pi_from = i + 1 + of_nat (k - unat i)\<rparr>"

lemma unat_of_nat_min: "unat (of_nat (min k (unat (i :: u16))) :: u16) = min k (unat i)"
  using unat_u16_bound [of i] by (intro unat_of_nat_u16) auto

lemma indexes_at_next:
  "party_indexes_next (indexes_at i k) = (of_nat (sender_at i k), indexes_at i (Suc k))"
proof (cases "k < unat i")
  case True
  then have "min k (unat i) = k" "min (Suc k) (unat i) = Suc k" by auto
  with True show ?thesis
    using unat_of_nat_min [of k i]
    by (auto simp: indexes_at_def party_indexes_next_def sender_at_def unat_less_iff)
next
  case False
  then have "min k (unat i) = unat i" "min (Suc k) (unat i) = unat i"
    "Suc k - unat i = Suc (k - unat i)" by auto
  moreover have "i + 1 + of_nat (k - unat i) = of_nat (Suc k)"
    using False by (simp add: of_nat_diff)
  ultimately show ?thesis
    using False by (simp add: indexes_at_def party_indexes_next_def sender_at_def add.assoc)
qed

lemma zip_indexed_from:
  "length ids = length ms \<Longrightarrow>
   zip_indexed (indexes_at i k) ids ms =
     zip (map (\<lambda>j. of_nat (sender_at i j)) [k..<k + length ms]) (zip ids ms)"
proof (induction ids ms arbitrary: k rule: list_induct2)
  case (Cons d ids m ms)
  have "[k..<k + length (m # ms)] = k # [Suc k..<Suc k + length ms]"
    using upt_conv_Cons [of k "k + length (m # ms)"] by simp
  with Cons show ?case by (simp add: indexes_at_next)
qed simp

lemma into_iter_indexed_eq:
  assumes "RoundMsgs_wf r n"
  shows "into_iter_indexed r = zip (others (rm_i r) n) (zip (rm_ids r) (rm_messages r))"
proof -
  have "parties_indexes (rm_i r) = indexes_at (rm_i r) 0"
    by (simp add: parties_indexes_def indexes_at_def)
  then show ?thesis
    using assms by (simp add: into_iter_indexed_def zip_indexed_from RoundMsgs_wf_def others_def)
qed


subsection \<open>Collecting a whole round\<close>

text \<open>The messages of a list by sender, and when a round of \<open>n\<close> parties accepts them all.\<close>

definition by_sender :: "'m incoming list \<Rightarrow> party_index \<rightharpoonup> msg_id \<times> 'm" where
  "by_sender ms = map_of (map (\<lambda>m. (inc_sender m, (inc_id m, inc_msg m))) ms)"

definition one_each :: "party_index \<Rightarrow> u16 \<Rightarrow> message_type \<Rightarrow> 'm incoming list \<Rightarrow> bool" where
  "one_each i n t ms \<longleftrightarrow>
     list_all (\<lambda>m. is_expected_type_of_msg t (inc_msg_type m)) ms \<and>
     distinct (map inc_sender ms) \<and> set (map inc_sender ms) = {s. s \<noteq> i \<and> s < n}"

lemma collector_feed:
  assumes "list_all (\<lambda>m. is_expected_type_of_msg (col_type c) (inc_msg_type m)) ms"
    and "distinct (map inc_sender ms)"
    and "\<forall>m \<in> set ms. inc_sender m \<noteq> col_me c \<and> inc_sender m < col_n c
                        \<and> col_got c (inc_sender m) = None"
  shows "store_feed collector_add c ms = (c\<lparr>col_got := col_got c ++ by_sender ms\<rparr>, Ok ())"
  using assms
proof (induction ms arbitrary: c)
  case (Cons m ms)
  let ?c = "c\<lparr>col_got := (col_got c)(inc_sender m \<mapsto> (inc_id m, inc_msg m))\<rparr>"
  have "collector_add c m = (?c, Ok ())"
    using Cons.prems by (simp add: collector_add_def)
  moreover have "store_feed collector_add ?c ms =
      (?c\<lparr>col_got := col_got ?c ++ by_sender ms\<rparr>, Ok ())"
    using Cons.prems by (intro Cons.IH) (auto, metis imageI)
  moreover have "by_sender ms (inc_sender m) = None"
    using Cons.prems(2) by (auto simp: by_sender_def map_of_eq_None_iff image_image)
  then have "(col_got c)(inc_sender m \<mapsto> (inc_id m, inc_msg m)) ++ by_sender ms =
             col_got c ++ by_sender (m # ms)"
    by (auto simp: by_sender_def map_add_def fun_eq_iff split: option.splits)
  ultimately show ?case by simp
qed (simp add: by_sender_def)

lemma feed_one_each:
  assumes new: "RoundInput_new i n t = Ret s0" and each: "one_each i n t ms"
  obtains s where "store_feed RoundInput_add_message s0 ms = (s, Ok ())"
    and "RoundInput_wf s" "ri_i s = i" "ri_n s = n" "received_from s = by_sender ms"
proof -
  let ?c = "collector_of s0"
  have wf: "RoundInput_wf s0" by (rule RoundInput_new_wf [OF new])
  have c: "?c = \<lparr>col_me = i, col_n = n, col_type = t, col_got = Map.empty\<rparr>"
    by (rule collector_of_new [OF new])
  obtain s r where feed: "store_feed RoundInput_add_message s0 ms = (s, r)" by fastforce
  have "map_prod collector_of id (store_feed RoundInput_add_message s0 ms) =
        store_feed collector_add ?c ms"
    by (rule store_feed_simulation [where I = RoundInput_wf])
      (simp_all add: wf add_message_refines_collector RoundInput_add_message_wf)
  also have "\<dots> = (?c\<lparr>col_got := by_sender ms\<rparr>, Ok ())"
    using collector_feed [of ?c ms] each by (auto simp: c one_each_def)
  finally have r: "r = Ok ()" and s: "collector_of s = ?c\<lparr>col_got := by_sender ms\<rparr>"
    by (simp_all add: feed)
  have "RoundInput_wf s"
    using round_input.feed_inv [OF wf] feed r by blast
  moreover have "ri_i s = i" "ri_n s = n" "received_from s = by_sender ms"
    using s unfolding c by (simp_all add: collector_of_def)
  ultimately show thesis using that feed r by blast
qed

lemma by_sender_dom: "one_each i n t ms \<Longrightarrow> s \<noteq> i \<Longrightarrow> s < n \<Longrightarrow> by_sender ms s \<noteq> None"
  by (auto simp: one_each_def by_sender_def map_of_eq_None_iff image_image)

lemma by_sender_member:
  "one_each i n t ms \<Longrightarrow> m \<in> set ms \<Longrightarrow> by_sender ms (inc_sender m) = Some (inc_id m, inc_msg m)"
  by (auto simp: one_each_def by_sender_def map_of_eq_Some_iff comp_def)

lemma one_each_completes:
  assumes new: "RoundInput_new i n t = Ret s0" and each: "one_each i n t ms"
  shows "\<exists>s. store_feed RoundInput_add_message s0 ms = (s, Ok ()) \<and>
     RoundInput_output s =
       Ok \<lparr>rm_i = i, rm_ids = map (\<lambda>j. fst (the (by_sender ms j))) (others i n),
           rm_messages = map (\<lambda>j. snd (the (by_sender ms j))) (others i n)\<rparr>"
proof -
  obtain s where s: "store_feed RoundInput_add_message s0 ms = (s, Ok ())"
    "RoundInput_wf s" "ri_i s = i" "ri_n s = n" "received_from s = by_sender ms"
    using feed_one_each [OF new each] .
  then have "\<not> RoundInput_wants_more s"
    using by_sender_dom [OF each] unfolding wants_more_iff [OF s(2)] by metis
  then show ?thesis using s RoundInput_output_ready [of s] by simp
qed

text \<open>Until the last of these messages the store asks for more.\<close>

lemma RoundInput_new_wants_more:
  "RoundInput_new i n t = Ret s \<Longrightarrow> RoundInput_wants_more s"
  by (auto simp: RoundInput_new_ret RoundInput_wants_more_def unat_less_iff unat_le_iff unat_pred)

lemma by_sender_take_misses:
  assumes "one_each i n t ms" and "k < length ms"
  shows "\<exists>s. s \<noteq> i \<and> s < n \<and> by_sender (take k ms) s = None"
proof -
  let ?s = "inc_sender (ms ! k)"
  have "?s \<noteq> i" "?s < n" using assms by (auto simp: one_each_def)
  moreover have "?s \<notin> set (map inc_sender (take k ms))"
  proof
    assume "?s \<in> set (map inc_sender (take k ms))"
    then obtain j where "j < k" and "map inc_sender ms ! j = map inc_sender ms ! k"
      using assms(2) by (auto simp: in_set_conv_nth)
    then show False
      using assms by (auto simp: one_each_def distinct_conv_nth)
  qed
  then have "by_sender (take k ms) ?s = None"
    by (auto simp: by_sender_def map_of_eq_None_iff image_image)
  ultimately show ?thesis by blast
qed

lemma feed_prefix:
  assumes new: "RoundInput_new i n t = Ret s0" and each: "one_each i n t ms"
  shows "RoundInput_wf (fst (store_feed RoundInput_add_message s0 (take k ms))) \<and>
    collector_of (fst (store_feed RoundInput_add_message s0 (take k ms))) =
      \<lparr>col_me = i, col_n = n, col_type = t, col_got = by_sender (take k ms)\<rparr>"
proof -
  let ?c = "collector_of s0"
  have wf: "RoundInput_wf s0" by (rule RoundInput_new_wf [OF new])
  have c: "?c = \<lparr>col_me = i, col_n = n, col_type = t, col_got = Map.empty\<rparr>"
    by (rule collector_of_new [OF new])
  have sub: "set (take k ms) \<subseteq> set ms" by (rule set_take_subset)
  have "map_prod collector_of id (store_feed RoundInput_add_message s0 (take k ms)) =
        store_feed collector_add ?c (take k ms)"
    by (rule store_feed_simulation [where I = RoundInput_wf])
      (simp_all add: wf add_message_refines_collector RoundInput_add_message_wf)
  also have "\<dots> = (?c\<lparr>col_got := by_sender (take k ms)\<rparr>, Ok ())"
    using collector_feed [of ?c "take k ms"] each sub
    by (force simp: c one_each_def list_all_iff take_map [symmetric])
  finally have "collector_of (fst (store_feed RoundInput_add_message s0 (take k ms))) =
      ?c\<lparr>col_got := by_sender (take k ms)\<rparr>"
    by (cases "store_feed RoundInput_add_message s0 (take k ms)") simp
  moreover have "RoundInput_wf (fst (store_feed RoundInput_add_message s0 (take k ms)))"
    by (rule store_feed_invariant [of RoundInput_wf]) (simp_all add: RoundInput_add_message_wf wf)
  ultimately show ?thesis unfolding c by simp
qed

lemma prefix_wants_more:
  assumes new: "RoundInput_new i n t = Ret s0" and each: "one_each i n t ms" and "k < length ms"
  shows "RoundInput_wants_more (fst (store_feed RoundInput_add_message s0 (take k ms)))"
proof -
  let ?s = "fst (store_feed RoundInput_add_message s0 (take k ms))"
  have "RoundInput_wf ?s" "ri_i ?s = i" "ri_n ?s = n" "received_from ?s = by_sender (take k ms)"
    using feed_prefix [OF new each, of k] by (simp_all add: collector_of_def)
  then show ?thesis
    using by_sender_take_misses [OF each assms(3)] wants_more_iff [of ?s] by simp
qed

definition round_output :: "party_index \<Rightarrow> u16 \<Rightarrow> 'm incoming list \<Rightarrow> 'm round_msgs" where
  "round_output i n ms =
     \<lparr>rm_i = i, rm_ids = map (\<lambda>j. fst (the (by_sender ms j))) (others i n),
      rm_messages = map (\<lambda>j. snd (the (by_sender ms j))) (others i n)\<rparr>"

text \<open>If party \<open>j\<close> sent \<open>f (xs ! j)\<close>, the output lists the images of \<open>xs\<close>.\<close>

lemma round_output_lists:
  assumes i: "i < n" and each: "one_each i n t ms" and xs: "length xs = unat n"
    and sent: "\<forall>m \<in> set ms. inc_msg m = f (xs ! unat (inc_sender m))"
  shows "RoundMsgs_wf (round_output i n ms) n"
    and "iter_including_me (round_output i n ms) (f (xs ! unat i)) = map f xs"
proof -
  let ?r = "round_output i n ms"
  show wf: "RoundMsgs_wf ?r n"
    using i by (simp add: RoundMsgs_wf_def round_output_def length_others)
  show "iter_including_me ?r (f (xs ! unat i)) = map f xs"
  proof (rule nth_equalityI)
    show "length (iter_including_me ?r (f (xs ! unat i))) = length (map f xs)"
      using length_iter_including_me [OF wf] xs by simp
    fix k assume "k < length (iter_including_me ?r (f (xs ! unat i)))"
    then have k: "k < unat n" using length_iter_including_me [OF wf] by simp
    define j :: u16 where "j = of_nat k"
    have jk: "unat j = k" using k unat_u16_bound [of n] by (simp add: j_def unat_of_nat_u16)
    have j: "j < n" using k jk by (simp add: unat_less_iff)
    show "iter_including_me ?r (f (xs ! unat i)) ! k = map f xs ! k"
    proof (cases "j = i")
      case True
      then show ?thesis using iter_including_me_nth [OF wf j, of "f (xs ! unat i)"] xs k jk
        by (simp add: round_output_def)
    next
      case False
      then have "j \<in> set (map inc_sender ms)" using each j unfolding one_each_def by simp
      then obtain m where m: "m \<in> set ms" "inc_sender m = j" by auto
      have idx: "msg_index i j < unat n - Suc 0" "others i n ! msg_index i j = j"
        using False i j by (simp_all add: msg_index_less_iff nth_others)
      have "rm_messages ?r ! msg_index i j = inc_msg m"
        using idx by_sender_member [OF each m(1)] m(2) by (simp add: round_output_def length_others)
      then show ?thesis
        using iter_including_me_nth [OF wf j, of "f (xs ! unat i)"] sent m False xs k jk
        by (auto simp: round_output_def)
    qed
  qed
qed

subsection \<open>Expected message types\<close>

text \<open>
  The type check orders the message types: a round that expects an unreliable broadcast also
  takes a reliable one.
\<close>

instantiation message_type :: order
begin

definition less_eq_message_type :: "message_type \<Rightarrow> message_type \<Rightarrow> bool" where
  "less_eq_message_type a b = is_expected_type_of_msg a b"

definition less_message_type :: "message_type \<Rightarrow> message_type \<Rightarrow> bool" where
  "less_message_type a b = (a \<le> b \<and> \<not> b \<le> (a :: message_type))"

instance
proof
  fix x y z :: message_type
  show "(x < y) = (x \<le> y \<and> \<not> y \<le> x)" by (simp add: less_message_type_def)
  show "x \<le> x"
    by (cases x rule: message_type.exhaust; cases "x = Broadcast True")
      (auto simp: less_eq_message_type_def)
  show "x \<le> y \<Longrightarrow> y \<le> z \<Longrightarrow> x \<le> z"
    unfolding less_eq_message_type_def
    by (induction x y rule: is_expected_type_of_msg.induct; cases z) auto
  show "x \<le> y \<Longrightarrow> y \<le> x \<Longrightarrow> x = y"
    unfolding less_eq_message_type_def
    by (induction x y rule: is_expected_type_of_msg.induct) auto
qed

end

lemma is_expected_iff:
  "is_expected_type_of_msg e a \<longleftrightarrow> a = e \<or> e = Broadcast False \<and> a = Broadcast True"
  by (induction e a rule: is_expected_type_of_msg.induct) auto


subsection \<open>Properties\<close>

text \<open>Concrete messages for the instances below.\<close>

definition sample_incoming :: "msg_id \<Rightarrow> party_index \<Rightarrow> message_type \<Rightarrow> 'm \<Rightarrow> 'm incoming" where
  "sample_incoming d s t x = \<lparr>inc_id = d, inc_sender = s, inc_msg_type = t, inc_msg = x\<rparr>"

definition sample_store :: "nat round_input" where
  "sample_store =
     \<lparr>ri_i = 1, ri_n = 3, ri_messages_ids = [0, 0], ri_messages = [None, None],
      ri_left_messages = 2, ri_expected_msg_type = Broadcast False\<rparr>"

lemma replicate_2: "replicate 2 x = [x, x]"
  by (simp add: numeral_2_eq_2)

lemma upt_0_2: "[0..<2] = [0, Suc 0]"
  by (simp add: numeral_2_eq_2)

lemma sample_store_new: "RoundInput_new 1 3 (Broadcast False) = Ret sample_store"
  by (simp add: RoundInput_new_def sample_store_def replicate_2)

lemma sample_store_wf: "RoundInput_wf sample_store"
  by (rule RoundInput_new_wf [OF sample_store_new])

lemma others_1_3: "others 1 3 = [0, 2]"
  by (simp add: others_def sender_at_def upt_0_2)

lemma u16_less_3: "(s :: u16) < 3 \<longleftrightarrow> s = 0 \<or> s = 1 \<or> s = 2"
proof -
  have "s < 3 \<longleftrightarrow> unat s = 0 \<or> unat s = 1 \<or> unat s = 2"
    by (auto simp: unat_less_iff)
  also have "\<dots> \<longleftrightarrow> unat s = unat (0 :: u16) \<or> unat s = unat (1 :: u16) \<or> unat s = unat (2 :: u16)"
    by simp
  finally show ?thesis by (simp only: word_unat_eq_iff)
qed

text \<open>C5: Every operation of the vector-based store implements the abstract collector. Whatever
  message arrives, adding it keeps the representation invariant, answers exactly what the
  collector answers (accepted, ignored, or the same error with the same contents), and leaves
  a store that represents the collector's next state.\<close>

theorem add_message_implements_collector:
  assumes "RoundInput_wf self"
  shows "RoundInput_wf (fst (RoundInput_add_message self m)) \<and>
         map_prod collector_of id (RoundInput_add_message self m) =
           collector_add (collector_of self) m"
  using assms by (simp add: RoundInput_add_message_wf add_message_refines_collector)

theorem add_message_implements_collector_witness:
  "RoundInput_wf (fst (RoundInput_add_message sample_store
      (sample_incoming 7 2 (Broadcast False) 42))) \<and>
   map_prod collector_of id (RoundInput_add_message sample_store
      (sample_incoming 7 2 (Broadcast False) 42)) =
   collector_add (collector_of sample_store) (sample_incoming 7 2 (Broadcast False) 42)"
  by (rule add_message_implements_collector [OF sample_store_wf])

text \<open>C19: A round of \<open>n\<close> parties collects all its messages whatever the order they arrive in.
  If the list holds exactly one message of an expected type from each party other than \<open>i\<close>,
  every message is accepted, the store then outputs, and the list of the \<open>n\<close> messages that
  includes the party's own has the message of party \<open>j\<close> at position \<open>j\<close>.\<close>

theorem round_completes_in_any_order:
  assumes "RoundInput_new i n t = Ret s0" and "one_each i n t ms"
  shows "\<exists>s out. store_feed RoundInput_add_message s0 ms = (s, Ok ()) \<and>
     RoundInput_output s = Ok out \<and>
     into_vec_including_me out mine = Ret (iter_including_me out mine) \<and>
     length (iter_including_me out mine) = unat n \<and>
     iter_including_me out mine ! unat i = mine \<and>
     (\<forall>m \<in> set ms. iter_including_me out mine ! unat (inc_sender m) = inc_msg m)"
proof -
  obtain s where feed: "store_feed RoundInput_add_message s0 ms = (s, Ok ())"
    and s: "RoundInput_wf s" "ri_i s = i" "ri_n s = n" "received_from s = by_sender ms"
    using feed_one_each [OF assms] .
  let ?out = "\<lparr>rm_i = i, rm_ids = map (\<lambda>j. fst (the (by_sender ms j))) (others i n),
           rm_messages = map (\<lambda>j. snd (the (by_sender ms j))) (others i n)\<rparr>"
  have out: "RoundInput_output s = Ok ?out"
    using one_each_completes [OF assms] feed by auto
  have wf: "RoundMsgs_wf ?out n" using RoundInput_output_wf [OF s(1) out] s by simp
  have i: "i < n" using assms(1) by (simp add: RoundInput_new_ret)
  have "iter_including_me ?out mine ! unat (inc_sender m) = inc_msg m" if "m \<in> set ms" for m
  proof -
    have j: "inc_sender m \<noteq> i" "inc_sender m < n"
      using that assms(2) by (auto simp: one_each_def)
    then have "msg_index i (inc_sender m) < unat n - Suc 0"
      and "others i n ! msg_index i (inc_sender m) = inc_sender m"
      using i by (simp_all add: msg_index_less_iff nth_others)
    then show ?thesis
      using iter_including_me_nth [OF wf j(2), of mine] j by_sender_member [OF assms(2) that]
      by simp
  qed
  moreover have "iter_including_me ?out mine ! unat i = mine"
    using iter_including_me_nth [OF wf i, of mine] by simp
  ultimately show ?thesis
    using feed out including_me_views(1) [OF wf] length_iter_including_me [OF wf] by blast
qed

theorem round_completes_in_any_order_witness:
  "\<exists>s out. store_feed RoundInput_add_message sample_store
      [sample_incoming 7 2 (Broadcast True) 42, sample_incoming 8 0 (Broadcast False) 40] = (s, Ok ()) \<and>
     RoundInput_output s = Ok out \<and> iter_including_me out 41 ! 1 = 41 \<and>
     iter_including_me out 41 ! 2 = 42 \<and> iter_including_me out 41 ! 0 = (40 :: nat)"
proof -
  have "one_each 1 3 (Broadcast False)
      [sample_incoming 7 2 (Broadcast True) 42, sample_incoming 8 0 (Broadcast False) (40 :: nat)]"
    by (auto simp: one_each_def sample_incoming_def u16_less_3)
  from round_completes_in_any_order [OF sample_store_new this, of 41]
  show ?thesis by (auto simp: sample_incoming_def)
qed

text \<open>C37: The store produces an output exactly when a message of every other party was received. As
  long as it asks for more messages it hands itself back unchanged, and otherwise it has an output:
  both hold in every state that satisfies the invariant of the store.\<close>

theorem output_iff_all_received:
  assumes "RoundInput_wf self"
  shows "(is_ok (RoundInput_output self) \<longleftrightarrow>
            (\<forall>s. s \<noteq> ri_i self \<and> s < ri_n self \<longrightarrow> received_from self s \<noteq> None)) \<and>
         (RoundInput_wants_more self \<longleftrightarrow> RoundInput_output self = Err self)"
  using round_input.output_ok_iff [OF assms] round_input.output_err_iff [OF assms, of self]
  unfolding wants_more_iff [OF assms] by auto

theorem output_iff_all_received_witness:
  "\<not> is_ok (RoundInput_output sample_store) \<and> RoundInput_wants_more sample_store"
  using output_iff_all_received [OF sample_store_wf]
  by (auto simp: sample_store_def RoundInput_output_def RoundInput_wants_more_def)

text \<open>Nothing that was received can be overwritten. A second message of an expected type
  from a party that already sent one is rejected, the error names the ids of both messages,
  and the store is left as it was.\<close>

lemma no_overwrite:
  assumes "RoundInput_wf self" and "received_from self (inc_sender m) = Some (d, x)"
    and "is_expected_type_of_msg (ri_expected_msg_type self) (inc_msg_type m)"
  shows "RoundInput_add_message self m =
    (self, Err (AttemptToOverwriteReceivedMsg (d, inc_id m) (inc_sender m)))"
  using assms
  by (auto simp: RoundInput_add_message_def received_from_def Let_def
           split: option.splits if_splits)

text \<open>C27: The three ways to list the messages together with the party's own agree, none of them
  panics or drops a message, and the indexed iterator yields exactly the parties other than
  \<open>i\<close> in ascending order, each with the id and the message received from it.\<close>

theorem output_views_agree:
  assumes "RoundInput_wf self" and "RoundInput_output self = Ok r"
  shows "into_vec_including_me r x = Ret (iter_including_me r x) \<and>
         into_iter_including_me r x = iter_including_me r x \<and>
         into_vec_without_me r = RoundMsgs_iter r \<and>
         into_iter_indexed r = iter_indexed r \<and>
         into_iter_indexed r =
           map (\<lambda>s. (s, fst (the (received_from self s)), snd (the (received_from self s))))
             (others (ri_i self) (ri_n self))"
proof -
  have wf: "RoundMsgs_wf r (ri_n self)" "rm_i r = ri_i self"
    using RoundInput_output_wf [OF assms] by simp_all
  have "\<not> RoundInput_wants_more self"
    using assms round_input.output_ok_iff is_ok_iff by blast
  then have "rm_ids r = map (\<lambda>s. fst (the (received_from self s))) (others (ri_i self) (ri_n self))"
    "rm_messages r = map (\<lambda>s. snd (the (received_from self s))) (others (ri_i self) (ri_n self))"
    using RoundInput_output_ready [OF assms(1)] assms(2) by auto
  then have "into_iter_indexed r =
      map (\<lambda>s. (s, fst (the (received_from self s)), snd (the (received_from self s))))
             (others (ri_i self) (ri_n self))"
    using into_iter_indexed_eq [OF wf(1)] wf(2)
    by (simp only: zip_zip_same)
  then show ?thesis
    using including_me_views [OF wf(1), of x]
    by (simp add: into_vec_without_me_def RoundMsgs_iter_def into_iter_indexed_def iter_indexed_def)
qed

theorem output_views_agree_witness:
  "into_iter_indexed \<lparr>rm_i = 1, rm_ids = [8, 9], rm_messages = [4, 5 :: nat]\<rparr> =
     [(0, 8, 4), (2, 9, 5)] \<and>
   into_iter_including_me \<lparr>rm_i = 1, rm_ids = [8, 9], rm_messages = [4, 5 :: nat]\<rparr> 3 = [4, 3, 5]"
proof -
  let ?s = "sample_store\<lparr>ri_messages := [Some 4, Some 5], ri_messages_ids := [8, 9],
              ri_left_messages := 0\<rparr>"
  let ?r = "\<lparr>rm_i = 1, rm_ids = [8, 9], rm_messages = [4, 5 :: nat]\<rparr>"
  have "RoundInput_wf ?s" by (simp add: RoundInput_wf_def sample_store_def)
  moreover have "RoundInput_output ?s = Ok ?r"
    by (simp add: RoundInput_output_def sample_store_def)
  moreover have "received_from ?s 0 = Some (8, 4)" "received_from ?s 2 = Some (9, 5)"
    by (simp_all add: received_from_def sample_store_def msg_index_def get_slot_def)
  moreover have "others (ri_i ?s) (ri_n ?s) = [0, 2]" by (simp add: sample_store_def others_1_3)
  ultimately show ?thesis
    using output_views_agree [of ?s ?r 3] by (auto simp: iter_including_me_def)
qed

text \<open>C30: A message of an unexpected type is rejected before anything else is looked at, also
  when the party sees its own message: only own messages of an expected type are ignored.\<close>

theorem own_message_type_is_checked:
  assumes "inc_sender m = ri_i self"
  shows "RoundInput_add_message self m =
    (self, if is_expected_type_of_msg (ri_expected_msg_type self) (inc_msg_type m) then Ok ()
           else Err (MismatchedMessageType (inc_id m) (ri_expected_msg_type self)
                       (inc_msg_type m)))"
  using assms by (simp add: RoundInput_add_message_def)

theorem own_message_type_is_checked_witness:
  "RoundInput_add_message sample_store (sample_incoming 3 1 P2P 9) =
     (sample_store, Err (MismatchedMessageType 3 (Broadcast False) P2P))"
  using own_message_type_is_checked [of "sample_incoming 3 1 P2P 9" sample_store]
  by (simp add: sample_incoming_def sample_store_def)

end
