(* ===== verification/Rounds_Router.thy ===== *)
theory Rounds_Router
  imports Mpc_Traits Simple_Store
begin

section \<open>The rounds router\<close>

text \<open>
  \<open>round-based/src/mpc/party/router.rs\<close> and the error types of \<open>mpc/party/mod.rs\<close>.

  The router keeps boxed trait objects. A Rust store type \<open>R\<close> together with the implementation
  of \<open>RoundMsg<R::Msg>\<close> is the record \<open>round_type\<close>: the method dictionaries and the two
  \<open>TypeId\<close>s that the router's downcasts compare. All stores of one router share the type
  parameters of the model (a sum of the stores in play); what keeps them apart is the
  \<open>round_type\<close> of the box. A witness \<open>Round<R>\<close> carries no data: it is the type \<open>R\<close>.
\<close>

subsection \<open>Errors\<close>

text \<open>\<open>core::convert::Infallible\<close>, the empty enum; HOL types are inhabited, so the match with no
  arms is an unspecified value.\<close>

typedecl infallible

definition match_never :: "infallible \<Rightarrow> 'a" where
  "match_never e = undefined"

datatype unregistered_round = UnregisteredRound u16 bool

datatype api_misuse = ApiMisuse_UnregisteredRound unregistered_round

datatype improper_round_store = StoreDidntOutput

datatype take_output_error = AlreadyTaken | NotReady

datatype bug =
  RoundGoneButWitnessExists u16
| MessageFromAnotherRound u16 u16
| IncoherentState string string
| TakeRoundResult take_output_error
| MismatchedOutputType
| MismatchedErrorType

datatype router_reason =
  ApiMisuse api_misuse
| ImproperRoundStore improper_round_store
| Bug bug

datatype router_error = RouterError router_reason

datatype ('pe, 'io) complete_round_error =
  ProcessMsg 'pe
| Router router_error
| Io 'io
| UnexpectedEof

definition from_ApiMisuse :: "api_misuse \<Rightarrow> ('pe, 'io) complete_round_error" where
  "from_ApiMisuse err = Router (RouterError (ApiMisuse err))"

definition from_ImproperRoundStore :: "improper_round_store \<Rightarrow> ('pe, 'io) complete_round_error" where
  "from_ImproperRoundStore err = Router (RouterError (ImproperRoundStore err))"

definition from_Bug :: "bug \<Rightarrow> ('pe, 'io) complete_round_error" where
  "from_Bug err = Router (RouterError (Bug err))"

definition from_UnregisteredRound :: "unregistered_round \<Rightarrow> ('pe, 'io) complete_round_error" where
  "from_UnregisteredRound err = from_ApiMisuse (ApiMisuse_UnregisteredRound err)"

fun map_io_err ::
  "('io \<Rightarrow> 'e) \<Rightarrow> ('pe, 'io) complete_round_error \<Rightarrow> ('pe, 'e) complete_round_error" where
  "map_io_err f (ProcessMsg e) = ProcessMsg e"
| "map_io_err f (Router e) = Router e"
| "map_io_err f (Io e) = Io (f e)"
| "map_io_err f UnexpectedEof = UnexpectedEof"

fun map_process_err ::
  "('pe \<Rightarrow> 'e) \<Rightarrow> ('pe, 'io) complete_round_error \<Rightarrow> ('e, 'io) complete_round_error" where
  "map_process_err f (ProcessMsg e) = ProcessMsg (f e)"
| "map_process_err f (Router e) = Router e"
| "map_process_err f (Io e) = Io e"
| "map_process_err f UnexpectedEof = UnexpectedEof"

subsection \<open>Processing the messages of one round\<close>

datatype ('s, 'o, 'e) process_round_message_impl =
  InProgress 's
| Completed "('e, infallible) complete_round_error + 'o"
| Gone

record ('s, 'rm, 'm, 'o, 'e, 'u) round_type =
  rt_store :: "('s, 'rm, 'o, 'e, 'u) round_store"
  rt_msg :: "('rm, 'm) round_msg"
  rt_output_type :: nat
  rt_error_type :: nat

text \<open>\<open>Box<dyn Any>\<close> and its \<open>downcast\<close>.\<close>

record 'a dyn_any =
  any_type :: nat
  any_val :: 'a

definition downcast :: "nat \<Rightarrow> 'a dyn_any \<Rightarrow> 'a dyn_any + 'a" where
  "downcast T a = (if any_type a = T then Ok (any_val a) else Err a)"

definition ProcessRoundMessageImpl_new ::
  "('s, 'rm, 'm, 'o, 'e, 'u) round_type \<Rightarrow> 's \<Rightarrow> ('s, 'o, 'e) process_round_message_impl" where
  "ProcessRoundMessageImpl_new R store =
     (if rs_wants_more (rt_store R) store then InProgress store
      else Completed (map_err (\<lambda>_. from_ImproperRoundStore StoreDidntOutput)
                       (rs_output (rt_store R) store)))"

definition process_message_in_store ::
  "('m \<Rightarrow> u16) \<Rightarrow> ('s, 'rm, 'm, 'o, 'e, 'u) round_type \<Rightarrow> 's \<Rightarrow> 'm incoming
     \<Rightarrow> 's \<times> (('e, infallible) complete_round_error + unit)" where
  "process_message_in_store rnd R store m =
     (case Incoming_try_map (from_protocol_msg (rt_msg R)) m of
        Err p \<Rightarrow> (store, Err (from_Bug (MessageFromAnotherRound (ROUND (rt_msg R)) (rnd p))))
      | Ok m' \<Rightarrow>
          (let (store', r) = rs_add_message (rt_store R) store m'
           in (store', map_err ProcessMsg r)))"

definition process_message ::
  "('m \<Rightarrow> u16) \<Rightarrow> ('s, 'rm, 'm, 'o, 'e, 'u) round_type
     \<Rightarrow> ('s, 'o, 'e) process_round_message_impl \<Rightarrow> 'm incoming
     \<Rightarrow> ('s, 'o, 'e) process_round_message_impl" where
  "process_message rnd R self m =
     (case self of
        InProgress store \<Rightarrow>
          (case process_message_in_store rnd R store m of (store', r) \<Rightarrow>
             (case r of
                Ok _ \<Rightarrow>
                  if rs_wants_more (rt_store R) store' then InProgress store'
                  else
                    \<comment> \<open>\<open>mem::replace(self, Gone)\<close> hands the current state over\<close>
                    (case InProgress store' :: ('s, 'o, 'e) process_round_message_impl of
                       InProgress st \<Rightarrow>
                         (case rs_output (rt_store R) st of
                            Ok out \<Rightarrow> Completed (Ok out)
                          | Err _ \<Rightarrow>
                              Completed (Err (from_ImproperRoundStore StoreDidntOutput)))
                     | _ \<Rightarrow>
                         Completed (Err (from_Bug (IncoherentState ''InProgress''
                           ''we checked at beginning of the function that `state` is InProgress''))))
              | Err e \<Rightarrow> Completed (Err e)))
      | _ \<Rightarrow> self)"

datatype needs_more = Yes | No

fun needs_more_messages :: "('s, 'o, 'e) process_round_message_impl \<Rightarrow> needs_more" where
  "needs_more_messages (InProgress _) = Yes"
| "needs_more_messages _ = No"

definition NeedsMoreMessages_yes :: "needs_more \<Rightarrow> bool" where
  "NeedsMoreMessages_yes x = (case x of Yes \<Rightarrow> True | No \<Rightarrow> False)"

definition NeedsMoreMessages_no :: "needs_more \<Rightarrow> bool" where
  "NeedsMoreMessages_no x = (case x of No \<Rightarrow> True | Yes \<Rightarrow> False)"

fun take_output ::
  "('s, 'rm, 'm, 'o, 'e, 'u) round_type \<Rightarrow> ('s, 'o, 'e) process_round_message_impl
     \<Rightarrow> ('s, 'o, 'e) process_round_message_impl \<times>
        (take_output_error +
          (('e, infallible) complete_round_error dyn_any + 'o dyn_any))" where
  "take_output R (InProgress s) = (InProgress s, Err NotReady)"
| "take_output R Gone = (Gone, Err AlreadyTaken)"
| "take_output R (Completed (Ok out)) =
     (Gone, Ok (Ok \<lparr>any_type = rt_output_type R, any_val = out\<rparr>))"
| "take_output R (Completed (Err e)) =
     (Gone, Ok (Err \<lparr>any_type = rt_error_type R, any_val = e\<rparr>))"

subsection \<open>The router\<close>

record ('s, 'rm, 'm, 'o, 'e, 'u) boxed_round =
  br_type :: "('s, 'rm, 'm, 'o, 'e, 'u) round_type"
  br_state :: "('s, 'o, 'e) process_round_message_impl"

record ('s, 'rm, 'm, 'o, 'e, 'u) rounds_router =
  rounds :: "u16 \<rightharpoonup> ('s, 'rm, 'm, 'o, 'e, 'u) boxed_round option"

definition RoundsRouter_new :: "('s, 'rm, 'm, 'o, 'e, 'u) rounds_router" where
  "RoundsRouter_new = \<lparr>rounds = Map.empty\<rparr>"

definition add_round ::
  "('s, 'rm, 'm, 'o, 'e, 'u) rounds_router \<Rightarrow> ('s, 'rm, 'm, 'o, 'e, 'u) round_type \<Rightarrow> 's
     \<Rightarrow> (('s, 'rm, 'm, 'o, 'e, 'u) rounds_router \<times> ('s, 'rm, 'm, 'o, 'e, 'u) round_type) or_panic"
where
  "add_round self R message_store =
     (let k = ROUND (rt_msg R);
          overridden_round = rounds self k;
          self' = self\<lparr>rounds := (rounds self)(k \<mapsto>
             Some \<lparr>br_type = R, br_state = ProcessRoundMessageImpl_new R message_store\<rparr>)\<rparr>
      in if overridden_round \<noteq> None then Panic else Ret (self', R))"

definition received_msg ::
  "('m \<Rightarrow> u16) \<Rightarrow> ('s, 'rm, 'm, 'o, 'e, 'u) rounds_router \<Rightarrow> 'm incoming
     \<Rightarrow> ('s, 'rm, 'm, 'o, 'e, 'u) rounds_router \<times> (unregistered_round + unit)" where
  "received_msg rnd self m =
     (let k = rnd (inc_msg m) in
      case rounds self k of
        Some (Some b) \<Rightarrow>
          if NeedsMoreMessages_no (needs_more_messages (br_state b)) then (self, Ok ())
          else (self\<lparr>rounds := (rounds self)(k \<mapsto>
                  Some (b\<lparr>br_state := process_message rnd (br_type b) (br_state b) m\<rparr>))\<rparr>, Ok ())
      | Some None \<Rightarrow> (self, Ok ())
      | None \<Rightarrow> (self, Err (UnregisteredRound k False)))"

definition retrieve_round_output ::
  "('s, 'rm, 'm, 'o, 'e, 'u) round_type \<Rightarrow> ('s, 'rm, 'm, 'o, 'e, 'u) boxed_round
     \<Rightarrow> ('s, 'rm, 'm, 'o, 'e, 'u) boxed_round \<times>
        (('e, infallible) complete_round_error + 'o)" where
  "retrieve_round_output R b =
     (let (st, taken) = take_output (br_type b) (br_state b) in
      (b\<lparr>br_state := st\<rparr>,
       case taken of
         Ok (Ok any) \<Rightarrow>
           (case downcast (rt_output_type R) any of
              Ok out \<Rightarrow> Ok out | Err _ \<Rightarrow> Err (from_Bug MismatchedOutputType))
       | Ok (Err any) \<Rightarrow>
           (case downcast (rt_error_type R) any of
              Ok e \<Rightarrow> Err e | Err _ \<Rightarrow> Err (from_Bug MismatchedErrorType))
       | Err err \<Rightarrow> Err (from_Bug (TakeRoundResult err))))"

definition complete_round ::
  "('s, 'rm, 'm, 'o, 'e, 'u) rounds_router \<Rightarrow> ('s, 'rm, 'm, 'o, 'e, 'u) round_type
     \<Rightarrow> ('s, 'rm, 'm, 'o, 'e, 'u) rounds_router \<times>
        (('s, 'rm, 'm, 'o, 'e, 'u) round_type +
          (('e, infallible) complete_round_error + 'o))" where
  "complete_round self R =
     (let k = ROUND (rt_msg R) in
      case rounds self k of
        Some (Some b) \<Rightarrow>
          if NeedsMoreMessages_yes (needs_more_messages (br_state b)) then (self, Err R)
          else (let (b', res) = retrieve_round_output R b
                in (self\<lparr>rounds := (rounds self)(k \<mapsto> Some b')\<rparr>, Ok res))
      | Some None \<Rightarrow> (self, Ok (Err (from_Bug (RoundGoneButWitnessExists k))))
      | None \<Rightarrow> (self, Ok (Err (from_UnregisteredRound (UnregisteredRound k True)))))"

lemmas router_op_defs [router_defs] =
  ProcessRoundMessageImpl_new_def process_message_in_store_def process_message_def
  NeedsMoreMessages_yes_def NeedsMoreMessages_no_def RoundsRouter_new_def add_round_def
  received_msg_def retrieve_round_output_def complete_round_def downcast_def
  from_ApiMisuse_def from_ImproperRoundStore_def from_Bug_def from_UnregisteredRound_def


subsection \<open>Routing\<close>

lemma needs_more_simps [simp]:
  "NeedsMoreMessages_yes (needs_more_messages st) \<longleftrightarrow> (\<exists>s. st = InProgress s)"
  "NeedsMoreMessages_no (needs_more_messages st) \<longleftrightarrow> (\<nexists>s. st = InProgress s)"
  by (cases st; simp add: NeedsMoreMessages_yes_def NeedsMoreMessages_no_def)+

lemma process_message_done [simp]:
  "process_message rnd R (Completed r) m = Completed r"
  "process_message rnd R Gone m = Gone"
  by (simp_all add: process_message_def)

lemma process_messages_done [simp]:
  "foldl (process_message rnd R) (Completed r) ms = Completed r"
  "foldl (process_message rnd R) Gone ms = Gone"
  by (induction ms) simp_all

definition box_receive ::
  "('m \<Rightarrow> u16) \<Rightarrow> ('s, 'rm, 'm, 'o, 'e, 'u) boxed_round \<Rightarrow> 'm incoming
     \<Rightarrow> ('s, 'rm, 'm, 'o, 'e, 'u) boxed_round" where
  "box_receive rnd b m = b\<lparr>br_state := process_message rnd (br_type b) (br_state b) m\<rparr>"

lemma box_receive_all:
  "foldl (box_receive rnd) b ms =
     b\<lparr>br_state := foldl (process_message rnd (br_type b)) (br_state b) ms\<rparr>"
  by (induction ms arbitrary: b) (simp_all add: box_receive_def)

lemma box_receive_idle: "\<nexists>s. br_state b = InProgress s \<Longrightarrow> box_receive rnd b m = b"
  by (cases "br_state b") (auto simp: box_receive_def)

lemma received_msg_rounds:
  "rounds (fst (received_msg rnd rt m)) k =
     (if k = rnd (inc_msg m) then map_option (map_option (\<lambda>b. box_receive rnd b m)) (rounds rt k)
      else rounds rt k)"
  by (auto simp: received_msg_def Let_def box_receive_def [symmetric] box_receive_idle
           split: option.splits)

lemma received_msg_result:
  "snd (received_msg rnd rt m) =
     (if rounds rt (rnd (inc_msg m)) = None then Err (UnregisteredRound (rnd (inc_msg m)) False)
      else Ok ())"
  by (auto simp: received_msg_def Let_def split: option.splits)

lemma dom_received_msg [simp]: "dom (rounds (fst (received_msg rnd rt m))) = dom (rounds rt)"
  by (auto simp: received_msg_rounds split: if_splits)

text \<open>Routing a whole sequence of messages, errors ignored as the caller may.\<close>

definition received_all ::
  "('m \<Rightarrow> u16) \<Rightarrow> ('s, 'rm, 'm, 'o, 'e, 'u) rounds_router \<Rightarrow> 'm incoming list
     \<Rightarrow> ('s, 'rm, 'm, 'o, 'e, 'u) rounds_router" where
  "received_all rnd rt ms = foldl (\<lambda>rt m. fst (received_msg rnd rt m)) rt ms"

lemma received_all_rounds:
  "rounds (received_all rnd rt ms) k =
     map_option (map_option (\<lambda>b. foldl (box_receive rnd) b
         (filter (\<lambda>m. rnd (inc_msg m) = k) ms))) (rounds rt k)"
proof (induction ms arbitrary: rt)
  case Nil
  show ?case by (simp add: received_all_def option.map_ident map_option.id [unfolded id_def])
next
  case (Cons m ms)
  then show ?case
    by (simp add: received_all_def received_msg_rounds option.map_comp comp_def)
qed

subsection \<open>A round as its store sees it\<close>

text \<open>
  For the messages of its own round, processing is the store's own \<open>add_message\<close> followed by
  the check whether the round is complete.
\<close>

definition store_step ::
  "('s, 'rm, 'o, 'e, 'u) round_store \<Rightarrow> ('s, 'o, 'e) process_round_message_impl
     \<Rightarrow> 'rm incoming \<Rightarrow> ('s, 'o, 'e) process_round_message_impl" where
  "store_step S st m =
     (case st of
        InProgress s \<Rightarrow>
          (case rs_add_message S s m of (s', r) \<Rightarrow>
             (case r of
                Err e \<Rightarrow> Completed (Err (ProcessMsg e))
              | Ok _ \<Rightarrow>
                  if rs_wants_more S s' then InProgress s'
                  else Completed (map_err (\<lambda>_. from_ImproperRoundStore StoreDidntOutput)
                                   (rs_output S s'))))
      | _ \<Rightarrow> st)"

lemma process_message_store_step:
  assumes "from_protocol_msg (rt_msg R) (inc_msg m) = Ok x"
  shows "process_message rnd R st m = store_step (rt_store R) st (Incoming_map (\<lambda>_. x) m)"
proof -
  have "Incoming_try_map (from_protocol_msg (rt_msg R)) m = Ok (Incoming_map (\<lambda>_. x) m)"
    using assms by (simp add: Incoming_try_map_Ok)
  then show ?thesis
    by (auto simp: process_message_def process_message_in_store_def store_step_def
             split: process_round_message_impl.splits prod.splits sum.splits)
qed

definition extract_msg :: "('rm, 'm) round_msg \<Rightarrow> 'm incoming \<Rightarrow> 'rm incoming" where
  "extract_msg M m =
     Incoming_map (\<lambda>p. case from_protocol_msg M p of Ok x \<Rightarrow> x | Err _ \<Rightarrow> undefined) m"

lemma extract_msg_sel [simp]:
  "inc_id (extract_msg M m) = inc_id m" "inc_sender (extract_msg M m) = inc_sender m"
  "inc_msg_type (extract_msg M m) = inc_msg_type m"
  by (simp_all add: extract_msg_def)

lemma process_messages_store_steps:
  assumes "lawful_round_msg valid rnd (rt_msg R)"
    and "list_all (\<lambda>m. valid (inc_msg m) \<and> rnd (inc_msg m) = ROUND (rt_msg R)) ms"
  shows "foldl (process_message rnd R) st ms =
         foldl (store_step (rt_store R)) st (map (extract_msg (rt_msg R)) ms)"
  using assms(2)
proof (induction ms arbitrary: st)
  case (Cons m ms)
  obtain x where x: "from_protocol_msg (rt_msg R) (inc_msg m) = Ok x"
    using lawful_msg.from_toE [of valid rnd "rt_msg R" "inc_msg m"] assms(1) Cons.prems
    unfolding lawful_round_msg_def by auto
  then have "extract_msg (rt_msg R) m = Incoming_map (\<lambda>_. x) m"
    by (simp add: extract_msg_def Incoming_map_def)
  then show ?case using Cons x by (simp add: process_message_store_step)
qed simp

lemma store_steps_done [simp]:
  "foldl (store_step S) (Completed r) ms = Completed r"
  "foldl (store_step S) Gone ms = Gone"
  by (induction ms) (simp_all add: store_step_def)

lemma store_steps_complete:
  assumes "store_feed (rs_add_message S) s ms = (s', Ok ())" and "ms \<noteq> []"
    and "\<And>k. k < length ms \<Longrightarrow> rs_wants_more S (fst (store_feed (rs_add_message S) s (take k ms)))"
    and "\<not> rs_wants_more S s'" and "rs_output S s' = Ok out"
  shows "foldl (store_step S) (InProgress s) (ms @ rest) = Completed (Ok out)"
  using assms
proof (induction ms arbitrary: s)
  case (Cons m ms)
  obtain s1 where s1: "rs_add_message S s m = (s1, Ok ())"
    and feed: "store_feed (rs_add_message S) s1 ms = (s', Ok ())"
    using Cons.prems(1) by (auto split: prod.splits sum.splits)
  show ?case
  proof (cases "ms = []")
    case True
    then have "store_step S (InProgress s) m = Completed (Ok out)"
      using s1 feed Cons.prems(4,5) by (simp add: store_step_def)
    with True show ?thesis by simp
  next
    case False
    have want: "rs_wants_more S (fst (store_feed (rs_add_message S) s1 (take k ms)))"
      if "k < length ms" for k
      using Cons.prems(3) [of "Suc k"] that s1 by simp
    then have "rs_wants_more S s1" using False by force
    moreover have "foldl (store_step S) (InProgress s1) (ms @ rest) = Completed (Ok out)"
      using Cons.IH [OF feed False want Cons.prems(4,5)] .
    moreover have "store_step S (InProgress s) m = InProgress s1"
      using s1 calculation(1) by (simp add: store_step_def)
    ultimately show ?thesis by simp
  qed
qed simp

text \<open>A \<open>RoundInput\<close> that is handed one message of each other party completes with these.\<close>

lemma round_input_round_completes:
  assumes new: "RoundInput_new i n t = Ret s0" and each: "one_each i n t ms"
  shows "foldl (store_step RoundInput_store) (InProgress s0) (ms @ rest) =
         Completed (Ok (round_output i n ms))"
proof -
  let ?S = "RoundInput_store :: ('a round_input, 'a, 'a round_msgs, round_input_error, 'u) round_store"
  have i: "2 \<le> n" "i < n" using new by (simp_all add: RoundInput_new_ret)
  have ne: "ms \<noteq> []"
  proof
    assume "ms = []"
    moreover have "others i n \<noteq> []"
      using i(1) by (simp add: others_def unat_le_iff)
    ultimately show False
      using each set_others [OF i(2)] by (auto simp: one_each_def simp flip: set_empty)
  qed
  obtain s where s: "store_feed RoundInput_add_message s0 ms = (s, Ok ())"
    "RoundInput_output s = Ok (round_output i n ms)" "RoundInput_wf s"
    using one_each_completes [OF assms] feed_one_each [OF assms]
    unfolding round_output_def by (metis Pair_inject)
  show ?thesis
    using s ne round_input.output_ok_iff [OF s(3)] prefix_wants_more [OF assms]
    by (intro store_steps_complete [where s' = s]) (simp_all add: RoundInput_store_def)
qed


subsection \<open>Reachable routers\<close>

text \<open>
  What a correct client does with a router: it registers rounds whose stores and messages keep
  their contracts, hands over received messages that are valid protocol messages, and
  completes a round with the witness it got for it, at most once (\<open>complete_round\<close> consumes
  the witness unless it gives it back). \<open>live\<close> holds the witnesses not yet consumed.
\<close>

inductive router_reach ::
  "('m \<Rightarrow> bool) \<Rightarrow> ('m \<Rightarrow> u16) \<Rightarrow> ('s, 'rm, 'm, 'o, 'e, 'u) rounds_router
     \<Rightarrow> (u16 \<rightharpoonup> ('s, 'rm, 'm, 'o, 'e, 'u) round_type) \<Rightarrow> bool" for valid rnd where
  start: "router_reach valid rnd RoundsRouter_new Map.empty"
| add: "router_reach valid rnd rt live \<Longrightarrow> lawful_round_msg valid rnd (rt_msg R) \<Longrightarrow>
    proper_round_store (rt_store R) I \<Longrightarrow> I s \<Longrightarrow> add_round rt R s = Ret (rt', w) \<Longrightarrow>
    router_reach valid rnd rt' (live(ROUND (rt_msg w) \<mapsto> w))"
| recv: "router_reach valid rnd rt live \<Longrightarrow> valid (inc_msg m) \<Longrightarrow>
    router_reach valid rnd (fst (received_msg rnd rt m)) live"
| wait: "router_reach valid rnd rt live \<Longrightarrow> live (ROUND (rt_msg R)) = Some R \<Longrightarrow>
    complete_round rt R = (rt', Err w) \<Longrightarrow> router_reach valid rnd rt' live"
| finish: "router_reach valid rnd rt live \<Longrightarrow> live (ROUND (rt_msg R)) = Some R \<Longrightarrow>
    complete_round rt R = (rt', Ok res) \<Longrightarrow>
    router_reach valid rnd rt' (live(ROUND (rt_msg R) := None))"

definition healthy ::
  "('s, 'rm, 'm, 'o, 'e, 'u) round_type \<Rightarrow> ('s, 'o, 'e) process_round_message_impl \<Rightarrow> bool" where
  "healthy R st \<longleftrightarrow>
     (case st of
        InProgress s \<Rightarrow> \<exists>I. proper_round_store (rt_store R) I \<and> I s
      | Completed (Err e) \<Rightarrow> \<exists>pe. e = ProcessMsg pe
      | _ \<Rightarrow> True)"

fun entry_ok ::
  "('m \<Rightarrow> bool) \<Rightarrow> ('m \<Rightarrow> u16) \<Rightarrow> u16 \<Rightarrow> ('s, 'rm, 'm, 'o, 'e, 'u) boxed_round option option
     \<Rightarrow> ('s, 'rm, 'm, 'o, 'e, 'u) round_type option \<Rightarrow> bool" where
  "entry_ok valid rnd k None w \<longleftrightarrow> w = None"
| "entry_ok valid rnd k (Some None) w \<longleftrightarrow> False"
| "entry_ok valid rnd k (Some (Some b)) w \<longleftrightarrow>
     ROUND (rt_msg (br_type b)) = k \<and> lawful_round_msg valid rnd (rt_msg (br_type b)) \<and>
     healthy (br_type b) (br_state b) \<and>
     (\<forall>R. w = Some R \<longrightarrow> R = br_type b \<and> br_state b \<noteq> Gone)"

definition router_inv ::
  "('m \<Rightarrow> bool) \<Rightarrow> ('m \<Rightarrow> u16) \<Rightarrow> ('s, 'rm, 'm, 'o, 'e, 'u) rounds_router
     \<Rightarrow> (u16 \<rightharpoonup> ('s, 'rm, 'm, 'o, 'e, 'u) round_type) \<Rightarrow> bool" where
  "router_inv valid rnd rt live \<longleftrightarrow> (\<forall>k. entry_ok valid rnd k (rounds rt k) (live k))"

lemma router_invD: "router_inv valid rnd rt live \<Longrightarrow> entry_ok valid rnd k (rounds rt k) (live k)"
  by (simp add: router_inv_def)

lemma new_healthy:
  assumes "proper_round_store (rt_store R) I" and "I s"
  shows "healthy R (ProcessRoundMessageImpl_new R s)" "ProcessRoundMessageImpl_new R s \<noteq> Gone"
proof -
  note P = assms(1) [unfolded proper_round_store_def]
  show "healthy R (ProcessRoundMessageImpl_new R s)" "ProcessRoundMessageImpl_new R s \<noteq> Gone"
    using assms proper_store.output_ready [OF P assms(2)]
    by (auto simp: ProcessRoundMessageImpl_new_def healthy_def is_ok_iff)
qed

lemma store_step_healthy:
  assumes "healthy R st"
  shows "healthy R (store_step (rt_store R) st m)"
proof (cases st)
  case (InProgress s)
  then obtain I where P: "proper_round_store (rt_store R) I" and I: "I s"
    using assms by (auto simp: healthy_def)
  note P' = P [unfolded proper_round_store_def]
  obtain s' r where add: "rs_add_message (rt_store R) s m = (s', r)" by fastforce
  show ?thesis
  proof (cases r)
    case (Inl e)
    then show ?thesis using InProgress add by (simp add: store_step_def healthy_def)
  next
    case (Inr u)
    then have I': "I s'" using proper_store.inv_add [OF P' I] add by simp
    then show ?thesis
      using InProgress add Inr P proper_store.output_ready [OF P' I']
      by (auto simp: store_step_def healthy_def is_ok_iff)
  qed
qed (use assms in \<open>simp_all add: store_step_def\<close>)

lemma process_message_healthy:
  assumes "healthy R st" and "lawful_round_msg valid rnd (rt_msg R)"
    and "valid (inc_msg m)" and "rnd (inc_msg m) = ROUND (rt_msg R)"
  shows "healthy R (process_message rnd R st m)"
proof -
  obtain x where "from_protocol_msg (rt_msg R) (inc_msg m) = Ok x"
    using lawful_msg.from_toE [of valid rnd "rt_msg R" "inc_msg m"] assms(2-4)
    unfolding lawful_round_msg_def by auto
  then show ?thesis
    using assms(1) by (simp add: process_message_store_step store_step_healthy)
qed

lemma process_message_not_gone: "process_message rnd R st m = Gone \<longleftrightarrow> st = Gone"
  by (auto simp: process_message_def split: process_round_message_impl.splits prod.splits sum.splits)

lemma entry_ok_receive:
  assumes "entry_ok valid rnd k e w" and "valid (inc_msg m)" and "k = rnd (inc_msg m)"
  shows "entry_ok valid rnd k (map_option (map_option (\<lambda>b. box_receive rnd b m)) e) w"
  using assms
  by (induction valid rnd k e w rule: entry_ok.induct)
    (auto simp: box_receive_def process_message_healthy process_message_not_gone)

lemma router_inv_entry:
  assumes "router_inv valid rnd rt live" and "live k = Some R"
  obtains st where "rounds rt k = Some (Some \<lparr>br_type = R, br_state = st\<rparr>)"
    and "ROUND (rt_msg R) = k" "healthy R st" "st \<noteq> Gone" "lawful_round_msg valid rnd (rt_msg R)"
proof -
  have ok: "entry_ok valid rnd k (rounds rt k) (Some R)"
    using router_invD [OF assms(1), of k] assms(2) by simp
  then obtain b where b: "rounds rt k = Some (Some b)"
    by (cases "rounds rt k" rule: option.exhaust; cases "the (rounds rt k)") auto
  then show thesis using that [of "br_state b"] ok by (cases b) simp
qed

lemma router_inv_upd:
  assumes "router_inv valid rnd rt live" and "entry_ok valid rnd k e w"
  shows "router_inv valid rnd (rt\<lparr>rounds := (rounds rt)(k := e)\<rparr>) (live(k := w))"
  using assms by (auto simp: router_inv_def)

lemma complete_round_live:
  assumes "router_inv valid rnd rt live" and "live (ROUND (rt_msg R)) = Some R"
  obtains (waiting) "complete_round rt R = (rt, Err R)"
  | (finished) res where "complete_round rt R =
        (rt\<lparr>rounds := (rounds rt)(ROUND (rt_msg R) \<mapsto>
            Some \<lparr>br_type = R, br_state = Gone\<rparr>)\<rparr>, Ok res)"
      and "rounds rt (ROUND (rt_msg R)) = Some (Some \<lparr>br_type = R, br_state = Completed res\<rparr>)"
      and "\<And>e. res = Err e \<Longrightarrow> \<exists>pe. e = ProcessMsg pe"
proof -
  obtain st where e: "rounds rt (ROUND (rt_msg R)) = Some (Some \<lparr>br_type = R, br_state = st\<rparr>)"
    and h: "healthy R st" "st \<noteq> Gone"
    using router_inv_entry [OF assms] .
  show thesis
  proof (cases st)
    case (InProgress s)
    then have "complete_round rt R = (rt, Err R)"
      using e by (simp add: complete_round_def del: needs_more_messages.simps)
    then show ?thesis by (rule waiting)
  next
    case (Completed res)
    then have "\<exists>pe. e = ProcessMsg pe" if "res = Err e" for e
      using h that by (simp add: healthy_def)
    moreover have "complete_round rt R = (rt\<lparr>rounds := (rounds rt)(ROUND (rt_msg R) \<mapsto>
            Some \<lparr>br_type = R, br_state = Gone\<rparr>)\<rparr>, Ok res)"
      using e Completed
      by (cases res) (simp_all add: complete_round_def retrieve_round_output_def downcast_def
                        del: needs_more_messages.simps)
    ultimately show ?thesis using e Completed finished by blast
  qed (use h in simp)
qed

lemma router_reach_inv: "router_reach valid rnd rt live \<Longrightarrow> router_inv valid rnd rt live"
proof (induction rule: router_reach.induct)
  case start
  show ?case by (simp add: router_inv_def RoundsRouter_new_def)
next
  case (add rt live R I s rt' w)
  let ?b = "\<lparr>br_type = R, br_state = ProcessRoundMessageImpl_new R s\<rparr>"
  have "w = R" and "rt' = rt\<lparr>rounds := (rounds rt)(ROUND (rt_msg R) \<mapsto> Some ?b)\<rparr>"
    using add.hyps by (auto simp: add_round_def Let_def split: if_splits)
  moreover have "entry_ok valid rnd (ROUND (rt_msg R)) (Some (Some ?b)) (Some R)"
    using add.hyps(2) new_healthy [OF add.hyps(3,4)] by simp
  ultimately show ?case using router_inv_upd [OF add.IH] by blast
next
  case (recv rt live m)
  have "entry_ok valid rnd k (rounds (fst (received_msg rnd rt m)) k) (live k)" for k
    using router_invD [OF recv.IH, of k] recv.hyps(2)
    unfolding received_msg_rounds by (auto intro: entry_ok_receive)
  then show ?case by (simp add: router_inv_def)
next
  case (wait rt live R rt' w)
  show ?case
    using complete_round_live [OF wait.IH wait.hyps(2)] wait.IH wait.hyps(3) by fastforce
next
  case (finish rt live R rt' res)
  have law: "lawful_round_msg valid rnd (rt_msg R)"
    using router_inv_entry [OF finish.IH finish.hyps(2)] by blast
  show ?case
  proof (cases rule: complete_round_live [OF finish.IH finish.hyps(2), case_names waiting finished])
    case waiting
    then show ?thesis using finish.hyps(3) by simp
  next
    case (finished res')
    let ?b = "\<lparr>br_type = R, br_state = Gone\<rparr>"
    have "rt' = rt\<lparr>rounds := (rounds rt)(ROUND (rt_msg R) \<mapsto> Some ?b)\<rparr>"
      using finished finish.hyps(3) by simp
    moreover have "entry_ok valid rnd (ROUND (rt_msg R)) (Some (Some ?b)) None"
      using law by (simp add: healthy_def)
    ultimately show ?thesis using router_inv_upd [OF finish.IH] by blast
  qed
qed


lemma round_completes_through_router:
  assumes entry: "rounds rt (ROUND (rt_msg R)) = Some (Some \<lparr>br_type = R, br_state = InProgress s0\<rparr>)"
    and store: "rt_store R = RoundInput_store" and law: "lawful_round_msg valid rnd (rt_msg R)"
    and new: "RoundInput_new i n t = Ret s0" and each: "one_each i n t pre"
    and ms: "map (extract_msg (rt_msg R))
               (filter (\<lambda>m. rnd (inc_msg m) = ROUND (rt_msg R)) ms) = pre @ rest"
    and val: "\<forall>m \<in> set ms. rnd (inc_msg m) = ROUND (rt_msg R) \<longrightarrow> valid (inc_msg m)"
  shows "rounds (received_all rnd rt ms) (ROUND (rt_msg R)) =
         Some (Some \<lparr>br_type = R, br_state = Completed (Ok (round_output i n pre))\<rparr>)"
proof -
  let ?ms = "filter (\<lambda>m. rnd (inc_msg m) = ROUND (rt_msg R)) ms"
  have "list_all (\<lambda>m. valid (inc_msg m) \<and> rnd (inc_msg m) = ROUND (rt_msg R)) ?ms"
    using val by (auto simp: list_all_iff)
  then have "foldl (process_message rnd R) (InProgress s0) ?ms = Completed (Ok (round_output i n pre))"
    using process_messages_store_steps [OF law, of ?ms] round_input_round_completes [OF new each]
    by (simp add: ms store)
  then show ?thesis by (simp add: received_all_rounds entry box_receive_all)
qed

subsection \<open>The types behind \<open>dyn Any\<close>\<close>

text \<open>
  Any use of a router: rounds of any types are registered - their stores and message types need not
  keep any contract -, any messages arrive, and rounds are completed with any witnesses, also those
  of other routers. \<open>W\<close> are the witnesses that this router gave out.
\<close>

inductive router_use ::
  "('m \<Rightarrow> u16) \<Rightarrow> ('s, 'rm, 'm, 'o, 'e, 'u) rounds_router
     \<Rightarrow> ('s, 'rm, 'm, 'o, 'e, 'u) round_type set \<Rightarrow> bool" for rnd where
  use_start: "router_use rnd RoundsRouter_new {}"
| use_add: "router_use rnd rt W \<Longrightarrow> add_round rt R s = Ret (rt', w) \<Longrightarrow> router_use rnd rt' (insert w W)"
| use_recv: "router_use rnd rt W \<Longrightarrow> router_use rnd (fst (received_msg rnd rt m)) W"
| use_complete: "router_use rnd rt W \<Longrightarrow> router_use rnd (fst (complete_round rt R)) W"

text \<open>A result that \<open>retrieve_round_output\<close> made up, which no round ends with.\<close>

definition mismatched :: "('e, infallible) complete_round_error + 'o \<Rightarrow> bool" where
  "mismatched r \<longleftrightarrow> r = Err (from_Bug MismatchedOutputType) \<or> r = Err (from_Bug MismatchedErrorType)"

definition entry_typed :: "u16 \<Rightarrow> ('s, 'rm, 'm, 'o, 'e, 'u) boxed_round \<Rightarrow> bool" where
  "entry_typed k b \<longleftrightarrow> ROUND (rt_msg (br_type b)) = k \<and> (\<forall>r. br_state b = Completed r \<longrightarrow> \<not> mismatched r)"

definition well_typed :: "('s, 'rm, 'm, 'o, 'e, 'u) rounds_router \<Rightarrow> ('s, 'rm, 'm, 'o, 'e, 'u) round_type set \<Rightarrow> bool"
where
  "well_typed rt W \<longleftrightarrow> (\<forall>k b. rounds rt k = Some (Some b) \<longrightarrow> entry_typed k b) \<and>
     (\<forall>R \<in> W. \<exists>b. rounds rt (ROUND (rt_msg R)) = Some (Some b) \<and> br_type b = R)"

lemma well_typed_upd:
  assumes "well_typed rt W" and "entry_typed k b"
    and "\<forall>R \<in> W. ROUND (rt_msg R) = k \<longrightarrow> br_type b = R"
  shows "well_typed (rt\<lparr>rounds := (rounds rt)(k \<mapsto> Some b)\<rparr>) W"
  using assms unfolding well_typed_def by simp

lemma not_mismatched [simp]:
  "\<not> mismatched (Ok out)" "\<not> mismatched (Err (ProcessMsg e))" "\<not> mismatched (Err (from_ImproperRoundStore x))"
  "\<not> mismatched (Err (from_Bug (MessageFromAnotherRound a c)))"
  by (simp_all add: mismatched_def from_ImproperRoundStore_def from_Bug_def)

lemma process_message_typed:
  assumes "\<forall>r. st = Completed r \<longrightarrow> \<not> mismatched r" and "process_message rnd R st m = Completed r"
  shows "\<not> mismatched r"
proof (cases st)
  case (InProgress s)
  then show ?thesis
    using assms(2)
    by (auto simp: process_message_def process_message_in_store_def Let_def
             split: prod.splits sum.splits if_splits)
qed (use assms in auto)

lemma new_typed: "ProcessRoundMessageImpl_new R s = Completed r \<Longrightarrow> \<not> mismatched r"
  by (cases "rs_output (rt_store R) s") (auto simp: ProcessRoundMessageImpl_new_def split: if_splits)

lemma received_typed:
  assumes inv: "well_typed rt W"
  shows "well_typed (fst (received_msg rnd rt m)) W"
proof (cases "rounds rt (rnd (inc_msg m))")
  case (Some x)
  show ?thesis
  proof (cases x)
    case 2: (Some b)
    let ?b = "b\<lparr>br_state := process_message rnd (br_type b) (br_state b) m\<rparr>"
    have b: "entry_typed (rnd (inc_msg m)) b" using inv Some 2 by (simp add: well_typed_def)
    have "\<not> mismatched r" if "process_message rnd (br_type b) (br_state b) m = Completed r" for r
      by (rule process_message_typed [OF _ that]) (use b in \<open>simp add: entry_typed_def\<close>)
    then have "entry_typed (rnd (inc_msg m)) ?b" using b by (auto simp: entry_typed_def)
    moreover have "\<forall>R \<in> W. ROUND (rt_msg R) = rnd (inc_msg m) \<longrightarrow> br_type ?b = R"
      using inv Some 2 unfolding well_typed_def by fastforce
    ultimately have "well_typed (rt\<lparr>rounds := (rounds rt)(rnd (inc_msg m) \<mapsto> Some ?b)\<rparr>) W"
      by (rule well_typed_upd [OF inv])
    moreover have "fst (received_msg rnd rt m) \<in> {rt, rt\<lparr>rounds := (rounds rt)(rnd (inc_msg m) \<mapsto> Some ?b)\<rparr>}"
      using Some 2 by (simp add: received_msg_def Let_def del: needs_more_messages.simps)
    ultimately show ?thesis using inv by auto
  qed (use Some inv in \<open>simp add: received_msg_def Let_def\<close>)
qed (use inv in \<open>simp add: received_msg_def Let_def\<close>)

text \<open>Completing a round that is not in progress, on any router.\<close>

lemma complete_round_done:
  assumes b: "rounds rt (ROUND (rt_msg R)) = Some (Some b)" and over: "\<nexists>s. br_state b = InProgress s"
  shows "fst (complete_round rt R) = rt\<lparr>rounds := (rounds rt)(ROUND (rt_msg R) \<mapsto> Some (b\<lparr>br_state := Gone\<rparr>))\<rparr>"
    and "snd (complete_round rt R) = Ok (snd (retrieve_round_output R b))"
proof -
  have "fst (retrieve_round_output R b) = b\<lparr>br_state := Gone\<rparr>"
  proof (cases "br_state b")
    case (Completed r)
    then show ?thesis by (cases r) (simp_all add: retrieve_round_output_def)
  qed (use over in \<open>simp_all add: retrieve_round_output_def\<close>)
  then show "fst (complete_round rt R) = rt\<lparr>rounds := (rounds rt)(ROUND (rt_msg R) \<mapsto> Some (b\<lparr>br_state := Gone\<rparr>))\<rparr>"
    "snd (complete_round rt R) = Ok (snd (retrieve_round_output R b))"
    using b over by (simp_all add: complete_round_def case_prod_unfold Let_def del: needs_more_messages.simps)
qed

lemma complete_round_idle:
  assumes "\<And>b. rounds rt (ROUND (rt_msg R)) = Some (Some b) \<Longrightarrow> \<exists>s. br_state b = InProgress s"
  shows "fst (complete_round rt R) = rt"
  using assms
  by (cases "rounds rt (ROUND (rt_msg R))"; cases "the (rounds rt (ROUND (rt_msg R)))")
    (simp_all add: complete_round_def del: needs_more_messages.simps)

lemma complete_round_typed:
  assumes inv: "well_typed rt W"
  shows "well_typed (fst (complete_round rt R)) W"
proof (cases "\<exists>b. rounds rt (ROUND (rt_msg R)) = Some (Some b) \<and> (\<nexists>s. br_state b = InProgress s)")
  case True
  then obtain b where b: "rounds rt (ROUND (rt_msg R)) = Some (Some b)" "\<nexists>s. br_state b = InProgress s" by blast
  have "entry_typed (ROUND (rt_msg R)) (b\<lparr>br_state := Gone\<rparr>)"
    using inv b(1) by (simp add: well_typed_def entry_typed_def)
  moreover have "\<forall>R' \<in> W. ROUND (rt_msg R') = ROUND (rt_msg R) \<longrightarrow> br_type (b\<lparr>br_state := Gone\<rparr>) = R'"
    using inv b(1) unfolding well_typed_def by fastforce
  ultimately show ?thesis unfolding complete_round_done(1) [OF b] by (rule well_typed_upd [OF inv])
next
  case False
  then show ?thesis using inv complete_round_idle [of rt R] by auto
qed

lemma router_use_typed: "router_use rnd rt W \<Longrightarrow> well_typed rt W"
proof (induction rule: router_use.induct)
  case (use_add rt W R s rt' w)
  let ?b = "\<lparr>br_type = R, br_state = ProcessRoundMessageImpl_new R s\<rparr>"
  have new: "w = R" "rounds rt (ROUND (rt_msg R)) = None" "rt' = rt\<lparr>rounds := (rounds rt)(ROUND (rt_msg R) \<mapsto> Some ?b)\<rparr>"
    using use_add.hyps(2) by (auto simp: add_round_def Let_def split: if_splits)
  have "entry_typed (ROUND (rt_msg R)) ?b" using new_typed [of R s] by (simp add: entry_typed_def)
  moreover have "\<forall>R' \<in> W. ROUND (rt_msg R') = ROUND (rt_msg R) \<longrightarrow> br_type ?b = R'"
    using use_add.IH new(2) unfolding well_typed_def by fastforce
  ultimately have "well_typed rt' W" unfolding new(3) by (rule well_typed_upd [OF use_add.IH])
  then show ?case using new(1,3) by (simp add: well_typed_def)
qed (simp_all add: received_typed complete_round_typed, simp add: well_typed_def RoundsRouter_new_def)

lemma retrieve_output_typed:
  "snd (retrieve_round_output R b) = Ok out \<Longrightarrow>
   br_state b = Completed (Ok out) \<and> rt_output_type (br_type b) = rt_output_type R"
  by (cases "(br_type b, br_state b)" rule: take_output.cases)
    (auto simp: retrieve_round_output_def downcast_def split: if_splits)

lemma retrieve_own_type:
  "br_type b = R \<Longrightarrow> snd (retrieve_round_output R b) = (case br_state b of
     Completed r \<Rightarrow> r | InProgress _ \<Rightarrow> Err (from_Bug (TakeRoundResult NotReady))
   | Gone \<Rightarrow> Err (from_Bug (TakeRoundResult AlreadyTaken)))"
  by (cases "(br_type b, br_state b)" rule: take_output.cases)
    (auto simp: retrieve_round_output_def downcast_def)

subsection \<open>Properties\<close>

text \<open>A protocol with one round for the instances below: its messages are the round's own.\<close>

definition sample_round_msg :: "(nat, nat) round_msg" where
  "sample_round_msg = \<lparr>ROUND = 0, to_protocol_msg = id, from_protocol_msg = Ok\<rparr>"

definition sample_round_type ::
  "(nat round_input, nat, nat, nat round_msgs, round_input_error, unit) round_type" where
  "sample_round_type =
     \<lparr>rt_store = RoundInput_store, rt_msg = sample_round_msg, rt_output_type = 0,
      rt_error_type = 1\<rparr>"

definition sample_router ::
  "(nat round_input, nat, nat, nat round_msgs, round_input_error, unit) rounds_router" where
  "sample_router =
     \<lparr>rounds = [0 \<mapsto> Some \<lparr>br_type = sample_round_type, br_state = InProgress sample_store\<rparr>]\<rparr>"

interpretation sample_msg: lawful_msg "\<lambda>_. True" "\<lambda>_. 0" sample_round_msg
  by unfold_locales (simp_all add: sample_round_msg_def)

lemma sample_lawful: "lawful_round_msg (\<lambda>_. True) (\<lambda>_. 0) sample_round_msg"
  by (simp add: lawful_round_msg_def sample_msg.lawful_msg_axioms)

lemma sample_add_round: "add_round RoundsRouter_new sample_round_type sample_store =
    Ret (sample_router, sample_round_type)"
  by (simp add: add_round_def RoundsRouter_new_def sample_router_def sample_round_type_def
                sample_round_msg_def ProcessRoundMessageImpl_new_def RoundInput_store_def
                RoundInput_wants_more_def sample_store_def)

lemma sample_reach:
  "router_reach (\<lambda>_. True) (\<lambda>_. 0) sample_router (Map.empty(0 \<mapsto> sample_round_type))"
proof -
  have "router_reach (\<lambda>_. True) (\<lambda>_. 0) sample_router
      (Map.empty(ROUND (rt_msg sample_round_type) \<mapsto> sample_round_type))"
    using sample_lawful
    by (intro router_reach.add [where I = RoundInput_wf, OF router_reach.start _ _
          sample_store_wf sample_add_round])
      (simp_all add: sample_round_type_def RoundInput_proper)
  then show ?thesis by (simp add: sample_round_type_def sample_round_msg_def)
qed

text \<open>C15: The router keeps the rounds apart. After any sequence of messages, in any
  interleaving, the state of every registered round is the one it reaches by processing, in
  their order, exactly the messages whose round number is its own; rounds are neither added
  nor removed.\<close>

theorem routing_is_per_round:
  "rounds (received_all rnd rt ms) k =
     map_option (map_option (\<lambda>b. b\<lparr>br_state :=
         foldl (process_message rnd (br_type b)) (br_state b)
           (filter (\<lambda>m. rnd (inc_msg m) = k) ms)\<rparr>)) (rounds rt k)"
  by (simp add: received_all_rounds box_receive_all)

text \<open>C3: Completing a round never fails with a router error. Let \<open>valid\<close> be the messages on which the
  laws of \<open>RoundMsg\<close> hold for all the rounds of the client. In every router reachable by a client that
  registers proper rounds, uses each witness once and passes on only valid messages, of whatever
  rounds and in whatever order, completing a round whose witness is live either gives the witness
  back and changes nothing, or returns the store's output, or fails with an error of the round's own
  store; no bug, API misuse or improper-store error occurs, and no entry is ever a removed round.
  Passing on a message fails exactly if its round was never registered, which any sender can bring
  about: the error is \<open>UnregisteredRound\<close>, and the router is unchanged.\<close>

theorem router_errors_unreachable:
  assumes "router_reach valid rnd rt live" and "live (ROUND (rt_msg R)) = Some R"
  shows "rounds rt k \<noteq> Some None \<and>
    (complete_round rt R = (rt, Err R) \<or>
     (\<exists>rt' out. complete_round rt R = (rt', Ok (Ok out))) \<or>
     (\<exists>rt' pe. complete_round rt R = (rt', Ok (Err (ProcessMsg pe))))) \<and>
    (if rounds rt (rnd (inc_msg m)) = None
     then received_msg rnd rt m = (rt, Err (UnregisteredRound (rnd (inc_msg m)) False))
     else snd (received_msg rnd rt m) = Ok ())"
proof -
  have inv: "router_inv valid rnd rt live" by (rule router_reach_inv [OF assms(1)])
  have entries: "rounds rt k \<noteq> Some None" using router_invD [OF inv, of k] by auto
  have received: "if rounds rt (rnd (inc_msg m)) = None
     then received_msg rnd rt m = (rt, Err (UnregisteredRound (rnd (inc_msg m)) False))
     else snd (received_msg rnd rt m) = Ok ()"
    using received_msg_result [of rnd rt m] by (auto simp: received_msg_def)
  have "complete_round rt R = (rt, Err R) \<or>
     (\<exists>rt' out. complete_round rt R = (rt', Ok (Ok out))) \<or>
     (\<exists>rt' pe. complete_round rt R = (rt', Ok (Err (ProcessMsg pe))))"
    by (cases rule: complete_round_live [OF inv assms(2)]) (blast, metis sum.exhaust)
  then show ?thesis using entries received by blast
qed

theorem router_errors_unreachable_witness:
  "rounds sample_router 5 \<noteq> Some None \<and>
    (complete_round sample_router sample_round_type = (sample_router, Err sample_round_type) \<or>
     (\<exists>rt' out. complete_round sample_router sample_round_type = (rt', Ok (Ok out))) \<or>
     (\<exists>rt' pe. complete_round sample_router sample_round_type = (rt', Ok (Err (ProcessMsg pe))))) \<and>
    snd (received_msg (\<lambda>_. 0) sample_router (sample_incoming 0 1 P2P 7)) = Ok ()"
  using router_errors_unreachable [OF sample_reach, of sample_round_type 5 "sample_incoming 0 1 P2P 7"]
  by (auto simp: sample_round_type_def sample_round_msg_def sample_router_def split: if_splits)

text \<open>A message of a round that is already complete, failed or taken is ignored: the call
  succeeds and the router is unchanged. A message of a round that was never registered is
  reported with its round number, and changes nothing either.\<close>

lemma late_and_unregistered_messages:
  assumes "rounds rt (rnd (inc_msg m)) = None \<or>
     (\<exists>b. rounds rt (rnd (inc_msg m)) = Some (Some b) \<and> (\<nexists>s. br_state b = InProgress s))"
  shows "received_msg rnd rt m =
    (rt, if rounds rt (rnd (inc_msg m)) = None
         then Err (UnregisteredRound (rnd (inc_msg m)) False) else Ok ())"
  using assms by (auto simp: received_msg_def Let_def)

text \<open>C11: The downcasts of the router are type safe. However a router is used - also by clients and stores
  that break every contract - completing a round with a witness that this router gave out never
  ends with a mismatched type or an unregistered round, and an output is returned only to a
  witness of the type that the output was stored with: a witness of another router whose types
  differ gets an error.\<close>

theorem router_downcasts_typed:
  assumes "router_use rnd rt W" and "complete_round rt R = (rt', Ok res)"
  shows "(R \<in> W \<longrightarrow> \<not> mismatched res \<and> rounds rt (ROUND (rt_msg R)) \<notin> {None, Some None}) \<and>
    (\<forall>out. res = Ok out \<longrightarrow> (\<exists>b. rounds rt (ROUND (rt_msg R)) = Some (Some b) \<and>
       br_state b = Completed (Ok out) \<and> rt_output_type (br_type b) = rt_output_type R))"
proof -
  have inv: "well_typed rt W" by (rule router_use_typed [OF assms(1)])
  have "\<not> mismatched res \<and> rounds rt (ROUND (rt_msg R)) \<notin> {None, Some None}" if R: "R \<in> W"
  proof -
    obtain b where b: "rounds rt (ROUND (rt_msg R)) = Some (Some b)" "br_type b = R"
      using inv R unfolding well_typed_def by blast
    then have st: "\<not> mismatched r" if "br_state b = Completed r" for r
      using inv that b(1) unfolding well_typed_def entry_typed_def by blast
    have "\<not> mismatched (snd (retrieve_round_output R b))"
      using st b(2) by (auto simp: retrieve_own_type mismatched_def from_Bug_def split: process_round_message_impl.splits)
    moreover have "res = snd (retrieve_round_output R b)"
      using assms(2) b(1) complete_round_done(2) [OF b(1)]
      by (cases "\<exists>s. br_state b = InProgress s") (auto simp: complete_round_def simp del: needs_more_messages.simps)
    ultimately show ?thesis using b(1) by simp
  qed
  moreover have "\<exists>b. rounds rt (ROUND (rt_msg R)) = Some (Some b) \<and>
       br_state b = Completed (Ok out) \<and> rt_output_type (br_type b) = rt_output_type R" if "res = Ok out" for out
    using assms(2) that retrieve_output_typed [of R _ out]
    by (auto simp: complete_round_def from_Bug_def from_UnregisteredRound_def from_ApiMisuse_def case_prod_unfold Let_def
             split: option.splits if_splits simp del: needs_more_messages.simps)
  ultimately show ?thesis by blast
qed

text \<open>The round of the module's unit test, whose store expects no messages.\<close>

definition no_messages_store :: "(unit, nat, nat, nat, unit) round_store" where
  "no_messages_store =
     \<lparr>rs_add_message = (\<lambda>s m. (s, Ok ())), rs_wants_more = (\<lambda>s. False), rs_output = (\<lambda>s. Ok 7),
      rs_read_any_prop = default_read_any_prop\<rparr>"

theorem router_downcasts_typed_witness:
  "\<exists>rt (R :: (unit, nat, nat, nat, nat, unit) round_type) rt' rt''. router_use (\<lambda>_. 0) rt {R} \<and> complete_round rt R = (rt', Ok (Ok (7 :: nat))) \<and>
     complete_round rt (R\<lparr>rt_output_type := 5\<rparr>) =
       (rt'', Ok (Err (from_Bug MismatchedOutputType) :: (nat, infallible) complete_round_error + nat)) \<and>
     \<not> mismatched (Ok 7 :: (nat, infallible) complete_round_error + nat)"
proof -
  define R :: "(unit, nat, nat, nat, nat, unit) round_type" where
    "R = \<lparr>rt_store = no_messages_store, rt_msg = sample_round_msg, rt_output_type = 0, rt_error_type = 1\<rparr>"
  define rt where "rt = \<lparr>rounds = [0 \<mapsto> Some \<lparr>br_type = R, br_state = Completed (Ok (7 :: nat)) ::
      (unit, nat, nat) process_round_message_impl\<rparr>]\<rparr>"
  have "add_round RoundsRouter_new R () = Ret (rt, R)"
    by (simp add: add_round_def RoundsRouter_new_def R_def rt_def no_messages_store_def
                  ProcessRoundMessageImpl_new_def sample_round_msg_def)
  from use_add [OF use_start this] have reach: "router_use (\<lambda>_. 0) rt {R}" .
  obtain rt' where c: "complete_round rt R = (rt', Ok (Ok 7))"
    by (simp add: rt_def R_def complete_round_def retrieve_round_output_def downcast_def sample_round_msg_def
                  NeedsMoreMessages_yes_def Let_def)
  obtain rt'' where f: "complete_round rt (R\<lparr>rt_output_type := 5\<rparr>) = (rt'', Ok (Err (from_Bug MismatchedOutputType)))"
    by (simp add: rt_def R_def complete_round_def retrieve_round_output_def downcast_def sample_round_msg_def
                  NeedsMoreMessages_yes_def Let_def)
  from router_downcasts_typed [OF reach c] reach c f show ?thesis by blast
qed

text \<open>C29: The result of a round can be taken once. Completing a round that is complete moves its
  result out, and any further completion of the same round reports that it was taken.\<close>

theorem result_is_taken_once:
  assumes "rounds rt (ROUND (rt_msg R)) = Some (Some \<lparr>br_type = R, br_state = Completed res\<rparr>)"
  shows "\<exists>rt'. complete_round rt R = (rt', Ok res) \<and>
    complete_round rt' R = (rt', Ok (Err (from_Bug (TakeRoundResult AlreadyTaken))))"
  using assms
  by (cases res) (auto simp: complete_round_def retrieve_round_output_def downcast_def Let_def
                       simp del: needs_more_messages.simps)

theorem result_is_taken_once_witness:
  "\<exists>rt'. complete_round (sample_router\<lparr>rounds := [0 \<mapsto> Some \<lparr>br_type = sample_round_type,
       br_state = Completed (Ok (round_output 1 3 []))\<rparr>]\<rparr>) sample_round_type
      = (rt', Ok (Ok (round_output 1 3 []))) \<and>
    complete_round rt' sample_round_type =
      (rt', Ok (Err (from_Bug (TakeRoundResult AlreadyTaken))))"
  by (rule result_is_taken_once) (simp add: sample_round_type_def sample_round_msg_def)

end
