(* ===== verification/Mpc_Party.thy ===== *)
theory Mpc_Party
  imports Rounds_Router
begin

section \<open>The MPC engine\<close>

text \<open>
  \<open>round-based/src/mpc/party/mod.rs\<close> and \<open>runtime.rs\<close>. \<open>MpcParty\<close> is generic in its delivery
  \<open>D\<close>. Of the stream half the engine sees the items that \<open>next().await\<close> resolves to: the model
  keeps the items the stream has in store and whether it ends after them; awaiting an item of
  an open stream that has none is \<open>Pending\<close>, and the call is resumed when more arrive. The
  sink half is a parameter: a dictionary of \<open>SinkExt\<close>'s \<open>send\<close>, \<open>feed\<close> and \<open>flush\<close> (a third-party
  crate) over the sink's state.
\<close>

record ('k, 'm, 'ioe) sink =
  sink_send :: "'k \<Rightarrow> 'm outgoing \<Rightarrow> 'k \<times> ('ioe + unit)"
  sink_feed :: "'k \<Rightarrow> 'm outgoing \<Rightarrow> 'k \<times> ('ioe + unit)"
  sink_flush :: "'k \<Rightarrow> 'k \<times> ('ioe + unit)"

text \<open>\<open>Halves\<close>: a stream and a sink as one delivery.\<close>

record ('i, 'k) halves =
  incomings :: 'i
  outgoings :: 'k

definition Halves_new :: "'i \<Rightarrow> 'k \<Rightarrow> ('i, 'k) halves" where
  "Halves_new i k = \<lparr>incomings = i, outgoings = k\<rparr>"

definition Halves_into_inner :: "('i, 'k) halves \<Rightarrow> 'i \<times> 'k" where
  "Halves_into_inner h = (incomings h, outgoings h)"

text \<open>
  \<open>Halves\<close> is a stream and a sink itself: each poll is one of its halves' poll, whose methods are the
  arguments here. The other half is not touched.
\<close>

definition Halves_poll_next ::
  "('i \<Rightarrow> 'i \<times> 'x option poll) \<Rightarrow> ('i, 'k) halves \<Rightarrow> ('i, 'k) halves \<times> 'x option poll" where
  "Halves_poll_next poll_next self =
     (let (i, r) = poll_next (incomings self) in (self\<lparr>incomings := i\<rparr>, r))"

definition Halves_poll_ready ::
  "('k \<Rightarrow> 'k \<times> ('e + unit) poll) \<Rightarrow> ('i, 'k) halves \<Rightarrow> ('i, 'k) halves \<times> ('e + unit) poll" where
  "Halves_poll_ready poll_ready self =
     (let (k, r) = poll_ready (outgoings self) in (self\<lparr>outgoings := k\<rparr>, r))"

definition Halves_start_send ::
  "('k \<Rightarrow> 'm \<Rightarrow> 'k \<times> ('e + unit)) \<Rightarrow> ('i, 'k) halves \<Rightarrow> 'm \<Rightarrow> ('i, 'k) halves \<times> ('e + unit)" where
  "Halves_start_send start_send self item =
     (let (k, r) = start_send (outgoings self) item in (self\<lparr>outgoings := k\<rparr>, r))"

definition Halves_poll_flush ::
  "('k \<Rightarrow> 'k \<times> ('e + unit) poll) \<Rightarrow> ('i, 'k) halves \<Rightarrow> ('i, 'k) halves \<times> ('e + unit) poll" where
  "Halves_poll_flush poll_flush self =
     (let (k, r) = poll_flush (outgoings self) in (self\<lparr>outgoings := k\<rparr>, r))"

definition Halves_poll_close ::
  "('k \<Rightarrow> 'k \<times> ('e + unit) poll) \<Rightarrow> ('i, 'k) halves \<Rightarrow> ('i, 'k) halves \<times> ('e + unit) poll" where
  "Halves_poll_close poll_close self =
     (let (k, r) = poll_close (outgoings self) in (self\<lparr>outgoings := k\<rparr>, r))"

record ('m, 'ioe) stream =
  st_items :: "('ioe + 'm incoming) list"
  st_closed :: bool

definition stream_next ::
  "('m, 'ioe) stream \<Rightarrow> ('m, 'ioe) stream \<times> ('ioe + 'm incoming) option poll" where
  "stream_next s =
     (case st_items s of
        x # xs \<Rightarrow> (s\<lparr>st_items := xs\<rparr>, Ready (Some x))
      | [] \<Rightarrow> (s, if st_closed s then Ready None else Pending))"

record ('s, 'rm, 'm, 'o, 'e, 'u, 'ioe, 'k, 'r) mpc_party =
  mp_router :: "('s, 'rm, 'm, 'o, 'e, 'u) rounds_router"
  mp_io :: "(('m, 'ioe) stream, 'k) halves"
  mp_runtime :: 'r

subsection \<open>Setup\<close>

definition MpcParty_connected ::
  "'r \<Rightarrow> (('m, 'ioe) stream, 'k) halves \<Rightarrow> ('s, 'rm, 'm, 'o, 'e, 'u, 'ioe, 'k, 'r) mpc_party" where
  "MpcParty_connected default_runtime delivery =
     \<lparr>mp_router = RoundsRouter_new, mp_io = delivery, mp_runtime = default_runtime\<rparr>"

definition MpcParty_connected_halves ::
  "'r \<Rightarrow> ('m, 'ioe) stream \<Rightarrow> 'k \<Rightarrow> ('s, 'rm, 'm, 'o, 'e, 'u, 'ioe, 'k, 'r) mpc_party" where
  "MpcParty_connected_halves default_runtime i k =
     MpcParty_connected default_runtime (Halves_new i k)"

text \<open>The functions \<open>mpc::connected\<close> and \<open>mpc::connected_halves\<close>.\<close>

definition mpc_connected ::
  "'r \<Rightarrow> (('m, 'ioe) stream, 'k) halves \<Rightarrow> ('s, 'rm, 'm, 'o, 'e, 'u, 'ioe, 'k, 'r) mpc_party" where
  "mpc_connected default_runtime delivery = MpcParty_connected default_runtime delivery"

definition mpc_connected_halves ::
  "'r \<Rightarrow> ('m, 'ioe) stream \<Rightarrow> 'k \<Rightarrow> ('s, 'rm, 'm, 'o, 'e, 'u, 'ioe, 'k, 'r) mpc_party" where
  "mpc_connected_halves default_runtime i k = MpcParty_connected_halves default_runtime i k"

definition MpcParty_with_runtime ::
  "('s, 'rm, 'm, 'o, 'e, 'u, 'ioe, 'k, 'x) mpc_party \<Rightarrow> 'r
     \<Rightarrow> ('s, 'rm, 'm, 'o, 'e, 'u, 'ioe, 'k, 'r) mpc_party" where
  "MpcParty_with_runtime self runtime =
     \<lparr>mp_router = mp_router self, mp_io = mp_io self, mp_runtime = runtime\<rparr>"

definition MpcParty_add_round ::
  "('s, 'rm, 'm, 'o, 'e, 'u, 'ioe, 'k, 'r) mpc_party \<Rightarrow> ('s, 'rm, 'm, 'o, 'e, 'u) round_type \<Rightarrow> 's
     \<Rightarrow> (('s, 'rm, 'm, 'o, 'e, 'u, 'ioe, 'k, 'r) mpc_party \<times>
         ('s, 'rm, 'm, 'o, 'e, 'u) round_type) or_panic" where
  "MpcParty_add_round self R store =
     (case add_round (mp_router self) R store of
        Panic \<Rightarrow> Panic
      | Ret (router', w) \<Rightarrow> Ret (self\<lparr>mp_router := router'\<rparr>, w))"

definition MpcParty_finish_setup ::
  "('s, 'rm, 'm, 'o, 'e, 'u, 'ioe, 'k, 'r) mpc_party
     \<Rightarrow> ('s, 'rm, 'm, 'o, 'e, 'u, 'ioe, 'k, 'r) mpc_party" where
  "MpcParty_finish_setup self =
     \<lparr>mp_router = mp_router self, mp_io = mp_io self, mp_runtime = mp_runtime self\<rparr>"

subsection \<open>Completing a round\<close>

text \<open>
  The loop of \<open>complete\<close>: await an item, route it, look whether the round is complete. Each
  turn takes an item of the stream, so the recursion is on the items.
\<close>

primrec complete_loop ::
  "('m \<Rightarrow> u16) \<Rightarrow> ('s, 'rm, 'm, 'o, 'e, 'u) round_type \<Rightarrow> bool
     \<Rightarrow> ('ioe + 'm incoming) list \<Rightarrow> ('s, 'rm, 'm, 'o, 'e, 'u) rounds_router
     \<Rightarrow> ('s, 'rm, 'm, 'o, 'e, 'u) rounds_router \<times> ('ioe + 'm incoming) list \<times>
        (('e, 'ioe) complete_round_error + 'o) poll" where
  "complete_loop rnd R closed [] rt =
     (rt, [], if closed then Ready (Err UnexpectedEof) else Pending)"
| "complete_loop rnd R closed (x # xs) rt =
     (case x of
        Err e \<Rightarrow> (rt, xs, Ready (Err (Io e)))
      | Ok incoming \<Rightarrow>
          (case received_msg rnd rt incoming of (rt', r) \<Rightarrow>
             (case r of
                Err u \<Rightarrow> (rt', xs, Ready (Err (from_UnregisteredRound u)))
              | Ok _ \<Rightarrow>
                  (case complete_round rt' R of (rt'', c) \<Rightarrow>
                     (case c of
                        Ok res \<Rightarrow> (rt'', xs, Ready (map_err (map_io_err match_never) res))
                      | Err w \<Rightarrow> complete_loop rnd R closed xs rt'')))))"

definition MpcParty_complete ::
  "('m \<Rightarrow> u16) \<Rightarrow> ('s, 'rm, 'm, 'o, 'e, 'u, 'ioe, 'k, 'r) mpc_party
     \<Rightarrow> ('s, 'rm, 'm, 'o, 'e, 'u) round_type
     \<Rightarrow> ('s, 'rm, 'm, 'o, 'e, 'u, 'ioe, 'k, 'r) mpc_party \<times>
        (('e, 'ioe) complete_round_error + 'o) poll" where
  "MpcParty_complete rnd self R =
     (case complete_round (mp_router self) R of (rt, c) \<Rightarrow>
        (case c of
           Ok res \<Rightarrow>
             (self\<lparr>mp_router := rt\<rparr>, Ready (map_err (map_io_err match_never) res))
         | Err w \<Rightarrow>
             (let s = incomings (mp_io self);
                  (rt', rest, res) = complete_loop rnd R (st_closed s) (st_items s) rt
              in (self\<lparr>mp_router := rt',
                       mp_io := (mp_io self)\<lparr>incomings := s\<lparr>st_items := rest\<rparr>\<rparr>\<rparr>, res))))"

subsection \<open>Sending\<close>

definition MpcParty_send ::
  "('k, 'm, 'ioe) sink \<Rightarrow> ('s, 'rm, 'm, 'o, 'e, 'u, 'ioe, 'k, 'r) mpc_party \<Rightarrow> 'm outgoing
     \<Rightarrow> ('s, 'rm, 'm, 'o, 'e, 'u, 'ioe, 'k, 'r) mpc_party \<times> ('ioe + unit)" where
  "MpcParty_send K self m =
     (let (k, r) = sink_send K (outgoings (mp_io self)) m
      in (self\<lparr>mp_io := (mp_io self)\<lparr>outgoings := k\<rparr>\<rparr>, r))"

record ('s, 'rm, 'm, 'o, 'e, 'u, 'ioe, 'k, 'r) send_many =
  sm_party :: "('s, 'rm, 'm, 'o, 'e, 'u, 'ioe, 'k, 'r) mpc_party"

definition MpcParty_send_many ::
  "('s, 'rm, 'm, 'o, 'e, 'u, 'ioe, 'k, 'r) mpc_party
     \<Rightarrow> ('s, 'rm, 'm, 'o, 'e, 'u, 'ioe, 'k, 'r) send_many" where
  "MpcParty_send_many self = \<lparr>sm_party = self\<rparr>"

definition SendMany_send ::
  "('k, 'm, 'ioe) sink \<Rightarrow> ('s, 'rm, 'm, 'o, 'e, 'u, 'ioe, 'k, 'r) send_many \<Rightarrow> 'm outgoing
     \<Rightarrow> ('s, 'rm, 'm, 'o, 'e, 'u, 'ioe, 'k, 'r) send_many \<times> ('ioe + unit)" where
  "SendMany_send K self m =
     (let p = sm_party self; (k, r) = sink_feed K (outgoings (mp_io p)) m
      in (self\<lparr>sm_party := p\<lparr>mp_io := (mp_io p)\<lparr>outgoings := k\<rparr>\<rparr>\<rparr>, r))"

definition SendMany_flush ::
  "('k, 'm, 'ioe) sink \<Rightarrow> ('s, 'rm, 'm, 'o, 'e, 'u, 'ioe, 'k, 'r) send_many
     \<Rightarrow> 'ioe + ('s, 'rm, 'm, 'o, 'e, 'u, 'ioe, 'k, 'r) mpc_party" where
  "SendMany_flush K self =
     (let p = sm_party self; (k, r) = sink_flush K (outgoings (mp_io p))
      in case r of Err e \<Rightarrow> Err e | Ok _ \<Rightarrow> Ok (p\<lparr>mp_io := (mp_io p)\<lparr>outgoings := k\<rparr>\<rparr>))"

subsection \<open>The engine as an implementation of the traits\<close>

text \<open>
  \<open>MpcParty\<close> as \<open>Mpc\<close> and \<open>MpcExecution\<close>, for rounds over one kind of store; \<open>ot\<close> and \<open>et\<close> give the
  \<open>TypeId\<close>s of the outputs and errors of the rounds. The future of \<open>complete\<close> keeps only its witness.
\<close>

definition round_type_of ::
  "('s, 'rm, 'o, 'e, 'u) round_store \<Rightarrow> (u16 \<Rightarrow> nat) \<Rightarrow> (u16 \<Rightarrow> nat) \<Rightarrow> ('rm, 'm) round_msg
     \<Rightarrow> ('s, 'rm, 'm, 'o, 'e, 'u) round_type" where
  "round_type_of S ot et M =
     \<lparr>rt_store = S, rt_msg = M, rt_output_type = ot (ROUND M), rt_error_type = et (ROUND M)\<rparr>"

definition MpcParty_ops ::
  "('m \<Rightarrow> u16) \<Rightarrow> ('k, 'm, 'ioe) sink \<Rightarrow> ('s, 'rm, 'o, 'e, 'u) round_store \<Rightarrow> (u16 \<Rightarrow> nat) \<Rightarrow> (u16 \<Rightarrow> nat)
     \<Rightarrow> (('s, 'rm, 'm, 'o, 'e, 'u, 'ioe, 'k, 'r) mpc_party, ('s, 'rm, 'm, 'o, 'e, 'u, 'ioe, 'k, 'r) mpc_party,
         ('s, 'rm, 'm, 'o, 'e, 'u) round_type, 's, 'rm, 'm, 'o, ('e, 'ioe) complete_round_error, 'ioe) mpc_ops" where
  "MpcParty_ops rnd K S ot et =
     \<lparr>op_add_round = (\<lambda>p M s. MpcParty_add_round p (round_type_of S ot et M) s),
      op_finish_setup = MpcParty_finish_setup,
      op_complete = (\<lambda>p w. case MpcParty_complete rnd p w of (p', r) \<Rightarrow> (p', w, r)),
      op_send = MpcParty_send K\<rparr>"

lemma MpcParty_ops_sel [simp]:
  "op_add_round (MpcParty_ops rnd K S ot et) p M s = MpcParty_add_round p (round_type_of S ot et M) s"
  "op_finish_setup (MpcParty_ops rnd K S ot et) p = MpcParty_finish_setup p"
  "op_complete (MpcParty_ops rnd K S ot et) p w = (case MpcParty_complete rnd p w of (p', r) \<Rightarrow> (p', w, r))"
  "op_send (MpcParty_ops rnd K S ot et) = MpcParty_send K"
  by (simp_all add: MpcParty_ops_def)

lemma round_type_of_sel [simp]:
  "rt_store (round_type_of S ot et M) = S" "rt_msg (round_type_of S ot et M) = M"
  by (simp_all add: round_type_of_def)

subsection \<open>Yielding on an unknown runtime\<close>

text \<open>
  \<open>runtime.rs\<close>: the future \<open>YieldNow(bool)\<close>. A poll returns the new state, whether the waker was
  woken, and the poll result.
\<close>

definition UnknownRuntime_yield_now :: bool where
  "UnknownRuntime_yield_now = False"

definition YieldNow_poll :: "bool \<Rightarrow> bool \<times> bool \<times> unit poll" where
  "YieldNow_poll polled = (if \<not> polled then (True, True, Pending) else (polled, False, Ready ()))"

text \<open>A yield suspends once, with the waker woken, and is ready when it is polled again.\<close>

lemma yields_once:
  "YieldNow_poll UnknownRuntime_yield_now = (True, True, Pending)" "YieldNow_poll True = (True, False, Ready ())"
  by (simp_all add: YieldNow_poll_def UnknownRuntime_yield_now_def)

subsection \<open>Waiting for a round\<close>

lemma complete_round_waiting:
  "rounds rt (ROUND (rt_msg R)) = Some (Some b) \<Longrightarrow> br_state b = InProgress s \<Longrightarrow>
   complete_round rt R = (rt, Err R)"
  by (simp add: complete_round_def del: needs_more_messages.simps)

lemma complete_round_finished:
  "rounds rt (ROUND (rt_msg R)) = Some (Some \<lparr>br_type = R, br_state = Completed res\<rparr>) \<Longrightarrow>
   complete_round rt R =
     (rt\<lparr>rounds := (rounds rt)(ROUND (rt_msg R) \<mapsto> Some \<lparr>br_type = R, br_state = Gone\<rparr>)\<rparr>, Ok res)"
  by (cases res) (simp_all add: complete_round_def retrieve_round_output_def downcast_def
                    del: needs_more_messages.simps)

lemma received_all_simps [simp]:
  "received_all rnd rt [] = rt"
  "received_all rnd rt (m # ms) = received_all rnd (fst (received_msg rnd rt m)) ms"
  by (simp_all add: received_all_def)

lemma received_all_append:
  "received_all rnd rt (xs @ ys) = received_all rnd (received_all rnd rt xs) ys"
  by (simp add: received_all_def)

lemma dom_received_all [simp]: "dom (rounds (received_all rnd rt ms)) = dom (rounds rt)"
  by (induction ms arbitrary: rt) simp_all

text \<open>A round that is in progress at the end was so all along.\<close>

lemma in_progress_before:
  assumes "rounds (received_all rnd rt ms) k = Some (Some b)" and "br_state b = InProgress s"
  obtains b0 s0 where "rounds rt k = Some (Some b0)" "br_state b0 = InProgress s0"
proof -
  obtain b0 where b0: "rounds rt k = Some (Some b0)"
    and st: "br_state b = foldl (process_message rnd (br_type b0)) (br_state b0)
                (filter (\<lambda>m. rnd (inc_msg m) = k) ms)"
    using assms by (auto simp: received_all_rounds box_receive_all)
  then show thesis using that assms(2) by (cases "br_state b0") auto
qed

lemma complete_loop_skip:
  assumes "\<forall>m \<in> set ms. rnd (inc_msg m) \<in> dom (rounds rt)"
    and "rounds (received_all rnd rt ms) (ROUND (rt_msg R)) = Some (Some b)"
    and "br_state b = InProgress s"
  shows "complete_loop rnd R closed (map Ok ms @ xs) rt =
         complete_loop rnd R closed xs (received_all rnd rt ms)"
  using assms
proof (induction ms arbitrary: rt)
  case (Cons m ms)
  let ?rt = "fst (received_msg rnd rt m)"
  have "rounds (received_all rnd ?rt ms) (ROUND (rt_msg R)) = Some (Some b)"
    using Cons.prems(2) by simp
  from in_progress_before [OF this Cons.prems(3)]
  obtain b0 s0 where "rounds ?rt (ROUND (rt_msg R)) = Some (Some b0)" "br_state b0 = InProgress s0" .
  then have "complete_round ?rt R = (?rt, Err R)" by (rule complete_round_waiting)
  moreover obtain rt1 where "received_msg rnd rt m = (rt1, Ok ())"
    using Cons.prems(1) received_msg_result [of rnd rt m] by (cases "received_msg rnd rt m") auto
  moreover have "\<forall>m \<in> set ms. rnd (inc_msg m) \<in> dom (rounds ?rt)"
    using Cons.prems(1) dom_received_all [of rnd rt "[m]"] by simp
  ultimately show ?case using Cons.IH [of ?rt] Cons.prems(2,3) by simp
qed simp

lemma complete_loop_last:
  assumes "rnd (inc_msg m) \<in> dom (rounds rt)"
    and "rounds (fst (received_msg rnd rt m)) (ROUND (rt_msg R)) =
           Some (Some \<lparr>br_type = R, br_state = Completed res\<rparr>)"
  shows "\<exists>rt'. complete_loop rnd R closed (Ok m # xs) rt =
           (rt', xs, Ready (map_err (map_io_err match_never) res))"
proof -
  obtain rt1 where "received_msg rnd rt m = (rt1, Ok ())"
    using assms(1) received_msg_result [of rnd rt m] by (cases "received_msg rnd rt m") auto
  then show ?thesis
    using complete_round_finished [of "fst (received_msg rnd rt m)" R res] assms(2) by simp
qed

lemma complete_loop_resume:
  "complete_loop rnd R False xs rt = (rt', ys, Pending) \<Longrightarrow>
   ys = [] \<and> complete_loop rnd R c (xs @ zs) rt = complete_loop rnd R c zs rt'"
  by (induction xs arbitrary: rt) (auto split: sum.splits prod.splits)

lemma complete_round_gives_back:
  "complete_round rt R = (rt', Err w) \<Longrightarrow> rt' = rt \<and> w = R"
  by (auto simp: complete_round_def Let_def split: option.splits or_panic.splits prod.splits
                 sum.splits if_splits)

lemma complete_loop_pending:
  "complete_loop rnd R False xs rt = (rt', ys, Pending) \<Longrightarrow> complete_round rt R = (rt, Err R) \<Longrightarrow>
   complete_round rt' R = (rt', Err R)"
  by (induction xs arbitrary: rt)
    (auto split: sum.splits prod.splits, metis complete_round_gives_back)

text \<open>The round is in progress until the last of its messages, and complete with it.\<close>

lemma store_steps_wait:
  assumes "snd (store_feed (rs_add_message S) s ms) = Ok ()"
    and "\<And>k. k \<le> length ms \<Longrightarrow> rs_wants_more S (fst (store_feed (rs_add_message S) s (take k ms)))"
  shows "foldl (store_step S) (InProgress s) ms =
         InProgress (fst (store_feed (rs_add_message S) s ms))"
  using assms
proof (induction ms arbitrary: s)
  case (Cons m ms)
  obtain s1 where s1: "rs_add_message S s m = (s1, Ok ())"
    and ok: "snd (store_feed (rs_add_message S) s1 ms) = Ok ()"
    using Cons.prems(1) by (auto split: prod.splits sum.splits)
  have want: "rs_wants_more S (fst (store_feed (rs_add_message S) s1 (take k ms)))"
    if "k \<le> length ms" for k
    using Cons.prems(2) [of "Suc k"] that s1 by simp
  then have "store_step S (InProgress s) m = InProgress s1"
    using s1 want [of 0] by (simp add: store_step_def)
  then show ?case using Cons.IH [OF ok want] s1 by simp
qed simp

lemma round_input_round_waits:
  assumes new: "RoundInput_new i n t = Ret s0" and each: "one_each i n t (ms @ [m])"
  shows "\<exists>s. foldl (store_step RoundInput_store) (InProgress s0) ms = InProgress s"
proof -
  have "snd (store_feed RoundInput_add_message s0 (ms @ [m])) = Ok ()"
    using feed_one_each [OF assms] by force
  then have "snd (store_feed RoundInput_add_message s0 ms) = Ok ()"
    by (auto simp: store_feed_append split: prod.splits sum.splits)
  moreover have "RoundInput_wants_more (fst (store_feed RoundInput_add_message s0 (take k ms)))"
    if "k \<le> length ms" for k
    using prefix_wants_more [OF assms, of k] that by simp
  ultimately show ?thesis
    by (subst store_steps_wait) (simp_all add: RoundInput_store_def)
qed

lemma round_waits_in_router:
  assumes entry: "rounds rt (ROUND (rt_msg R)) = Some (Some \<lparr>br_type = R, br_state = InProgress s0\<rparr>)"
    and store: "rt_store R = RoundInput_store" and law: "lawful_round_msg valid rnd (rt_msg R)"
    and new: "RoundInput_new i n t = Ret s0" and each: "one_each i n t (pre @ [m])"
    and ms: "map (extract_msg (rt_msg R))
               (filter (\<lambda>m. rnd (inc_msg m) = ROUND (rt_msg R)) ms) = pre"
    and val: "\<forall>m \<in> set ms. rnd (inc_msg m) = ROUND (rt_msg R) \<longrightarrow> valid (inc_msg m)"
  shows "\<exists>s. rounds (received_all rnd rt ms) (ROUND (rt_msg R)) =
         Some (Some \<lparr>br_type = R, br_state = InProgress s\<rparr>)"
proof -
  let ?ms = "filter (\<lambda>m. rnd (inc_msg m) = ROUND (rt_msg R)) ms"
  have "list_all (\<lambda>m. valid (inc_msg m) \<and> rnd (inc_msg m) = ROUND (rt_msg R)) ?ms"
    using val by (auto simp: list_all_iff)
  then have "\<exists>s. foldl (process_message rnd R) (InProgress s0) ?ms = InProgress s"
    using process_messages_store_steps [OF law, of ?ms] round_input_round_waits [OF new each]
    by (simp add: ms store)
  then show ?thesis by (auto simp: received_all_rounds entry box_receive_all)
qed

lemma MpcParty_send_ok:
  assumes "snd (sink_send K (outgoings (mp_io p)) m) = Ok ()"
  shows "\<exists>p'. MpcParty_send K p m = (p', Ok ()) \<and> mp_router p' = mp_router p \<and>
     incomings (mp_io p') = incomings (mp_io p) \<and>
     outgoings (mp_io p') = fst (sink_send K (outgoings (mp_io p)) m)"
  using assms by (cases "sink_send K (outgoings (mp_io p)) m") (simp add: MpcParty_send_def)

subsection \<open>Several rounds\<close>

text \<open>The items up to the message that finishes a round are taken, the later ones stay.\<close>

lemma complete_loop_splits:
  assumes "\<forall>m \<in> set ms. rnd (inc_msg m) \<in> dom (rounds rt)"
    and "rounds (received_all rnd rt ms) (ROUND (rt_msg R)) =
           Some (Some \<lparr>br_type = R, br_state = Completed res\<rparr>)"
    and "rounds rt (ROUND (rt_msg R)) = Some (Some \<lparr>br_type = R, br_state = InProgress s\<rparr>)"
  shows "\<exists>pre suf. ms = pre @ suf \<and> complete_loop rnd R closed (map Ok ms @ tail) rt =
     (let rt' = received_all rnd rt pre in
      (rt'\<lparr>rounds := (rounds rt')(ROUND (rt_msg R) \<mapsto> Some \<lparr>br_type = R, br_state = Gone\<rparr>)\<rparr>,
       map Ok suf @ tail, Ready (map_err (map_io_err match_never) res)))"
  using assms
proof (induction ms arbitrary: rt s)
  case (Cons m ms)
  let ?k = "ROUND (rt_msg R)" and ?rt = "fst (received_msg rnd rt m)"
  obtain rt1 where rt1: "received_msg rnd rt m = (rt1, Ok ())"
    using Cons.prems(1) received_msg_result [of rnd rt m] by (cases "received_msg rnd rt m") auto
  obtain st where st: "rounds rt1 ?k = Some (Some \<lparr>br_type = R, br_state = st\<rparr>)"
    using received_msg_rounds [of rnd rt m ?k] Cons.prems(3) rt1 by (auto simp: box_receive_def split: if_splits)
  have after: "foldl (process_message rnd R) st (filter (\<lambda>m. rnd (inc_msg m) = ?k) ms) = Completed res"
    using Cons.prems(2) st rt1 by (simp add: received_all_rounds box_receive_all)
  show ?case
  proof (cases st)
    case (InProgress s')
    have reg: "\<forall>m \<in> set ms. rnd (inc_msg m) \<in> dom (rounds rt1)"
      using Cons.prems(1) dom_received_msg [of rnd rt m] rt1 by simp
    have "rounds (received_all rnd rt1 ms) ?k = Some (Some \<lparr>br_type = R, br_state = Completed res\<rparr>)"
      using Cons.prems(2) rt1 by simp
    from Cons.IH [OF reg this st [unfolded InProgress]]
    obtain pre suf where "ms = pre @ suf" "complete_loop rnd R closed (map Ok ms @ tail) rt1 =
       (let rt' = received_all rnd rt1 pre in
        (rt'\<lparr>rounds := (rounds rt')(?k \<mapsto> Some \<lparr>br_type = R, br_state = Gone\<rparr>)\<rparr>,
         map Ok suf @ tail, Ready (map_err (map_io_err match_never) res)))" by blast
    moreover have "complete_round rt1 R = (rt1, Err R)"
      by (rule complete_round_waiting [OF st [unfolded InProgress]]) simp
    ultimately show ?thesis using rt1 by - (rule exI [of _ "m # pre"], rule exI [of _ suf], simp add: Let_def del: fun_upd_apply)
  next
    case (Completed res')
    then have "res' = res" using after by simp
    then show ?thesis
      using rt1 complete_round_finished [OF st [unfolded Completed]]
      by - (rule exI [of _ "[m]"], rule exI [of _ ms], simp add: Let_def del: fun_upd_apply)
  qed (use after in simp)
qed simp

text \<open>
  Completing one of several rounds. The result is the one that the round has once all of \<open>ms\<close> was
  routed, and every other round is then where routing all of \<open>ms\<close> takes it.
\<close>

lemma complete_among_rounds:
  fixes p :: "('s, 'rm, 'm, 'o, 'e, 'u, 'ioe, 'k, 'r) mpc_party"
  assumes items: "incomings (mp_io p) = \<lparr>st_items = map Ok ms @ tail, st_closed = closed\<rparr>"
    and reg: "\<forall>m \<in> set ms. rnd (inc_msg m) \<in> dom (rounds (mp_router p))"
    and fin: "rounds (received_all rnd (mp_router p) ms) (ROUND (rt_msg R)) =
           Some (Some \<lparr>br_type = R, br_state = Completed res\<rparr>)"
  shows "\<exists>p' suf. MpcParty_complete rnd p R = (p', Ready (map_err (map_io_err match_never) res)) \<and>
     incomings (mp_io p') = \<lparr>st_items = map Ok suf @ tail, st_closed = closed\<rparr> \<and>
     outgoings (mp_io p') = outgoings (mp_io p) \<and> dom (rounds (mp_router p')) = dom (rounds (mp_router p)) \<and>
     set suf \<subseteq> set ms \<and> (\<forall>k. k \<noteq> ROUND (rt_msg R) \<longrightarrow>
        rounds (received_all rnd (mp_router p') suf) k = rounds (received_all rnd (mp_router p) ms) k)"
proof -
  let ?k = "ROUND (rt_msg R)" and ?rt = "mp_router p"
  have indep: "rounds (received_all rnd (r\<lparr>rounds := (rounds r)(?k := x)\<rparr>) xs) k =
      rounds (received_all rnd r xs) k" if "k \<noteq> ?k" for r :: "('s, 'rm, 'm, 'o, 'e, 'u) rounds_router" and x xs k
    using that by (simp add: received_all_rounds)
  obtain st where st: "rounds ?rt ?k = Some (Some \<lparr>br_type = R, br_state = st\<rparr>)"
    and end_st: "foldl (process_message rnd R) st (filter (\<lambda>m. rnd (inc_msg m) = ?k) ms) = Completed res"
  proof -
    from fin obtain b where b: "rounds ?rt ?k = Some (Some b)"
      "b\<lparr>br_state := foldl (process_message rnd (br_type b)) (br_state b)
          (filter (\<lambda>m. rnd (inc_msg m) = ?k) ms)\<rparr> = \<lparr>br_type = R, br_state = Completed res\<rparr>"
      by (auto simp: received_all_rounds box_receive_all)
    then show thesis using that [of "br_state b"] by (cases b) auto
  qed
  show ?thesis
  proof (cases st)
    case (InProgress s)
    obtain pre suf where ms: "ms = pre @ suf" and loop:
      "complete_loop rnd R closed (map Ok ms @ tail) ?rt =
       (let rt' = received_all rnd ?rt pre in
        (rt'\<lparr>rounds := (rounds rt')(?k \<mapsto> Some \<lparr>br_type = R, br_state = Gone\<rparr>)\<rparr>,
         map Ok suf @ tail, Ready (map_err (map_io_err match_never) res)))"
      using complete_loop_splits [OF reg fin st [unfolded InProgress]] by blast
    have wait: "complete_round ?rt R = (?rt, Err R)"
      by (rule complete_round_waiting [OF st [unfolded InProgress]]) simp
    have "insert ?k (dom (rounds ?rt)) = dom (rounds ?rt)" using st by auto
    then show ?thesis
      using loop wait items ms indep
      by (intro exI [of _ "fst (MpcParty_complete rnd p R)"] exI [of _ suf])
        (simp add: MpcParty_complete_def Let_def received_all_append del: fun_upd_apply)
  next
    case (Completed res')
    then have "res' = res" using end_st by simp
    moreover have "insert ?k (dom (rounds ?rt)) = dom (rounds ?rt)" using st by auto
    ultimately show ?thesis
      using complete_round_finished [OF st [unfolded Completed]] items indep
      by (intro exI [of _ "fst (MpcParty_complete rnd p R)"] exI [of _ ms])
        (simp add: MpcParty_complete_def del: fun_upd_apply)
  qed (use end_st in simp)
qed

text \<open>A sink that accepts and keeps what it is given.\<close>

definition recorder :: "('m outgoing list, 'm, 'e) sink" where
  "recorder =
     \<lparr>sink_send = (\<lambda>k m. (k @ [m], Ok ())), sink_feed = (\<lambda>k m. (k @ [m], Ok ())), sink_flush = (\<lambda>k. (k, Ok ()))\<rparr>"

lemma recorder_send [simp]:
  "MpcParty_send recorder p m =
     (p\<lparr>mp_io := (mp_io p)\<lparr>outgoings := outgoings (mp_io p) @ [m]\<rparr>\<rparr>, Ok ())"
  by (simp add: MpcParty_send_def recorder_def)

subsection \<open>Where a result comes from\<close>

lemma complete_round_ok:
  assumes "complete_round rt R = (rt', Ok (Ok out))"
    and "rounds rt (ROUND (rt_msg R)) = Some (Some \<lparr>br_type = R, br_state = st\<rparr>)"
  shows "st = Completed (Ok out)" and "k \<noteq> ROUND (rt_msg R) \<Longrightarrow> rounds rt' k = rounds rt k"
proof -
  show "st = Completed (Ok out)"
    using assms retrieve_output_typed [of R "\<lparr>br_type = R, br_state = st\<rparr>" out]
    by (auto simp: complete_round_def Let_def split: prod.splits if_splits)
  show "k \<noteq> ROUND (rt_msg R) \<Longrightarrow> rounds rt' k = rounds rt k"
    using assms by (auto simp: complete_round_def Let_def split: prod.splits if_splits)
qed

lemma complete_loop_sound:
  assumes "complete_loop rnd R closed xs rt = (rt', ys, Ready (Ok out))"
    and "rounds rt (ROUND (rt_msg R)) = Some (Some \<lparr>br_type = R, br_state = st\<rparr>)"
  shows "\<exists>ms. xs = map Ok ms @ ys \<and>
     foldl (process_message rnd R) st (filter (\<lambda>m. rnd (inc_msg m) = ROUND (rt_msg R)) ms) = Completed (Ok out) \<and>
     (\<forall>k. k \<noteq> ROUND (rt_msg R) \<longrightarrow> rounds rt' k = rounds (received_all rnd rt ms) k)"
  using assms
proof (induction xs arbitrary: rt st)
  case (Cons x xs)
  let ?k = "ROUND (rt_msg R)"
  obtain m where x: "x = Ok m" using Cons.prems(1) by (cases x) auto
  obtain rt1 u where rcv: "received_msg rnd rt m = (rt1, Ok u)"
    using Cons.prems(1) x by (cases "received_msg rnd rt m") (auto split: sum.splits)
  obtain rt2 c where c: "complete_round rt1 R = (rt2, c)" by fastforce
  define st1 where "st1 = (if rnd (inc_msg m) = ?k then process_message rnd R st m else st)"
  have entry: "rounds rt1 ?k = Some (Some \<lparr>br_type = R, br_state = st1\<rparr>)"
    using received_msg_rounds [of rnd rt m ?k] rcv unfolding Cons.prems(2) by (simp add: st1_def box_receive_def)
  have step: "foldl (process_message rnd R) st (filter (\<lambda>m. rnd (inc_msg m) = ?k) (m # ms)) =
      foldl (process_message rnd R) st1 (filter (\<lambda>m. rnd (inc_msg m) = ?k) ms)" for ms
    by (simp add: st1_def)
  show ?case
  proof (cases c)
    case (Inr res)
    then have "ys = xs" "rt' = rt2" "res = Ok out"
      using Cons.prems(1) x rcv c by (auto simp: map_err_eq_iff split: sum.splits)
    moreover from this have "st1 = Completed (Ok out)" "\<And>k. k \<noteq> ?k \<Longrightarrow> rounds rt2 k = rounds rt1 k"
      using complete_round_ok [OF _ entry, of rt2 out] c Inr by simp_all
    ultimately show ?thesis
      using x step [of "[]"] rcv by (intro exI [of _ "[m]"]) simp
  next
    case (Inl w)
    then have "rt2 = rt1" using complete_round_gives_back c by blast
    then have "complete_loop rnd R closed xs rt1 = (rt', ys, Ready (Ok out))"
      using Cons.prems(1) x rcv c Inl by simp
    from Cons.IH [OF this entry] obtain ms where "xs = map Ok ms @ ys"
      "foldl (process_message rnd R) st1 (filter (\<lambda>m. rnd (inc_msg m) = ?k) ms) = Completed (Ok out)"
      "\<forall>k. k \<noteq> ?k \<longrightarrow> rounds rt' k = rounds (received_all rnd rt1 ms) k" by blast
    then show ?thesis using x step rcv by (intro exI [of _ "m # ms"]) simp
  qed
qed (simp split: if_splits)

text \<open>
  What a result of \<open>complete\<close> comes from: some first items of the stream were messages, these of the
  round complete it with the result, and all of them were routed.
\<close>

lemma complete_sound:
  assumes "MpcParty_complete rnd p R = (p', Ready (Ok out))"
    and "rounds (mp_router p) (ROUND (rt_msg R)) = Some (Some \<lparr>br_type = R, br_state = st\<rparr>)"
  shows "\<exists>ms. st_items (incomings (mp_io p)) = map Ok ms @ st_items (incomings (mp_io p')) \<and>
     foldl (process_message rnd R) st (filter (\<lambda>m. rnd (inc_msg m) = ROUND (rt_msg R)) ms) = Completed (Ok out) \<and>
     (\<forall>k. k \<noteq> ROUND (rt_msg R) \<longrightarrow> rounds (mp_router p') k = rounds (received_all rnd (mp_router p) ms) k) \<and>
     outgoings (mp_io p') = outgoings (mp_io p)"
proof -
  obtain rt c where c: "complete_round (mp_router p) R = (rt, c)" by fastforce
  show ?thesis
  proof (cases c)
    case (Inr res)
    then have "res = Ok out" and p': "p' = p\<lparr>mp_router := rt\<rparr>"
      using assms(1) c by (auto simp: MpcParty_complete_def map_err_eq_iff split: sum.splits)
    then show ?thesis
      using complete_round_ok [OF _ assms(2), of rt out] c Inr by (intro exI [of _ "[]"]) simp
  next
    case (Inl w)
    obtain rt' ys r where loop: "complete_loop rnd R (st_closed (incomings (mp_io p)))
        (st_items (incomings (mp_io p))) (mp_router p) = (rt', ys, r)"
      using prod_cases3 by blast
    have "rt = mp_router p" using complete_round_gives_back c Inl by blast
    then have "r = Ready (Ok out)" and p': "p' = p\<lparr>mp_router := rt',
        mp_io := (mp_io p)\<lparr>incomings := (incomings (mp_io p))\<lparr>st_items := ys\<rparr>\<rparr>\<rparr>"
      using assms(1) c Inl loop by (auto simp: MpcParty_complete_def)
    then show ?thesis
      using complete_loop_sound [OF _ assms(2)] loop by (auto simp: p')
  qed
qed

text \<open>A store that outputs has taken messages of its round, all of them accepted.\<close>

lemma process_message_in_progress:
  "process_message rnd R (InProgress s) m =
     (case Incoming_try_map (from_protocol_msg (rt_msg R)) m of
        Err p \<Rightarrow> Completed (Err (from_Bug (MessageFromAnotherRound (ROUND (rt_msg R)) (rnd p))))
      | Ok x \<Rightarrow> store_step (rt_store R) (InProgress s) x)"
  by (auto simp: process_message_def process_message_in_store_def store_step_def
      split: prod.splits sum.splits)

lemma process_messages_sound:
  assumes "foldl (process_message rnd R) (InProgress s) ms = Completed (Ok out)"
  shows "\<exists>xs s'. store_feed (rs_add_message (rt_store R)) s xs = (s', Ok ()) \<and>
     rs_output (rt_store R) s' = Ok out \<and>
     (\<forall>x \<in> set xs. \<exists>m \<in> set ms. Incoming_try_map (from_protocol_msg (rt_msg R)) m = Ok x)"
  using assms
proof (induction ms arbitrary: s)
  case (Cons m ms)
  let ?S = "rt_store R"
  obtain x where x: "Incoming_try_map (from_protocol_msg (rt_msg R)) m = Ok x"
    using Cons.prems by (cases "Incoming_try_map (from_protocol_msg (rt_msg R)) m")
      (simp_all add: process_message_in_progress)
  have step: "foldl (process_message rnd R) (store_step ?S (InProgress s) x) ms = Completed (Ok out)"
    using Cons.prems x by (simp add: process_message_in_progress)
  obtain s1 r where add: "rs_add_message ?S s x = (s1, r)" by fastforce
  then have r: "r = Ok ()" using step by (cases r) (simp_all add: store_step_def)
  show ?case
  proof (cases "rs_wants_more ?S s1")
    case True
    then have "foldl (process_message rnd R) (InProgress s1) ms = Completed (Ok out)"
      using step add r by (simp add: store_step_def)
    from Cons.IH [OF this] show ?thesis using x add r
      by (elim exE) (rule_tac x = "x # xs" in exI, simp)
  next
    case False
    then have "rs_output ?S s1 = Ok out"
      using step add r by (auto simp: store_step_def map_err_eq_iff from_ImproperRoundStore_def split: sum.splits)
    then show ?thesis using x add r by (intro exI [of _ "[x]"]) simp
  qed
qed simp

subsection \<open>Properties\<close>

definition sample_party ::
  "(nat, nat) stream \<Rightarrow> (nat round_input, nat, nat, nat round_msgs, round_input_error, unit, nat,
     unit, unit) mpc_party" where
  "sample_party s = \<lparr>mp_router = sample_router, mp_io = Halves_new s (), mp_runtime = ()\<rparr>"

text \<open>C2: Waiting for a round collects exactly its messages. If the stream delivers, mixed with
  messages of other registered rounds, one message of each other party for a round over
  \<open>RoundInput\<close>, then \<open>complete\<close> resolves with the last of them: it returns these messages ordered by
  party, and has taken nothing beyond that message from the stream.\<close>

theorem complete_collects_round:
  assumes entry: "rounds (mp_router p) (ROUND (rt_msg R)) =
           Some (Some \<lparr>br_type = R, br_state = InProgress s0\<rparr>)"
    and store: "rt_store R = RoundInput_store" and law: "lawful_round_msg valid rnd (rt_msg R)"
    and new: "RoundInput_new i n t = Ret s0" and each: "one_each i n t pre"
    and items: "st_items (incomings (mp_io p)) = map Ok ms @ Ok m # tail"
    and last: "rnd (inc_msg m) = ROUND (rt_msg R)"
    and pre: "map (extract_msg (rt_msg R))
               (filter (\<lambda>m. rnd (inc_msg m) = ROUND (rt_msg R)) (ms @ [m])) = pre"
    and reg: "\<forall>x \<in> set (ms @ [m]). valid (inc_msg x) \<and> rnd (inc_msg x) \<in> dom (rounds (mp_router p))"
  shows "\<exists>p'. MpcParty_complete rnd p R = (p', Ready (Ok (round_output i n pre))) \<and>
           st_items (incomings (mp_io p')) = tail"
proof -
  let ?rt = "mp_router p" and ?c = "st_closed (incomings (mp_io p))"
  define q where "q = map (extract_msg (rt_msg R))
      (filter (\<lambda>m. rnd (inc_msg m) = ROUND (rt_msg R)) ms)"
  have q: "pre = q @ [extract_msg (rt_msg R) m]"
    "map (extract_msg (rt_msg R)) (filter (\<lambda>m. rnd (inc_msg m) = ROUND (rt_msg R)) ms) = q"
    using pre last by (simp_all add: q_def)
  obtain s where s: "rounds (received_all rnd ?rt ms) (ROUND (rt_msg R)) =
      Some (Some \<lparr>br_type = R, br_state = InProgress s\<rparr>)"
    using round_waits_in_router [OF entry store law new _ q(2)] each reg q(1) by auto
  have "rounds (received_all rnd ?rt (ms @ [m])) (ROUND (rt_msg R)) =
      Some (Some \<lparr>br_type = R, br_state = Completed (Ok (round_output i n pre))\<rparr>)"
    using round_completes_through_router [OF entry store law new each, of "ms @ [m]" "[]"] pre reg
    by simp
  then have "rounds (fst (received_msg rnd (received_all rnd ?rt ms) m)) (ROUND (rt_msg R)) =
      Some (Some \<lparr>br_type = R, br_state = Completed (Ok (round_output i n pre))\<rparr>)"
    by (simp add: received_all_append)
  then obtain rt' where "complete_loop rnd R ?c (Ok m # tail) (received_all rnd ?rt ms) =
      (rt', tail, Ready (Ok (round_output i n pre)))"
    using complete_loop_last [of rnd m "received_all rnd ?rt ms" R "Ok (round_output i n pre)" ?c tail]
      reg by (auto simp del: complete_loop.simps)
  then have "complete_loop rnd R ?c (map Ok ms @ Ok m # tail) ?rt =
      (rt', tail, Ready (Ok (round_output i n pre)))"
    using complete_loop_skip [OF _ s, of s ?c "Ok m # tail"] reg by (simp del: complete_loop.simps)
  moreover have "complete_round ?rt R = (?rt, Err R)"
    by (rule complete_round_waiting [OF entry]) simp
  ultimately show ?thesis by (simp add: MpcParty_complete_def items)
qed

lemma sample_party_router [simp]: "mp_router (sample_party s) = sample_router"
  "mp_io (sample_party s) = Halves_new s ()" "incomings (Halves_new s k) = s"
  by (simp_all add: sample_party_def Halves_new_def)

lemma sample_round_type_simps [simp]:
  "rt_store sample_round_type = RoundInput_store" "rt_msg sample_round_type = sample_round_msg"
  "ROUND sample_round_msg = 0" "from_protocol_msg sample_round_msg = Ok"
  "rounds sample_router =
     [0 \<mapsto> Some \<lparr>br_type = sample_round_type, br_state = InProgress sample_store\<rparr>]"
  by (simp_all add: sample_round_type_def sample_round_msg_def sample_router_def)

lemma sample_extract: "extract_msg sample_round_msg m = m"
  by (simp add: extract_msg_def Incoming_map_def)

abbreviation sample_msgs :: "nat incoming list" where
  "sample_msgs \<equiv>
     [sample_incoming 7 2 (Broadcast True) 42, sample_incoming 8 0 (Broadcast False) 40]"

lemma sample_one_each: "one_each 1 3 (Broadcast False) sample_msgs"
  by (auto simp: one_each_def sample_incoming_def u16_less_3)

theorem complete_collects_round_witness:
  "\<exists>p'. MpcParty_complete (\<lambda>_. 0)
      (sample_party \<lparr>st_items = map Ok sample_msgs @ [Err 5], st_closed = True\<rparr>) sample_round_type
    = (p', Ready (Ok (round_output 1 3 sample_msgs))) \<and>
    st_items (incomings (mp_io p')) = [Err 5]"
  by (rule complete_collects_round
        [of _ _ sample_store "\<lambda>_. True" _ _ _ "Broadcast False" _ "[sample_msgs ! 0]"
          "sample_msgs ! 1"])
    (simp_all add: sample_store_new sample_lawful sample_one_each sample_extract)

text \<open>C22: Waiting for a round is not bound to one call or one burst of messages. If \<open>complete\<close> was
  left pending on an open stream, then continuing once more items arrived gives the same
  result, the same router and the same remaining items as if all the items had been there
  from the start.\<close>

theorem complete_is_resumable:
  assumes "MpcParty_complete rnd p R = (p', Pending)"
    and "incomings (mp_io p) = \<lparr>st_items = xs, st_closed = False\<rparr>"
  shows "MpcParty_complete rnd (p\<lparr>mp_io := (mp_io p)\<lparr>incomings :=
             \<lparr>st_items = xs @ zs, st_closed = c\<rparr>\<rparr>\<rparr>) R =
         MpcParty_complete rnd (p'\<lparr>mp_io := (mp_io p')\<lparr>incomings :=
             \<lparr>st_items = zs, st_closed = c\<rparr>\<rparr>\<rparr>) R"
proof -
  obtain w where w: "complete_round (mp_router p) R = (mp_router p, Err w)"
    using assms(1) complete_round_gives_back [of "mp_router p" R]
    by (auto simp: MpcParty_complete_def split: prod.splits sum.splits)
  then have R: "complete_round (mp_router p) R = (mp_router p, Err R)"
    using complete_round_gives_back [OF w] by simp
  obtain rt' where loop: "complete_loop rnd R False xs (mp_router p) = (rt', [], Pending)"
    and p': "p' = p\<lparr>mp_router := rt',
       mp_io := (mp_io p)\<lparr>incomings := \<lparr>st_items = [], st_closed = False\<rparr>\<rparr>\<rparr>"
    using assms R complete_loop_resume [of rnd R xs "mp_router p" _ _ False "[]"]
    by (auto simp: MpcParty_complete_def split: prod.splits)
  have "complete_round rt' R = (rt', Err R)" by (rule complete_loop_pending [OF loop R])
  then show ?thesis
    using complete_loop_resume [OF loop, of c zs] R
    by (simp add: MpcParty_complete_def p' split: prod.splits)
qed

theorem complete_is_resumable_witness:
  "\<exists>p'. MpcParty_complete (\<lambda>_. 0)
      (sample_party \<lparr>st_items = map Ok (take 1 sample_msgs), st_closed = False\<rparr>) sample_round_type
    = (p', Pending) \<and>
    MpcParty_complete (\<lambda>_. 0)
      (sample_party \<lparr>st_items = map Ok (take 1 sample_msgs), st_closed = False\<rparr>
        \<lparr>mp_io := \<lparr>incomings = \<lparr>st_items = map Ok (take 1 sample_msgs) @ [Err 3], st_closed = True\<rparr>,
          outgoings = ()\<rparr>\<rparr>) sample_round_type =
    MpcParty_complete (\<lambda>_. 0) (p'\<lparr>mp_io := (mp_io p')\<lparr>incomings :=
             \<lparr>st_items = [Err 3], st_closed = True\<rparr>\<rparr>\<rparr>) sample_round_type"
proof -
  let ?p = "sample_party \<lparr>st_items = map Ok (take 1 sample_msgs), st_closed = False\<rparr>"
  obtain s where "rounds (received_all (\<lambda>_. 0) sample_router (take 1 sample_msgs)) 0 =
      Some (Some \<lparr>br_type = sample_round_type, br_state = InProgress s\<rparr>)"
    using round_waits_in_router [of sample_router sample_round_type sample_store "\<lambda>_. True" "\<lambda>_. 0"
        1 3 "Broadcast False" "[sample_msgs ! 0]" "sample_msgs ! 1" "take 1 sample_msgs"]
    by (auto simp: sample_store_new sample_lawful sample_one_each sample_extract)
  then have "complete_loop (\<lambda>_. 0) sample_round_type False
        (map Ok (take 1 sample_msgs) @ [] :: (nat + nat incoming) list) sample_router = complete_loop (\<lambda>_. 0) sample_round_type False []
          (received_all (\<lambda>_. 0) sample_router (take 1 sample_msgs))"
    by (intro complete_loop_skip [where s = s and b = "\<lparr>br_type = sample_round_type, br_state = InProgress s\<rparr>"])
      simp_all
  moreover have "complete_round sample_router sample_round_type = (sample_router, Err sample_round_type)"
    by (rule complete_round_waiting [where s = sample_store and
          b = "\<lparr>br_type = sample_round_type, br_state = InProgress sample_store\<rparr>"]) simp_all
  ultimately obtain p' where "MpcParty_complete (\<lambda>_. 0) ?p sample_round_type = (p', Pending)"
    by (simp add: MpcParty_complete_def Let_def)
  moreover from complete_is_resumable [OF this, of _ "[Err 3]" True]
  have "MpcParty_complete (\<lambda>_. 0) (?p\<lparr>mp_io := \<lparr>incomings =
          \<lparr>st_items = map Ok (take 1 sample_msgs) @ [Err 3], st_closed = True\<rparr>,
          outgoings = ()\<rparr>\<rparr>) sample_round_type =
    MpcParty_complete (\<lambda>_. 0) (p'\<lparr>mp_io := (mp_io p')\<lparr>incomings :=
             \<lparr>st_items = [Err 3], st_closed = True\<rparr>\<rparr>\<rparr>) sample_round_type"
    by (simp add: Halves_new_def)
  ultimately show ?thesis by blast
qed

text \<open>The outcomes of \<open>complete\<close> that a correct client can see.\<close>

definition expected_outcome :: "(('pe, 'ioe) complete_round_error + 'o) poll \<Rightarrow> bool" where
  "expected_outcome r \<longleftrightarrow>
     (case r of Pending \<Rightarrow> True | Ready (Ok _) \<Rightarrow> True
      | Ready (Err (Router _)) \<Rightarrow> False | Ready (Err _) \<Rightarrow> True)"

lemma expected_outcome_finished:
  assumes "\<And>e. res = Err e \<Longrightarrow> \<exists>pe. e = ProcessMsg pe"
  shows "expected_outcome (Ready (map_err (map_io_err match_never) res))"
proof (cases res)
  case (Inl e)
  then obtain pe where "e = ProcessMsg pe" using assms by blast
  with Inl show ?thesis by (simp add: expected_outcome_def)
qed (simp add: expected_outcome_def)

lemma complete_loop_reach:
  assumes "router_reach valid rnd rt live" and "live (ROUND (rt_msg R)) = Some R"
    and "\<forall>m. Ok m \<in> set xs \<longrightarrow> valid (inc_msg m) \<and> rnd (inc_msg m) \<in> dom (rounds rt)"
    and "complete_loop rnd R c xs rt = (rt', ys, r)"
  shows "expected_outcome r \<and> (\<exists>live'. router_reach valid rnd rt' live' \<and>
      (r = Pending \<longrightarrow> live' = live) \<and> live(ROUND (rt_msg R) := None) \<subseteq>\<^sub>m live')"
  using assms
proof (induction xs arbitrary: rt)
  case Nil
  then show ?case by (auto simp: expected_outcome_def map_le_def split: if_splits)
next
  case (Cons x xs)
  show ?case
  proof (cases x)
    case (Inl e)
    then show ?thesis using Cons.prems by (auto simp: expected_outcome_def map_le_def)
  next
    case (Inr m)
    then obtain rt1 where rcv: "received_msg rnd rt m = (rt1, Ok ())"
      using Cons.prems(3) received_msg_result [of rnd rt m] by (cases "received_msg rnd rt m") auto
    have reach: "router_reach valid rnd rt1 live"
      using router_reach.recv [OF Cons.prems(1), of m] Cons.prems(3) Inr rcv by simp
    have dom: "dom (rounds rt1) = dom (rounds rt)"
      using dom_received_all [of rnd rt "[m]"] rcv by simp
    show ?thesis
    proof (cases rule: complete_round_live [OF router_reach_inv [OF reach] Cons.prems(2),
        case_names waiting finished])
      case waiting
      then show ?thesis using Cons.IH [OF reach Cons.prems(2)] Cons.prems(3,4) Inr rcv dom by simp
    next
      case (finished res)
      have "router_reach valid rnd rt' (live(ROUND (rt_msg R) := None))"
        using router_reach.finish [OF reach Cons.prems(2) finished(1)] Cons.prems(4) Inr rcv finished(1)
        by simp
      moreover have "expected_outcome r \<and> r \<noteq> Pending"
        using Cons.prems(4) Inr rcv finished(1) expected_outcome_finished [OF finished(3)] by auto
      ultimately show ?thesis by (intro conjI exI [of _ "live(ROUND (rt_msg R) := None)"])
        (simp_all del: fun_upd_apply)
    qed
  qed
qed

text \<open>C21: The engine keeps the router's guarantee. For a client that registered proper rounds and
  still holds the witness of the round, if the stream delivers valid messages of registered
  rounds (or errors), then \<open>complete\<close> is pending, returns the output, or fails with an error of
  the round, of the stream, or at its end - never with a router error - and leaves a router in
  which every other witness can still be used, and this one too if the call is pending.\<close>

theorem complete_never_router_error:
  assumes "router_reach valid rnd (mp_router p) live" and "live (ROUND (rt_msg R)) = Some R"
    and "\<forall>m. Ok m \<in> set (st_items (incomings (mp_io p))) \<longrightarrow>
           valid (inc_msg m) \<and> rnd (inc_msg m) \<in> dom (rounds (mp_router p))"
    and "MpcParty_complete rnd p R = (p', r)"
  shows "expected_outcome r \<and> (\<exists>live'. router_reach valid rnd (mp_router p') live' \<and>
      (r = Pending \<longrightarrow> live' = live) \<and> live(ROUND (rt_msg R) := None) \<subseteq>\<^sub>m live')"
proof (cases rule: complete_round_live [OF router_reach_inv [OF assms(1)] assms(2),
        case_names waiting finished])
  case waiting
  obtain rt' ys r' where loop: "complete_loop rnd R (st_closed (incomings (mp_io p)))
      (st_items (incomings (mp_io p))) (mp_router p) = (rt', ys, r')"
    by (cases "complete_loop rnd R (st_closed (incomings (mp_io p)))
      (st_items (incomings (mp_io p))) (mp_router p)")
  then have "r' = r" "mp_router p' = rt'"
    using assms(4) waiting by (auto simp: MpcParty_complete_def Let_def)
  then show ?thesis using complete_loop_reach [OF assms(1-3) loop] by simp
next
  case (finished res)
  have "router_reach valid rnd (mp_router p') (live(ROUND (rt_msg R) := None))"
    using router_reach.finish [OF assms(1,2) finished(1)] assms(4) finished(1)
    by (auto simp: MpcParty_complete_def)
  moreover have "expected_outcome r \<and> r \<noteq> Pending"
    using assms(4) finished(1) expected_outcome_finished [OF finished(3)]
    by (auto simp: MpcParty_complete_def)
  ultimately show ?thesis by (intro conjI exI [of _ "live(ROUND (rt_msg R) := None)"])
        (simp_all del: fun_upd_apply)
qed

theorem complete_never_router_error_witness:
  "\<exists>p' r. MpcParty_complete (\<lambda>_. 0)
      (sample_party \<lparr>st_items = map Ok sample_msgs @ [Err 5], st_closed = True\<rparr>) sample_round_type
     = (p', r) \<and> expected_outcome r \<and>
     (\<exists>live'. router_reach (\<lambda>_. True) (\<lambda>_. 0) (mp_router p') live')"
proof -
  let ?p = "sample_party \<lparr>st_items = map Ok sample_msgs @ [Err 5], st_closed = True\<rparr>"
  obtain p' r where run: "MpcParty_complete (\<lambda>_. 0) ?p sample_round_type = (p', r)"
    by (cases "MpcParty_complete (\<lambda>_. 0) ?p sample_round_type")
  have "router_reach (\<lambda>_. True) (\<lambda>_. 0) (mp_router ?p) [0 \<mapsto> sample_round_type]"
    using sample_reach by simp
  from complete_never_router_error [OF this _ _ run] run show ?thesis by auto
qed

text \<open>C28: Failures while waiting are reported as they happen. If the round is still in progress
  after the messages received so far, then \<open>complete\<close> is pending on an open stream, reports
  \<open>UnexpectedEof\<close> at its end, and stops at the first stream error or message of an unregistered
  round, leaving the later items in the stream.\<close>

theorem complete_reports_failures:
  assumes "incomings (mp_io p) = \<lparr>st_items = map Ok ms @ rest, st_closed = closed\<rparr>"
    and "\<forall>m \<in> set ms. rnd (inc_msg m) \<in> dom (rounds (mp_router p))"
    and "rounds (received_all rnd (mp_router p) ms) (ROUND (rt_msg R)) = Some (Some b)"
    and "br_state b = InProgress s"
    and "rest = [] \<or> (\<exists>e tl. rest = Err e # tl) \<or>
         (\<exists>m tl. rest = Ok m # tl \<and> rounds (mp_router p) (rnd (inc_msg m)) = None)"
  shows "snd (MpcParty_complete rnd p R) =
           (case rest of
              [] \<Rightarrow> if closed then Ready (Err UnexpectedEof) else Pending
            | Err e # _ \<Rightarrow> Ready (Err (Io e))
            | Ok m # _ \<Rightarrow> Ready (Err (from_UnregisteredRound
                (UnregisteredRound (rnd (inc_msg m)) False)))) \<and>
         st_items (incomings (mp_io (fst (MpcParty_complete rnd p R)))) = tl rest \<and>
         mp_router (fst (MpcParty_complete rnd p R)) = received_all rnd (mp_router p) ms"
proof -
  let ?rt = "received_all rnd (mp_router p) ms"
  obtain b0 s0 where b0: "rounds (mp_router p) (ROUND (rt_msg R)) = Some (Some b0)"
    "br_state b0 = InProgress s0"
    using in_progress_before [OF assms(3,4)] .
  have none: "rounds ?rt k = None \<longleftrightarrow> rounds (mp_router p) k = None" for k
    using dom_received_all [of rnd "mp_router p" ms] by (metis domIff)
  have "snd (MpcParty_complete rnd p R) = snd (snd (complete_loop rnd R closed rest ?rt)) \<and>
    st_items (incomings (mp_io (fst (MpcParty_complete rnd p R)))) =
      fst (snd (complete_loop rnd R closed rest ?rt)) \<and>
    mp_router (fst (MpcParty_complete rnd p R)) = fst (complete_loop rnd R closed rest ?rt)"
    using complete_round_waiting [OF b0] assms(1)
    by (simp add: MpcParty_complete_def complete_loop_skip [OF assms(2-4)] split: prod.splits)
  moreover have "complete_loop rnd R closed rest ?rt = (?rt, tl rest, (case rest of
              [] \<Rightarrow> if closed then Ready (Err UnexpectedEof) else Pending
            | Err e # _ \<Rightarrow> Ready (Err (Io e))
            | Ok m # _ \<Rightarrow> Ready (Err (from_UnregisteredRound
                (UnregisteredRound (rnd (inc_msg m)) False)))))"
    using assms(5) by (auto simp: received_msg_def Let_def none [THEN iffD2])
  ultimately show ?thesis by simp
qed

theorem complete_reports_failures_witness:
  "snd (MpcParty_complete (\<lambda>_. 0)
      (sample_party \<lparr>st_items = [Err 4], st_closed = False\<rparr>) sample_round_type) =
     Ready (Err (Io 4)) \<and>
   snd (MpcParty_complete (\<lambda>_. 0)
      (sample_party \<lparr>st_items = [], st_closed = True\<rparr>) sample_round_type) =
     Ready (Err UnexpectedEof)"
  using complete_reports_failures [of "sample_party \<lparr>st_items = [Err 4], st_closed = False\<rparr>" "[]"
      "[Err 4]" False "\<lambda>_. 0" sample_round_type
      "\<lparr>br_type = sample_round_type, br_state = InProgress sample_store\<rparr>" sample_store]
    complete_reports_failures [of "sample_party \<lparr>st_items = [], st_closed = True\<rparr>" "[]"
      "[]" True "\<lambda>_. 0" sample_round_type
      "\<lparr>br_type = sample_round_type, br_state = InProgress sample_store\<rparr>" sample_store]
  by (simp del: complete_loop.simps)

end
