(* ===== verification/Shared_State.thy ===== *)
theory Shared_State
  imports Mpc_Party
begin

section \<open>State shared by a protocol and its executor\<close>

text \<open>
  \<open>round-based/src/state_machine/shared_state.rs\<close>, \<open>delivery.rs\<close> and \<open>runtime.rs\<close>. The protocol, which
  runs as a future, and the state machine that executes it share one \<open>SharedState\<close> behind an
  \<open>Rc<RefCell<_>>\<close>: every operation borrows it for its own duration only, so it is passed along
  here. The type guard \<open>CanSchedule\<close>, made by \<open>can_schedule\<close> only, is the state in which nothing is
  scheduled; the three methods of the guard are functions of that state.
\<close>

record 'm shared_state =
  incoming_msg :: "'m incoming option"
  outgoing_msg :: "'m outgoing option"
  wants_recv_msg :: bool
  wants_send_msg :: bool
  yielded :: bool

definition SharedState_new :: "'m shared_state" where
  "SharedState_new =
     \<lparr>incoming_msg = None, outgoing_msg = None, wants_recv_msg = False, wants_send_msg = False,
      yielded = False\<rparr>"

subsection \<open>Operations of \<open>SharedStateRef\<close>\<close>

definition can_schedule :: "'m shared_state \<Rightarrow> 'm shared_state poll" where
  "can_schedule s =
     (if \<not> wants_recv_msg s \<and> \<not> wants_send_msg s \<and> \<not> yielded s then Ready s else Pending)"

definition protocol_saves_msg_to_be_sent ::
  "'m shared_state \<Rightarrow> 'm outgoing \<Rightarrow> 'm shared_state \<times> ('m outgoing + unit)" where
  "protocol_saves_msg_to_be_sent s msg =
     (if outgoing_msg s \<noteq> None then (s, Err msg) else (s\<lparr>outgoing_msg := Some msg\<rparr>, Ok ()))"

text \<open>\<open>debug_assert!\<close> holds (checked builds panic otherwise).\<close>

definition takes_outgoing_debug_assert :: "'m shared_state \<Rightarrow> bool" where
  "takes_outgoing_debug_assert s \<longleftrightarrow> wants_send_msg s \<longrightarrow> outgoing_msg s \<noteq> None"

definition executor_takes_outgoing_msg ::
  "'m shared_state \<Rightarrow> 'm shared_state \<times> 'm outgoing option" where
  "executor_takes_outgoing_msg s =
     (if wants_send_msg s
      then (s\<lparr>wants_send_msg := False, outgoing_msg := None\<rparr>, outgoing_msg s)
      else (s, None))"

definition protocol_wants_more_messages :: "'m shared_state \<Rightarrow> bool" where
  "protocol_wants_more_messages s = wants_recv_msg s"

definition executor_reads_and_resets_yielded_flag :: "'m shared_state \<Rightarrow> 'm shared_state \<times> bool" where
  "executor_reads_and_resets_yielded_flag s = (s\<lparr>yielded := False\<rparr>, yielded s)"

definition executor_received_msg ::
  "'m shared_state \<Rightarrow> 'm incoming \<Rightarrow> 'm shared_state \<times> ('m incoming + unit)" where
  "executor_received_msg s msg =
     (if incoming_msg s \<noteq> None then (s, Err msg)
      else (s\<lparr>incoming_msg := Some msg, wants_recv_msg := False\<rparr>, Ok ()))"

subsection \<open>Operations of \<open>CanSchedule\<close>\<close>

definition protocol_flushes_outgoing_msg :: "'m shared_state \<Rightarrow> 'm shared_state \<times> unit poll" where
  "protocol_flushes_outgoing_msg s =
     (if outgoing_msg s \<noteq> None then (s\<lparr>wants_send_msg := True\<rparr>, Pending) else (s, Ready ()))"

definition protocol_needs_one_more_msg ::
  "'m shared_state \<Rightarrow> 'm shared_state \<times> 'm incoming poll" where
  "protocol_needs_one_more_msg s =
     (case incoming_msg s of
        Some msg \<Rightarrow> (s\<lparr>incoming_msg := None\<rparr>, Ready msg)
      | None \<Rightarrow> (s\<lparr>wants_recv_msg := True\<rparr>, Pending))"

definition protocol_yields :: "'m shared_state \<Rightarrow> 'm shared_state" where
  "protocol_yields s = s\<lparr>yielded := True\<rparr>"

subsection \<open>\<open>Delivery\<close>: stream and sink over the shared state\<close>

datatype delivery_err = DeliveryErr_NotReady

definition poll_next ::
  "'m shared_state \<Rightarrow> 'm shared_state \<times> (delivery_err + 'm incoming) option poll" where
  "poll_next s =
     (case can_schedule s of
        Pending \<Rightarrow> (s, Pending)
      | Ready g \<Rightarrow>
          (case protocol_needs_one_more_msg g of
             (s', Ready msg) \<Rightarrow> (s', Ready (Some (Ok msg)))
           | (s', Pending) \<Rightarrow> (s', Pending)))"

definition poll_ready :: "'m shared_state \<Rightarrow> 'm shared_state \<times> (delivery_err + unit) poll" where
  "poll_ready s =
     (case can_schedule s of
        Pending \<Rightarrow> (s, Pending)
      | Ready g \<Rightarrow>
          (case protocol_flushes_outgoing_msg g of
             (s', Ready u) \<Rightarrow> (s', Ready (Ok u))
           | (s', Pending) \<Rightarrow> (s', Pending)))"

definition start_send ::
  "'m shared_state \<Rightarrow> 'm outgoing \<Rightarrow> 'm shared_state \<times> (delivery_err + unit)" where
  "start_send s msg =
     (case protocol_saves_msg_to_be_sent s msg of
        (s', r) \<Rightarrow> (s', map_err (\<lambda>_. DeliveryErr_NotReady) r))"

definition poll_flush :: "'m shared_state \<Rightarrow> 'm shared_state \<times> (delivery_err + unit) poll" where
  "poll_flush s =
     (case can_schedule s of
        Pending \<Rightarrow> (s, Pending)
      | Ready g \<Rightarrow>
          (case protocol_flushes_outgoing_msg g of
             (s', Ready u) \<Rightarrow> (s', Ready (Ok u))
           | (s', Pending) \<Rightarrow> (s', Pending)))"

definition poll_close :: "'m shared_state \<Rightarrow> 'm shared_state \<times> (delivery_err + unit) poll" where
  "poll_close s = (s, Ready (Ok ()))"

subsection \<open>\<open>Runtime\<close>: the future of \<open>yield_now\<close>\<close>

text \<open>The future's own field \<open>yielded\<close> is the argument; a poll returns its new value.\<close>

definition Runtime_yield_now :: bool where
  "Runtime_yield_now = False"

definition sm_YieldNow_poll ::
  "bool \<Rightarrow> 'm shared_state \<Rightarrow> bool \<times> 'm shared_state \<times> unit poll" where
  "sm_YieldNow_poll has_yielded s =
     (if \<not> has_yielded then
        (case can_schedule s of
           Pending \<Rightarrow> (has_yielded, s, Pending)
         | Ready g \<Rightarrow> (True, protocol_yields g, Pending))
      else (has_yielded, s, Ready ()))"

lemmas shared_op_defs [sm_defs] =
  can_schedule_def protocol_saves_msg_to_be_sent_def executor_takes_outgoing_msg_def
  protocol_wants_more_messages_def executor_reads_and_resets_yielded_flag_def
  executor_received_msg_def protocol_flushes_outgoing_msg_def protocol_needs_one_more_msg_def
  protocol_yields_def poll_next_def poll_ready_def start_send_def poll_flush_def poll_close_def
  sm_YieldNow_poll_def

subsection \<open>Invariant\<close>

text \<open>
  At most one task is scheduled; a scheduled flush has a message to send; a scheduled receive
  has no message to take.
\<close>

definition scheduled :: "'m shared_state \<Rightarrow> nat" where
  "scheduled s = of_bool (wants_recv_msg s) + of_bool (wants_send_msg s) + of_bool (yielded s)"

definition shared_inv :: "'m shared_state \<Rightarrow> bool" where
  "shared_inv s \<longleftrightarrow> scheduled s \<le> 1 \<and> takes_outgoing_debug_assert s \<and>
     (wants_recv_msg s \<longrightarrow> incoming_msg s = None)"

lemmas shared_inv_defs = shared_inv_def scheduled_def takes_outgoing_debug_assert_def

lemma shared_inv_new [simp]: "shared_inv SharedState_new"
  by (simp add: shared_inv_defs SharedState_new_def)

lemma can_schedule_iff: "can_schedule s = Ready s \<longleftrightarrow> scheduled s = 0"
  "can_schedule s = Pending \<longleftrightarrow> 0 < scheduled s"
  by (auto simp: can_schedule_def scheduled_def)

text \<open>
  One call on the shared state, by the protocol through its delivery and runtime or by the
  executor.
\<close>

inductive shared_step :: "'m shared_state \<Rightarrow> 'm shared_state \<Rightarrow> bool" where
  step_next: "poll_next s = (s', r) \<Longrightarrow> shared_step s s'"
| step_ready: "poll_ready s = (s', r) \<Longrightarrow> shared_step s s'"
| step_send: "start_send s m = (s', r) \<Longrightarrow> shared_step s s'"
| step_flush: "poll_flush s = (s', r) \<Longrightarrow> shared_step s s'"
| step_close: "poll_close s = (s', r) \<Longrightarrow> shared_step s s'"
| step_yield: "sm_YieldNow_poll y s = (y', s', r) \<Longrightarrow> shared_step s s'"
| step_take: "executor_takes_outgoing_msg s = (s', r) \<Longrightarrow> shared_step s s'"
| step_reset: "executor_reads_and_resets_yielded_flag s = (s', r) \<Longrightarrow> shared_step s s'"
| step_recv: "executor_received_msg s m = (s', r) \<Longrightarrow> shared_step s s'"

inductive_cases shared_stepE: "shared_step s s'"

lemma shared_step_inv: "shared_step s s' \<Longrightarrow> shared_inv s \<Longrightarrow> shared_inv s'"
  by (induction rule: shared_step.induct)
    (auto simp: sm_defs shared_inv_defs split: if_splits option.splits)

end
