(* ===== verification/State_Machine.thy ===== *)
theory State_Machine
  imports Shared_State
begin

section \<open>Executing a protocol as a state machine\<close>

text \<open>
  \<open>round-based/src/state_machine/mod.rs\<close>. The future that \<open>wrap_protocol\<close> executes is a parameter:
  a type \<open>'f\<close> of its suspended states and a function \<open>resume\<close> that gives what it does when polled.
  A protocol can act on the shared state only through the methods of its delivery and its
  runtime, so a poll is a tree of such calls that ends with the output or with the state in which
  the future suspends.
\<close>

datatype 'm call =
  CallNext | CallReady | CallSend "'m outgoing" | CallFlush | CallClose | CallYield bool

datatype 'm reply =
  ReplyNext "(delivery_err + 'm incoming) option poll"
| ReplySink "(delivery_err + unit) poll"
| ReplySend "delivery_err + unit"
| ReplyYield bool "unit poll"

fun perform_call :: "'m shared_state \<Rightarrow> 'm call \<Rightarrow> 'm shared_state \<times> 'm reply" where
  "perform_call s CallNext = map_prod id ReplyNext (poll_next s)"
| "perform_call s CallReady = map_prod id ReplySink (poll_ready s)"
| "perform_call s (CallSend m) = map_prod id ReplySend (start_send s m)"
| "perform_call s CallFlush = map_prod id ReplySink (poll_flush s)"
| "perform_call s CallClose = map_prod id ReplySink (poll_close s)"
| "perform_call s (CallYield y) =
     (case sm_YieldNow_poll y s of (y', s', r) \<Rightarrow> (s', ReplyYield y' r))"

datatype ('m, 'o, 'f) act =
  Finish 'o
| Suspend 'f
| Call "'m call" "'m reply \<Rightarrow> ('m, 'o, 'f) act"

text \<open>One poll: its effect on the shared state, the calls it made, and how it ended.\<close>

primrec run_act ::
  "('m, 'o, 'f) act \<Rightarrow> 'm shared_state
     \<Rightarrow> 'm shared_state \<times> ('m call \<times> 'm reply) list \<times> ('f + 'o)" where
  "run_act (Finish out) s = (s, [], Ok out)"
| "run_act (Suspend f) s = (s, [], Err f)"
| "run_act (Call c k) s =
     (case perform_call s c of (s', r) \<Rightarrow>
        (case run_act (k r) s' of (s'', tr, e) \<Rightarrow> (s'', (c, r) # tr, e)))"

definition future_poll ::
  "('f \<Rightarrow> ('m, 'o, 'f) act) \<Rightarrow> 'f \<Rightarrow> 'm shared_state
     \<Rightarrow> 'f \<times> 'm shared_state \<times> ('m call \<times> 'm reply) list \<times> 'o poll" where
  "future_poll resume f s =
     (case run_act (resume f) s of
        (s', tr, Ok out) \<Rightarrow> (f, s', tr, Ready out)
      | (s', tr, Err f') \<Rightarrow> (f', s', tr, Pending))"

subsection \<open>\<open>StateMachine\<close>\<close>

datatype sm_reason = Exhausted | PollingUnknownFuture

datatype ('o, 'm) proceed_result =
  SendMsg "'m outgoing"
| NeedsOneMoreMessage
| Output 'o
| Yielded
| ProceedError sm_reason

record ('m, 'f) state_machine_impl =
  shared :: "'m shared_state"
  exhausted :: bool
  future :: 'f

definition wrap_protocol :: "'f \<Rightarrow> ('m, 'f) state_machine_impl" where
  "wrap_protocol f = \<lparr>shared = SharedState_new, exhausted = False, future = f\<rparr>"

text \<open>The trace of the calls the future made is kept beside the result for the statements below.\<close>

definition proceed_traced ::
  "('f \<Rightarrow> ('m, 'o, 'f) act) \<Rightarrow> ('m, 'f) state_machine_impl
     \<Rightarrow> ('m, 'f) state_machine_impl \<times> ('m call \<times> 'm reply) list \<times> ('o, 'm) proceed_result" where
  "proceed_traced resume self =
     (if exhausted self then (self, [], ProceedError Exhausted)
      else
        (case future_poll resume (future self) (shared self) of
           (f, s, tr, Ready out) \<Rightarrow>
             (self\<lparr>future := f, shared := s, exhausted := True\<rparr>, tr, Output out)
         | (f, s, tr, Pending) \<Rightarrow>
             (case executor_takes_outgoing_msg s of
                (s1, Some m) \<Rightarrow> (self\<lparr>future := f, shared := s1\<rparr>, tr, SendMsg m)
              | (s1, None) \<Rightarrow>
                  if protocol_wants_more_messages s1
                  then (self\<lparr>future := f, shared := s1\<rparr>, tr, NeedsOneMoreMessage)
                  else
                    (case executor_reads_and_resets_yielded_flag s1 of
                       (s2, y) \<Rightarrow>
                         (self\<lparr>future := f, shared := s2\<rparr>, tr,
                          if y then Yielded else ProceedError PollingUnknownFuture)))))"

definition proceed ::
  "('f \<Rightarrow> ('m, 'o, 'f) act) \<Rightarrow> ('m, 'f) state_machine_impl
     \<Rightarrow> ('m, 'f) state_machine_impl \<times> ('o, 'm) proceed_result" where
  "proceed resume self = (case proceed_traced resume self of (self', _, r) \<Rightarrow> (self', r))"

definition sm_received_msg ::
  "('m, 'f) state_machine_impl \<Rightarrow> 'm incoming
     \<Rightarrow> ('m, 'f) state_machine_impl \<times> ('m incoming + unit)" where
  "sm_received_msg self msg =
     (case executor_received_msg (shared self) msg of (s, r) \<Rightarrow> (self\<lparr>shared := s\<rparr>, r))"

subsection \<open>What a poll does to the shared state\<close>

fun reply_pending :: "'m reply \<Rightarrow> bool" where
  "reply_pending (ReplyNext r) \<longleftrightarrow> r = Pending"
| "reply_pending (ReplySink r) \<longleftrightarrow> r = Pending"
| "reply_pending (ReplySend r) \<longleftrightarrow> False"
| "reply_pending (ReplyYield y r) \<longleftrightarrow> r = Pending"

text \<open>The messages the sink accepted and the messages the stream delivered, in a trace of calls.\<close>

fun accepted :: "('m call \<times> 'm reply) list \<Rightarrow> 'm outgoing list" where
  "accepted ((CallSend m, ReplySend (Ok _)) # tr) = m # accepted tr"
| "accepted (_ # tr) = accepted tr"
| "accepted [] = []"

fun delivered :: "('m call \<times> 'm reply) list \<Rightarrow> 'm incoming list" where
  "delivered ((_, ReplyNext (Ready (Some (Ok m)))) # tr) = m # delivered tr"
| "delivered (_ # tr) = delivered tr"
| "delivered [] = []"

abbreviation slot :: "'a option \<Rightarrow> 'a list" where
  "slot x \<equiv> (case x of None \<Rightarrow> [] | Some y \<Rightarrow> [y])"

lemma perform_call_inv: "perform_call s c = (s', r) \<Longrightarrow> shared_inv s \<Longrightarrow> shared_inv s'"
  by (cases c) (auto simp: map_prod_def intro: shared_step_inv shared_step.intros split: prod.splits)

lemma perform_call_scheduled:
  "perform_call s c = (s', r) \<Longrightarrow> scheduled s \<le> scheduled s' \<and> (reply_pending r \<longrightarrow> 0 < scheduled s')"
  by (cases c) (auto simp: sm_defs scheduled_def split: if_splits option.splits)

lemma perform_call_slots:
  assumes "perform_call s c = (s', r)"
  shows "slot (outgoing_msg s) @ accepted [(c, r)] = slot (outgoing_msg s')"
    and "slot (incoming_msg s) = delivered [(c, r)] @ slot (incoming_msg s')"
  using assms by (cases c; auto simp: sm_defs split: if_splits option.splits)+

lemma accepted_Cons: "accepted (x # tr) = accepted [x] @ accepted tr"
  by (induction "x # tr" rule: accepted.induct) auto

lemma delivered_Cons: "delivered (x # tr) = delivered [x] @ delivered tr"
  by (induction "x # tr" rule: delivered.induct) auto

lemma run_act_slots:
  assumes "run_act a s = (s', tr, e)"
  shows "slot (outgoing_msg s) @ accepted tr = slot (outgoing_msg s') \<and>
         slot (incoming_msg s) = delivered tr @ slot (incoming_msg s')"
  using assms
proof (induction a arbitrary: s tr)
  case (Call c k)
  obtain s1 r tr1 where c: "perform_call s c = (s1, r)" and k: "run_act (k r) s1 = (s', tr1, e)"
    and tr: "tr = (c, r) # tr1"
    using Call.prems by (auto split: prod.splits)
  show ?case
    using Call.IH [OF _ k] perform_call_slots [OF c]
    unfolding tr accepted_Cons [of _ tr1] delivered_Cons [of _ tr1] by (metis append_assoc rangeI)
qed auto

lemma run_act_inv: "run_act a s = (s', tr, e) \<Longrightarrow> shared_inv s \<Longrightarrow> shared_inv s'"
  by (induction a arbitrary: s tr)
    (auto split: prod.splits dest: perform_call_inv, metis perform_call_inv rangeI)

subsection \<open>Futures that await only what the executor provides\<close>

text \<open>
  The documentation of \<open>wrap_protocol\<close> allows a protocol to await only the futures of its
  \<open>MpcParty\<close>: a poll suspends only after one of its calls was pending. The locale states this
  contract of the client's future; \<open>ok\<close> holds of the states it can be suspended in.
\<close>

fun reply_for :: "'m call \<Rightarrow> 'm reply \<Rightarrow> bool" where
  "reply_for CallNext (ReplyNext _) \<longleftrightarrow> True"
| "reply_for CallReady (ReplySink _) \<longleftrightarrow> True"
| "reply_for (CallSend _) (ReplySend _) \<longleftrightarrow> True"
| "reply_for CallFlush (ReplySink _) \<longleftrightarrow> True"
| "reply_for CallClose (ReplySink _) \<longleftrightarrow> True"
| "reply_for (CallYield _) (ReplyYield _ _) \<longleftrightarrow> True"
| "reply_for _ _ \<longleftrightarrow> False"

lemma perform_call_reply: "perform_call s c = (s', r) \<Longrightarrow> reply_for c r"
  by (cases c) (auto simp: map_prod_def split: prod.splits)

primrec awaits_api :: "('f \<Rightarrow> bool) \<Rightarrow> bool \<Rightarrow> ('m, 'o, 'f) act \<Rightarrow> bool" where
  "awaits_api ok seen (Finish out) \<longleftrightarrow> True"
| "awaits_api ok seen (Suspend f) \<longleftrightarrow> seen \<and> ok f"
| "awaits_api ok seen (Call c k) \<longleftrightarrow>
     (\<forall>r. reply_for c r \<longrightarrow> awaits_api ok (seen \<or> reply_pending r) (k r))"

locale cooperative_future =
  fixes resume :: "'f \<Rightarrow> ('m, 'o, 'f) act" and ok :: "'f \<Rightarrow> bool"
  assumes awaits: "ok f \<Longrightarrow> awaits_api ok False (resume f)"
begin

lemma suspended_act:
  assumes "run_act a s = (s', tr, Err f)" and "awaits_api ok seen a" and "seen \<longrightarrow> 0 < scheduled s"
  shows "0 < scheduled s' \<and> ok f"
  using assms
proof (induction a arbitrary: s tr seen)
  case (Call c k)
  obtain s1 r tr1 where c: "perform_call s c = (s1, r)" and k: "run_act (k r) s1 = (s', tr1, Err f)"
    using Call.prems(1) by (auto split: prod.splits)
  show ?case
  proof (rule Call.IH [OF _ k])
    show "awaits_api ok (seen \<or> reply_pending r) (k r)"
      using Call.prems(2) perform_call_reply [OF c] by simp
    show "seen \<or> reply_pending r \<longrightarrow> 0 < scheduled s1"
      using perform_call_scheduled [OF c] Call.prems(3) by auto
  qed simp
qed simp_all

lemma suspended_poll:
  assumes "future_poll resume f s = (f', s', tr, Pending)" and "ok f"
  shows "0 < scheduled s' \<and> ok f'"
proof -
  have "run_act (resume f) s = (s', tr, Err f')"
    using assms(1) by (auto simp: future_poll_def split: prod.splits sum.splits)
  from suspended_act [OF this awaits [OF assms(2)]] show ?thesis by simp
qed

end

lemma future_poll_inv:
  assumes "future_poll resume f s = (f', s', tr, r)" and "shared_inv s"
  shows "shared_inv s'" and "slot (outgoing_msg s) @ accepted tr = slot (outgoing_msg s')"
    and "slot (incoming_msg s) = delivered tr @ slot (incoming_msg s')"
proof -
  obtain e where e: "run_act (resume f) s = (s', tr, e)"
    using assms(1) by (auto simp: future_poll_def split: prod.splits sum.splits)
  show "shared_inv s'" by (rule run_act_inv [OF e assms(2)])
  show "slot (outgoing_msg s) @ accepted tr = slot (outgoing_msg s')"
    "slot (incoming_msg s) = delivered tr @ slot (incoming_msg s')"
    using run_act_slots [OF e] by simp_all
qed

text \<open>The ways in which \<open>proceed\<close> ends, with the shared state it leaves.\<close>

lemma proceed_traced_cases:
  assumes "proceed_traced resume sm = (sm', tr, r)" and "shared_inv (shared sm)"
  obtains (stopped) "exhausted sm" "sm' = sm" "tr = []" "r = ProceedError Exhausted"
  | (finished) f s out where "\<not> exhausted sm"
      "future_poll resume (future sm) (shared sm) = (f, s, tr, Ready out)" "r = Output out"
      "shared sm' = s" "exhausted sm'" "future sm' = f"
  | (send) f s m where "\<not> exhausted sm"
      "future_poll resume (future sm) (shared sm) = (f, s, tr, Pending)" "wants_send_msg s"
      "outgoing_msg s = Some m" "r = SendMsg m" "future sm' = f" "\<not> exhausted sm'"
      "shared sm' = s\<lparr>wants_send_msg := False, outgoing_msg := None\<rparr>"
  | (recv) f s where "\<not> exhausted sm"
      "future_poll resume (future sm) (shared sm) = (f, s, tr, Pending)" "wants_recv_msg s"
      "r = NeedsOneMoreMessage" "future sm' = f" "\<not> exhausted sm'" "shared sm' = s"
  | (yield) f s where "\<not> exhausted sm"
      "future_poll resume (future sm) (shared sm) = (f, s, tr, Pending)" "yielded s"
      "r = Yielded" "future sm' = f" "\<not> exhausted sm'" "shared sm' = s\<lparr>yielded := False\<rparr>"
  | (unknown) f s where "\<not> exhausted sm"
      "future_poll resume (future sm) (shared sm) = (f, s, tr, Pending)" "scheduled s = 0"
      "r = ProceedError PollingUnknownFuture" "future sm' = f" "\<not> exhausted sm'" "shared sm' = s"
proof (cases "exhausted sm")
  case True
  then have "sm' = sm" "tr = []" "r = ProceedError Exhausted"
    using assms(1) by (simp_all add: proceed_traced_def)
  then show thesis using True that(1) by simp
next
  case False
  obtain f s tr' p where poll: "future_poll resume (future sm) (shared sm) = (f, s, tr', p)"
    by (cases "future_poll resume (future sm) (shared sm)")
  note inv = future_poll_inv(1) [OF poll assms(2)]
  show thesis
  proof (cases p)
    case (Ready out)
    then show thesis using assms(1) False poll that(2) by (auto simp: proceed_traced_def)
  next
    case Pending
    consider "wants_send_msg s" | "\<not> wants_send_msg s" "wants_recv_msg s"
      | "\<not> wants_send_msg s" "\<not> wants_recv_msg s" "yielded s" | "scheduled s = 0"
      by (auto simp: scheduled_def)
    then show thesis
    proof cases
      case 1
      then obtain m where "outgoing_msg s = Some m"
        using inv by (auto simp: shared_inv_defs)
      then show thesis
        using 1 assms(1) False poll Pending that(3) by (auto simp: proceed_traced_def sm_defs)
    next
      case 2
      then show thesis
        using assms(1) False poll Pending that(4) by (auto simp: proceed_traced_def sm_defs)
    next
      case 3
      then show thesis
        using assms(1) False poll Pending that(5) by (auto simp: proceed_traced_def sm_defs)
    next
      case 4
      then show thesis
        using assms(1) False poll Pending that(6)
        by (auto simp: proceed_traced_def sm_defs scheduled_def)
    qed
  qed
qed

subsection \<open>Runs of the state machine\<close>

text \<open>
  Any sequence of \<open>proceed\<close> and \<open>received_msg\<close> calls on a wrapped protocol, in any order: the
  messages the machine accepted, the messages it asked to send, and the calls of the protocol.
\<close>

inductive sm_run ::
  "('f \<Rightarrow> ('m, 'o, 'f) act) \<Rightarrow> 'f \<Rightarrow> ('m, 'f) state_machine_impl \<Rightarrow> 'm incoming list
     \<Rightarrow> 'm outgoing list \<Rightarrow> ('m call \<times> 'm reply) list \<Rightarrow> bool" for resume f where
  run_start: "sm_run resume f (wrap_protocol f) [] [] []"
| run_proceed: "sm_run resume f sm ins outs tr \<Longrightarrow> proceed_traced resume sm = (sm', tr', r) \<Longrightarrow>
    sm_run resume f sm' ins (outs @ (case r of SendMsg m \<Rightarrow> [m] | _ \<Rightarrow> [])) (tr @ tr')"
| run_recv: "sm_run resume f sm ins outs tr \<Longrightarrow> sm_received_msg sm m = (sm', r) \<Longrightarrow>
    sm_run resume f sm' (ins @ (if is_ok r then [m] else [])) outs tr"

lemma accepted_append [simp]: "accepted (xs @ ys) = accepted xs @ accepted ys"
proof (induction xs)
  case (Cons x xs)
  then show ?case using accepted_Cons [of x "xs @ ys"] accepted_Cons [of x xs] by simp
qed simp

lemma delivered_append [simp]: "delivered (xs @ ys) = delivered xs @ delivered ys"
proof (induction xs)
  case (Cons x xs)
  then show ?case using delivered_Cons [of x "xs @ ys"] delivered_Cons [of x xs] by simp
qed simp

lemma received_msg_slots:
  assumes "sm_received_msg sm m = (sm', r)" and "shared_inv (shared sm)"
  shows "shared_inv (shared sm')" and "outgoing_msg (shared sm') = outgoing_msg (shared sm)"
    and "slot (incoming_msg (shared sm')) =
           slot (incoming_msg (shared sm)) @ (if is_ok r then [m] else [])"
  using assms
  by (auto simp: sm_received_msg_def executor_received_msg_def shared_inv_defs split: if_splits)

lemma proceed_slots:
  assumes "proceed_traced resume sm = (sm', tr, r)" and "shared_inv (shared sm)"
  shows "shared_inv (shared sm') \<and>
    slot (outgoing_msg (shared sm)) @ accepted tr =
      (case r of SendMsg m \<Rightarrow> [m] | _ \<Rightarrow> []) @ slot (outgoing_msg (shared sm')) \<and>
    slot (incoming_msg (shared sm)) = delivered tr @ slot (incoming_msg (shared sm'))"
  using assms
proof (cases rule: proceed_traced_cases)
  case (finished f s out)
  then show ?thesis using future_poll_inv [OF finished(2) assms(2)] by simp
next
  case (send f s m)
  then show ?thesis
    using future_poll_inv [OF send(2) assms(2)] by (auto simp: shared_inv_defs)
next
  case (recv f s)
  then show ?thesis using future_poll_inv [OF recv(2) assms(2)] by simp
next
  case (yield f s)
  then show ?thesis using future_poll_inv [OF yield(2) assms(2)] by (auto simp: shared_inv_defs)
next
  case (unknown f s)
  then show ?thesis using future_poll_inv [OF unknown(2) assms(2)] by simp
qed (use assms in simp)

lemma sm_run_slots:
  "sm_run resume f sm ins outs tr \<Longrightarrow>
   shared_inv (shared sm) \<and> accepted tr = outs @ slot (outgoing_msg (shared sm)) \<and>
   ins = delivered tr @ slot (incoming_msg (shared sm))"
proof (induction rule: sm_run.induct)
  case run_start
  show ?case by (simp add: wrap_protocol_def) (simp add: SharedState_new_def)
next
  case (run_proceed sm ins outs tr sm' tr' r)
  then show ?case using proceed_slots [OF run_proceed.hyps(2)] by auto
next
  case (run_recv sm ins outs tr m sm' r)
  then show ?case using received_msg_slots [OF run_recv.hyps(2)] by auto
qed

context cooperative_future
begin

lemma proceed_ok:
  assumes "proceed_traced resume sm = (sm', tr, r)" and "shared_inv (shared sm)"
    and "\<not> exhausted sm \<longrightarrow> ok (future sm)"
  shows "r \<noteq> ProceedError PollingUnknownFuture \<and> (\<not> exhausted sm' \<longrightarrow> ok (future sm'))"
  using assms(1,2)
proof (cases rule: proceed_traced_cases)
  case (unknown f s)
  then show ?thesis using suspended_poll [OF unknown(2)] assms(3) by simp
next
  case (send f s m)
  then show ?thesis using suspended_poll [OF send(2)] assms(3) by simp
next
  case (recv f s)
  then show ?thesis using suspended_poll [OF recv(2)] assms(3) by simp
next
  case (yield f s)
  then show ?thesis using suspended_poll [OF yield(2)] assms(3) by simp
qed (use assms in simp_all)

lemma run_ok:
  "sm_run resume f sm ins outs tr \<Longrightarrow> ok f \<Longrightarrow> \<not> exhausted sm \<longrightarrow> ok (future sm)"
proof (induction rule: sm_run.induct)
  case (run_proceed sm ins outs tr sm' tr' r)
  then show ?case using proceed_ok [OF run_proceed.hyps(2)] sm_run_slots [OF run_proceed.hyps(1)] by simp
next
  case (run_recv sm ins outs tr m sm' r)
  then show ?case by (auto simp: sm_received_msg_def split: prod.splits)
qed (simp add: wrap_protocol_def)

lemma never_unknown:
  assumes "sm_run resume f sm ins outs tr" and "ok f"
  shows "snd (proceed resume sm) \<noteq> ProceedError PollingUnknownFuture"
  using proceed_ok [of sm] run_ok [OF assms] sm_run_slots [OF assms(1)]
  by (auto simp: proceed_def split: prod.splits)

end

subsection \<open>Protocols as sequences of awaits\<close>

text \<open>
  A protocol that awaits its delivery and its runtime, one operation after the other, as an
  \<open>async fn\<close> does: the future is suspended at an await and continues with its result. Sending
  awaits \<open>SinkExt::send\<close>, which polls the sink ready, starts sending and polls the flush.
\<close>

datatype ('m, 'o) fut =
  FDone 'o
| FRecv "(delivery_err + 'm incoming) option \<Rightarrow> ('m, 'o) fut"
| FSend "'m outgoing" "(delivery_err + unit) \<Rightarrow> ('m, 'o) fut"
| FFlush "(delivery_err + unit) \<Rightarrow> ('m, 'o) fut"
| FYield bool "('m, 'o) fut"

primrec fut_resume :: "('m, 'o) fut \<Rightarrow> ('m, 'o, ('m, 'o) fut) act" where
  "fut_resume (FDone out) = Finish out"
| "fut_resume (FRecv k) =
     Call CallNext (\<lambda>r. case r of ReplyNext (Ready x) \<Rightarrow> fut_resume (k x) | _ \<Rightarrow> Suspend (FRecv k))"
| "fut_resume (FSend m k) =
     Call CallReady (\<lambda>r. case r of
         ReplySink (Ready (Ok _)) \<Rightarrow>
           Call (CallSend m) (\<lambda>r. case r of
               ReplySend (Err e) \<Rightarrow> fut_resume (k (Err e))
             | _ \<Rightarrow> Call CallFlush (\<lambda>r. case r of
                   ReplySink (Ready x) \<Rightarrow> fut_resume (k x) | _ \<Rightarrow> Suspend (FFlush k)))
       | ReplySink (Ready (Err e)) \<Rightarrow> fut_resume (k (Err e))
       | _ \<Rightarrow> Suspend (FSend m k))"
| "fut_resume (FFlush k) =
     Call CallFlush (\<lambda>r. case r of
         ReplySink (Ready x) \<Rightarrow> fut_resume (k x) | _ \<Rightarrow> Suspend (FFlush k))"
| "fut_resume (FYield y k) =
     Call (CallYield y) (\<lambda>r. case r of
         ReplyYield _ (Ready _) \<Rightarrow> fut_resume k
       | ReplyYield y' Pending \<Rightarrow> Suspend (FYield y' k)
       | _ \<Rightarrow> Suspend (FYield y k))"

lemma awaits_api_seen: "awaits_api ok seen a \<Longrightarrow> awaits_api ok True a"
  by (induction a arbitrary: seen) auto

lemma fut_awaits_api: "awaits_api (\<lambda>_. True) seen (fut_resume f)"
  by (induction f arbitrary: seen)
    (auto elim!: reply_for.elims split: reply.splits poll.splits sum.splits)

interpretation fut: cooperative_future fut_resume "\<lambda>_. True"
  by unfold_locales (rule fut_awaits_api)

text \<open>What the protocol does, seen from outside: the sequence of requests to its executor.\<close>

primrec protocol_events ::
  "('m, 'o) fut \<Rightarrow> 'm incoming list \<Rightarrow> ('o, 'm) proceed_result list" where
  "protocol_events (FDone out) ins = [Output out]"
| "protocol_events (FRecv k) ins =
     NeedsOneMoreMessage # (case ins of [] \<Rightarrow> [] | m # ms \<Rightarrow> protocol_events (k (Some (Ok m))) ms)"
| "protocol_events (FSend m k) ins = SendMsg m # protocol_events (k (Ok ())) ins"
| "protocol_events (FFlush k) ins = protocol_events (k (Ok ())) ins"
| "protocol_events (FYield y k) ins =
     (if y then protocol_events k ins else Yielded # protocol_events k ins)"

text \<open>
  The loop that the documentation of the module gives for carrying out a protocol, on the list
  of messages that \<open>recv\<close> will return; it stops when there is none. Each turn uses one unit of
  fuel.
\<close>

primrec drive ::
  "('f \<Rightarrow> ('m, 'o, 'f) act) \<Rightarrow> nat \<Rightarrow> ('m, 'f) state_machine_impl \<Rightarrow> 'm incoming list
     \<Rightarrow> ('o, 'm) proceed_result list" where
  "drive resume 0 sm ins = []"
| "drive resume (Suc n) sm ins =
     (case proceed resume sm of (sm', r) \<Rightarrow>
        r # (case r of
               SendMsg _ \<Rightarrow> drive resume n sm' ins
             | NeedsOneMoreMessage \<Rightarrow>
                 (case ins of
                    [] \<Rightarrow> []
                  | m # ms \<Rightarrow>
                      (case sm_received_msg sm' m of
                         (sm'', Ok _) \<Rightarrow> drive resume n sm'' ms
                       | (sm'', Err _) \<Rightarrow> []))
             | Yielded \<Rightarrow> drive resume n sm' ins
             | Output _ \<Rightarrow> []
             | ProceedError _ \<Rightarrow> []))"

definition quiet :: "'m incoming option \<Rightarrow> ('m, 'o) fut \<Rightarrow> ('m, ('m, 'o) fut) state_machine_impl" where
  "quiet inc f = \<lparr>shared = SharedState_new\<lparr>incoming_msg := inc\<rparr>, exhausted = False, future = f\<rparr>"

primrec fut_next :: "('m, 'o) fut \<Rightarrow> ('o, 'm) proceed_result \<times> ('m, 'o) fut" where
  "fut_next (FDone out) = (Output out, FDone out)"
| "fut_next (FRecv k) = (NeedsOneMoreMessage, FRecv k)"
| "fut_next (FSend m k) = (SendMsg m, FFlush k)"
| "fut_next (FFlush k) = fut_next (k (Ok ()))"
| "fut_next (FYield y k) = (if y then fut_next k else (Yielded, FYield True k))"

lemma protocol_events_next:
  "protocol_events f ins =
     fst (fut_next f) #
       (case fst (fut_next f) of
          SendMsg m \<Rightarrow> protocol_events (snd (fut_next f)) ins
        | Yielded \<Rightarrow> protocol_events (snd (fut_next f)) ins
        | NeedsOneMoreMessage \<Rightarrow> tl (protocol_events (snd (fut_next f)) ins)
        | _ \<Rightarrow> [])"
  by (induction f arbitrary: ins) (auto split: proceed_result.split)

lemma fut_next_recv: "fst (fut_next f) = NeedsOneMoreMessage \<Longrightarrow> \<exists>k. snd (fut_next f) = FRecv k"
  by (induction f) (auto split: if_splits)

lemma fut_next_not_error: "fst (fut_next f) \<noteq> ProceedError e"
  by (induction f) auto

lemma quiet_shared: "shared (quiet inc f) = SharedState_new\<lparr>incoming_msg := inc\<rparr>"
  by (simp add: quiet_def)

text \<open>The effect and the end of a poll, without its trace.\<close>

definition act_effect :: "('m, 'o, 'f) act \<Rightarrow> 'm shared_state \<Rightarrow> 'm shared_state \<times> ('f + 'o)" where
  "act_effect a s = (case run_act a s of (s', tr, e) \<Rightarrow> (s', e))"

lemma act_effect_simps [simp]:
  "act_effect (Finish out) s = (s, Ok out)"
  "act_effect (Suspend f) s = (s, Err f)"
  "act_effect (Call c k) s = (case perform_call s c of (s', r) \<Rightarrow> act_effect (k r) s')"
  by (simp_all add: act_effect_def split: prod.splits)

lemma fut_effect:
  "act_effect (fut_resume f) SharedState_new =
     (case fut_next f of (e, f') \<Rightarrow>
        (case e of
           Output out \<Rightarrow> (SharedState_new, Ok out)
         | SendMsg m \<Rightarrow> (SharedState_new\<lparr>outgoing_msg := Some m, wants_send_msg := True\<rparr>, Err f')
         | NeedsOneMoreMessage \<Rightarrow> (SharedState_new\<lparr>wants_recv_msg := True\<rparr>, Err f')
         | Yielded \<Rightarrow> (SharedState_new\<lparr>yielded := True\<rparr>, Err f')
         | ProceedError _ \<Rightarrow> undefined))"
  by (induction f) (simp_all add: sm_defs SharedState_new_def)

lemma proceed_effect:
  assumes "\<not> exhausted sm"
  shows "proceed resume sm =
    (case act_effect (resume (future sm)) (shared sm) of
       (s, Ok out) \<Rightarrow> (sm\<lparr>shared := s, exhausted := True\<rparr>, Output out)
     | (s, Err f) \<Rightarrow>
         if wants_send_msg s \<and> outgoing_msg s \<noteq> None then
           (sm\<lparr>future := f, shared := s\<lparr>wants_send_msg := False, outgoing_msg := None\<rparr>\<rparr>,
            SendMsg (the (outgoing_msg s)))
         else if wants_recv_msg s then
           (sm\<lparr>future := f, shared := fst (executor_takes_outgoing_msg s)\<rparr>, NeedsOneMoreMessage)
         else
           (sm\<lparr>future := f, shared := (fst (executor_takes_outgoing_msg s))\<lparr>yielded := False\<rparr>\<rparr>,
            if yielded s then Yielded else ProceedError PollingUnknownFuture))"
  using assms
  by (auto simp: proceed_def proceed_traced_def future_poll_def act_effect_def sm_defs
           split: prod.splits sum.splits option.splits)

lemma SharedState_new_upd [simp]: "SharedState_new\<lparr>incoming_msg := None\<rparr> = SharedState_new"
  by (simp add: SharedState_new_def)

lemma quiet_simps [simp]:
  "exhausted (quiet inc f) = False" "future (quiet inc f) = f"
  "shared (quiet None f) = SharedState_new"
  by (simp_all add: quiet_def SharedState_new_def)

lemma proceed_quiet:
  assumes "fut_next f = (e, f')"
  shows "proceed fut_resume (quiet None f) =
    (case e of
       Output out \<Rightarrow> ((quiet None f)\<lparr>exhausted := True\<rparr>, Output out)
     | NeedsOneMoreMessage \<Rightarrow>
         ((quiet None f')\<lparr>shared := SharedState_new\<lparr>wants_recv_msg := True\<rparr>\<rparr>, NeedsOneMoreMessage)
     | _ \<Rightarrow> (quiet None f', e))"
  using fut_next_not_error [of f] assms
  by (cases e) (auto simp: proceed_effect fut_effect [unfolded SharedState_new_def]
                     executor_takes_outgoing_msg_def quiet_def SharedState_new_def)

lemma received_quiet:
  "sm_received_msg ((quiet None f)\<lparr>shared := SharedState_new\<lparr>wants_recv_msg := True\<rparr>\<rparr>) m =
     (quiet (Some m) f, Ok ())"
  by (simp add: sm_received_msg_def executor_received_msg_def quiet_def SharedState_new_def)

lemma proceed_quiet_recv:
  "proceed fut_resume (quiet (Some m) (FRecv k)) =
   proceed fut_resume (quiet None (k (Some (Ok m)))) \<or>
   (\<exists>out sm sm'. proceed fut_resume (quiet (Some m) (FRecv k)) = (sm, Output out) \<and>
      proceed fut_resume (quiet None (k (Some (Ok m)))) = (sm', Output out))"
proof -
  have "act_effect (fut_resume (FRecv k)) (SharedState_new\<lparr>incoming_msg := Some m\<rparr>) =
        act_effect (fut_resume (k (Some (Ok m)))) SharedState_new"
    by (simp add: sm_defs) (simp add: SharedState_new_def)
  then show ?thesis
    by (auto simp: proceed_effect quiet_def simp del: fut_resume.simps act_effect_simps
             split: prod.splits sum.splits)
qed

lemma drive_quiet_recv:
  "drive fut_resume n (quiet (Some m) (FRecv k)) ins =
   drive fut_resume n (quiet None (k (Some (Ok m)))) ins"
  using proceed_quiet_recv [of m k] by (cases n) auto

lemma drive_quiet:
  "length (protocol_events f ins) \<le> n \<Longrightarrow>
   drive fut_resume n (quiet None f) ins = protocol_events f ins"
proof (induction n arbitrary: f ins)
  case 0
  then show ?case using protocol_events_next [of f ins] by simp
next
  case (Suc n)
  obtain e f' where next_f: "fut_next f = (e, f')" by fastforce
  note events = protocol_events_next [of f ins, unfolded next_f]
  note [simp] = proceed_quiet [OF next_f]
  show ?case
  proof (cases e)
    case NeedsOneMoreMessage
    then obtain k where k: "f' = FRecv k" using fut_next_recv [of f] next_f by auto
    show ?thesis
    proof (cases ins)
      case (Cons m ms)
      then show ?thesis
        using Suc.prems Suc.IH [of "k (Some (Ok m))" ms] NeedsOneMoreMessage k events
        by (simp add: received_quiet drive_quiet_recv)
    qed (use NeedsOneMoreMessage k events in simp)
  next
    case (ProceedError r)
    then show ?thesis using fut_next_not_error [of f r] next_f by simp
  qed (use Suc.IH [of f' ins] Suc.prems events in simp_all)
qed

lemma wrap_protocol_quiet: "wrap_protocol f = quiet None f"
  by (simp add: wrap_protocol_def quiet_def SharedState_new_def)

subsection \<open>Properties\<close>

text \<open>A protocol for the instances below: it broadcasts a value, yields, waits for a message and
  returns the sum.\<close>

definition sample_fut :: "nat \<Rightarrow> (nat, nat) fut" where
  "sample_fut x =
     FSend (Outgoing_all_parties x) (\<lambda>_. FYield False (FRecv (\<lambda>r. case r of
         Some (Ok m) \<Rightarrow> FDone (x + inc_msg m) | _ \<Rightarrow> FDone 0)))"

text \<open>C6: The state machine carries out its protocol. For a protocol that awaits sending,
  receiving and yielding one after the other, driving the wrapped protocol with the documented
  loop makes exactly the requests of the protocol, in its order: each message it sends is handed
  out once, at its place; it is asked to receive exactly when the protocol awaits a message, which
  then is the one received; and the output comes last. One turn of the loop per request is
  enough.\<close>

theorem state_machine_carries_out_protocol:
  "length (protocol_events f ins) \<le> n \<Longrightarrow>
   drive fut_resume n (wrap_protocol f) ins = protocol_events f ins"
  unfolding wrap_protocol_quiet by (rule drive_quiet)

theorem state_machine_carries_out_protocol_witness:
  "drive fut_resume 4 (wrap_protocol (sample_fut 5)) [sample_incoming 0 1 P2P 7] =
     [SendMsg (Outgoing_all_parties 5), Yielded, NeedsOneMoreMessage, Output 12]"
  using state_machine_carries_out_protocol [of "sample_fut 5" "[sample_incoming 0 1 P2P 7]" 4]
  by (simp add: sample_fut_def sample_incoming_def)

text \<open>C20: No message is lost, duplicated or reordered between the protocol and its executor,
  whatever the protocol and in whatever order \<open>proceed\<close> and \<open>received_msg\<close> are called. The messages
  the sink accepted are those handed out for sending, in order, and then the one still in the
  slot; the messages the machine accepted are those the stream delivered, in order, and then the
  one still in the slot.\<close>

theorem state_machine_fifo:
  assumes "sm_run resume f sm ins outs tr"
  shows "accepted tr = outs @ slot (outgoing_msg (shared sm)) \<and>
         ins = delivered tr @ slot (incoming_msg (shared sm))"
  using sm_run_slots [OF assms] by simp

theorem state_machine_fifo_witness:
  "\<exists>sm tr. sm_run fut_resume (sample_fut 5) sm [] [Outgoing_all_parties 5] tr \<and>
     accepted tr = [Outgoing_all_parties 5] @ slot (outgoing_msg (shared sm)) \<and>
     [] = delivered tr @ slot (incoming_msg (shared sm))"
proof -
  obtain sm tr r where p: "proceed_traced fut_resume (wrap_protocol (sample_fut 5)) = (sm, tr, r)"
    by (cases "proceed_traced fut_resume (wrap_protocol (sample_fut 5))")
  then have "r = SendMsg (Outgoing_all_parties 5)"
    by (auto simp: proceed_traced_def future_poll_def wrap_protocol_def SharedState_new_def
                   sample_fut_def sm_defs)
  with sm_run.run_proceed [OF sm_run.run_start p]
  have run: "sm_run fut_resume (sample_fut 5) sm [] [Outgoing_all_parties 5] tr" by simp
  with state_machine_fifo [OF run] show ?thesis by blast
qed

text \<open>C25: The executor recognises every suspension of a protocol that awaits only its delivery and
  its runtime. If a poll suspends only after one of its calls was pending, then \<open>proceed\<close> never
  fails with \<open>PollingUnknownFuture\<close>, in any run, even one in which the machine is driven out of
  order. And whatever the poll of the next \<open>proceed\<close> does, in the state that it leaves, in which
  \<open>executor_takes_outgoing_msg\<close> is called, the \<open>debug_assert\<close> of that method holds: a requested
  flush has a message.\<close>

theorem no_unknown_future:
  assumes "\<forall>g. ok g \<longrightarrow> awaits_api ok False (resume g)" and "ok f"
    and "sm_run resume f sm ins outs tr"
    and "future_poll resume (future sm) (shared sm) = (f', s, tr', p)"
  shows "snd (proceed resume sm) \<noteq> ProceedError PollingUnknownFuture \<and>
         takes_outgoing_debug_assert s"
proof -
  have "cooperative_future resume ok" using assms(1) by unfold_locales blast
  note known = cooperative_future.never_unknown [OF this assms(3,2)]
  have "shared_inv (shared sm)" using sm_run_slots [OF assms(3)] by simp
  from future_poll_inv(1) [OF assms(4) this] known show ?thesis by (simp add: shared_inv_def)
qed

theorem no_unknown_future_witness:
  "\<exists>f' s tr. future_poll fut_resume (sample_fut 5) SharedState_new = (f', s, tr, Pending) \<and>
     wants_send_msg s \<and> takes_outgoing_debug_assert (s :: nat shared_state)"
proof -
  obtain f' s tr where poll: "future_poll fut_resume (sample_fut 5) SharedState_new = (f', s, tr, Pending)"
    and send: "wants_send_msg s"
    by (auto simp: future_poll_def sample_fut_def sm_defs SharedState_new_def)
  have "takes_outgoing_debug_assert s"
    using no_unknown_future [where ok = "\<lambda>_. True" and resume = fut_resume and f = "sample_fut 5",
        OF _ _ sm_run.run_start, of f' s tr Pending] poll
    by (simp add: fut_awaits_api wrap_protocol_def)
  then show ?thesis using poll send by blast
qed

text \<open>C26: The executor and the protocol stay in step. In any run at most one task is scheduled.
  After \<open>proceed\<close> asked to send a message or yielded, nothing is scheduled, so the protocol can go
  on; after it asked for a message, exactly that is scheduled, the next message is accepted, and
  then nothing is scheduled. A message is refused only if the previous one was not yet taken.\<close>

theorem scheduling_in_step:
  assumes "sm_run resume f sm ins outs tr" and "proceed resume sm = (sm', r)"
  shows "scheduled (shared sm) \<le> 1 \<and>
    ((\<exists>m. r = SendMsg m) \<or> r = Yielded \<longrightarrow> scheduled (shared sm') = 0) \<and>
    (r = NeedsOneMoreMessage \<longrightarrow> scheduled (shared sm') = 1 \<and>
       (\<exists>sm''. sm_received_msg sm' m = (sm'', Ok ()) \<and> scheduled (shared sm'') = 0)) \<and>
    (is_ok (snd (sm_received_msg sm m)) \<longleftrightarrow> incoming_msg (shared sm) = None)"
proof -
  obtain tr' where p: "proceed_traced resume sm = (sm', tr', r)"
    using assms(2) by (auto simp: proceed_def split: prod.splits)
  have inv: "shared_inv (shared sm)" using sm_run_slots [OF assms(1)] by simp
  have acc: "is_ok (snd (sm_received_msg sm m)) \<longleftrightarrow> incoming_msg (shared sm) = None"
    by (simp add: sm_received_msg_def executor_received_msg_def)
  have one: "scheduled (shared sm) \<le> 1" using inv by (simp add: shared_inv_def)
  show ?thesis using p inv
  proof (cases rule: proceed_traced_cases)
    case (send f s m)
    then show ?thesis
      using future_poll_inv(1) [OF send(2) inv] acc one by (auto simp: shared_inv_defs)
  next
    case (recv f s)
    then show ?thesis
      using future_poll_inv(1) [OF recv(2) inv] acc one
      by (auto simp: shared_inv_defs sm_received_msg_def executor_received_msg_def)
  next
    case (yield f s)
    then show ?thesis
      using future_poll_inv(1) [OF yield(2) inv] acc one by (auto simp: shared_inv_defs)
  qed (use acc one in simp_all)
qed

theorem scheduling_in_step_witness:
  "scheduled (shared (fst (proceed fut_resume (wrap_protocol (sample_fut 5))))) = 0"
proof -
  have "proceed fut_resume (wrap_protocol (sample_fut 5)) =
      (fst (proceed fut_resume (wrap_protocol (sample_fut 5))), SendMsg (Outgoing_all_parties 5))"
    by (simp add: wrap_protocol_quiet proceed_quiet sample_fut_def)
  from scheduling_in_step [OF sm_run.run_start this] show ?thesis by blast
qed

text \<open>The output is produced once. After \<open>proceed\<close> returned the output, every further call
  fails with \<open>Exhausted\<close> and neither polls the future nor changes the machine.\<close>

lemma exhausted_after_output:
  assumes "proceed resume sm = (sm', Output out)"
  shows "proceed resume sm' = (sm', ProceedError Exhausted)"
proof -
  have "exhausted sm'"
    using assms
    by (auto simp: proceed_def proceed_traced_def split: if_splits prod.splits poll.splits option.splits)
  then show ?thesis by (simp add: proceed_def proceed_traced_def)
qed

end
