(* ===== verification/Simulation.thy ===== *)
theory Simulation
  imports State_Machine
begin

section \<open>Simulating a protocol locally\<close>

text \<open>
  \<open>round-based/src/sim/mod.rs\<close>: the message queues between the parties, the parties as state
  machines, and the loop that carries them out. The state machines are trait objects: a
  dictionary of the two methods of \<open>StateMachine\<close> over a type of states. Each loop of \<open>run\<close> may go on
  forever (a party that yields forever, parties that wait for each other), so loops take fuel
  and \<open>None\<close> means that it ran out.
\<close>

subsection \<open>Results\<close>

text \<open>A panic message is not modelled, only the panic.\<close>

definition expect_ok :: "('e + 't) list \<Rightarrow> 't list or_panic" where
  "expect_ok results =
     (let oks = [x. Ok x \<leftarrow> results]; errs = [(i, e). (Err e, i) \<leftarrow> zip results [0..<length results]]
      in if errs \<noteq> [] then Panic else Ret oks)"

definition expect_eq :: "'t list \<Rightarrow> 't or_panic" where
  "expect_eq results =
     (case results of
        [] \<Rightarrow> Panic
      | first # rest \<Rightarrow> if \<not> list_all (\<lambda>x. x = first) rest then Panic else Ret (last results))"

subsection \<open>Queues of messages\<close>

record 'm messages_queue =
  mq_queue :: "'m incoming list list"
  next_id :: u64

datatype sim_reason =
  SaveIncomingMsg
| ExecutionError sm_reason
| UnknownRecipient u16 u16

definition MessagesQueue_new :: "nat \<Rightarrow> 'm messages_queue" where
  "MessagesQueue_new n = \<lparr>mq_queue = replicate n [], next_id = 0\<rparr>"

text \<open>
  The loop of a broadcast: the queues with their indexes counted from \<open>i\<close>, without the sender's,
  are zipped with the ids from \<open>d\<close> on. It returns the first id that was not used.
\<close>

primrec broadcast_loop ::
  "u16 \<Rightarrow> bool \<Rightarrow> 'm \<Rightarrow> 'm incoming list list \<Rightarrow> u16 \<Rightarrow> u64 \<Rightarrow> 'm incoming list list \<times> u64" where
  "broadcast_loop sender reliable x [] i d = ([], d)"
| "broadcast_loop sender reliable x (q # qs) i d =
     (if i \<noteq> sender then
        (case broadcast_loop sender reliable x qs (i + 1) (d + 1) of (qs', d') \<Rightarrow>
           ((q @ [\<lparr>inc_id = d, inc_sender = sender, inc_msg_type = Broadcast reliable, inc_msg = x\<rparr>])
              # qs', d'))
      else
        (case broadcast_loop sender reliable x qs (i + 1) d of (qs', d') \<Rightarrow> (q # qs', d')))"

definition send_message ::
  "'m messages_queue \<Rightarrow> u16 \<Rightarrow> 'm outgoing \<Rightarrow> 'm messages_queue \<times> (sim_reason + unit)" where
  "send_message self sender msg =
     (case out_recipient msg of
        AllParties reliable \<Rightarrow>
          (case broadcast_loop sender reliable (out_msg msg) (mq_queue self) 0 (next_id self) of
             (qs, d) \<Rightarrow> (self\<lparr>mq_queue := qs, next_id := d\<rparr>, Ok ()))
      | OneParty destination \<Rightarrow>
          (let d = next_id self; self' = self\<lparr>next_id := d + 1\<rparr> in
           if unat destination < length (mq_queue self) then
             (self'\<lparr>mq_queue := (mq_queue self)[unat destination :=
                mq_queue self ! unat destination @
                  [\<lparr>inc_id = d, inc_sender = sender, inc_msg_type = P2P, inc_msg = out_msg msg\<rparr>]]\<rparr>,
              Ok ())
           else (self', Err (UnknownRecipient sender destination))))"

definition recv_next_msg ::
  "'m messages_queue \<Rightarrow> u16 \<Rightarrow> ('m messages_queue \<times> 'm incoming option) or_panic" where
  "recv_next_msg self recipient =
     (if unat recipient < length (mq_queue self) then
        (case mq_queue self ! unat recipient of
           [] \<Rightarrow> Ret (self, None)
         | m # ms \<Rightarrow> Ret (self\<lparr>mq_queue := (mq_queue self)[unat recipient := ms]\<rparr>, Some m))
      else Panic)"

subsection \<open>Parties\<close>

record ('sm, 'o, 'm) machine_ops =
  op_proceed :: "'sm \<Rightarrow> 'sm \<times> ('o, 'm) proceed_result"
  op_received_msg :: "'sm \<Rightarrow> 'm incoming \<Rightarrow> 'sm \<times> ('m incoming + unit)"

datatype ('sm, 'o) sim_party = Active 'sm bool | Finished 'o

type_synonym ('sm, 'o) simulation = "('sm, 'o) sim_party list"

definition Simulation_empty :: "('sm, 'o) simulation" where
  "Simulation_empty = []"

definition Simulation_with_capacity :: "u16 \<Rightarrow> ('sm, 'o) simulation" where
  "Simulation_with_capacity n = []"

definition add_party :: "('sm, 'o) simulation \<Rightarrow> 'sm \<Rightarrow> ('sm, 'o) simulation" where
  "add_party sim party = sim @ [Active party False]"

definition add_async_party ::
  "(('m, 'f) state_machine_impl, 'o) simulation \<Rightarrow> 'f \<Rightarrow> (('m, 'f) state_machine_impl, 'o) simulation"
where
  "add_async_party sim party = sim @ [Active (wrap_protocol party) False]"

definition Simulation_from_fn :: "u16 \<Rightarrow> (u16 \<Rightarrow> 'sm) \<Rightarrow> ('sm, 'o) simulation" where
  "Simulation_from_fn n init =
     foldl (\<lambda>sim i. add_party sim (init (of_nat i))) Simulation_empty [0..<unat n]"

definition Simulation_from_async_fn ::
  "u16 \<Rightarrow> (u16 \<Rightarrow> 'f) \<Rightarrow> (('m, 'f) state_machine_impl, 'o) simulation" where
  "Simulation_from_async_fn n init =
     foldl (\<lambda>sim i. add_async_party sim (init (of_nat i))) Simulation_empty [0..<unat n]"

definition parties_amount :: "('sm, 'o) simulation \<Rightarrow> nat" where
  "parties_amount sim = length sim"

subsection \<open>Carrying out the simulation\<close>

text \<open>
  One turn of the loop \<open>'this_party\<close>, on the party's entry, the queues and the number of parties
  left: it continues with this party, or with the next one, or the simulation returns an error or
  panics.
\<close>

datatype ('sm, 'o, 'm) turn =
  ThisParty "('sm, 'o) sim_party" "'m messages_queue" nat
| NextParty "('sm, 'o) sim_party" "'m messages_queue" nat
| ReturnErr sim_reason
| TurnPanic

definition proceed_party ::
  "('sm, 'o, 'm) machine_ops \<Rightarrow> u16 \<Rightarrow> 'sm \<Rightarrow> 'm messages_queue \<Rightarrow> nat \<Rightarrow> ('sm, 'o, 'm) turn" where
  "proceed_party ops i party q left =
     (case op_proceed ops party of (party', r) \<Rightarrow>
        (case r of
           SendMsg msg \<Rightarrow>
             (case send_message q i msg of
                (q', Err e) \<Rightarrow> ReturnErr e
              | (q', Ok _) \<Rightarrow> ThisParty (Active party' False) q' left)
         | NeedsOneMoreMessage \<Rightarrow> ThisParty (Active party' True) q left
         | Output out \<Rightarrow> NextParty (Finished out) q (left - 1)
         | Yielded \<Rightarrow> ThisParty (Active party' False) q left
         | ProceedError e \<Rightarrow> ReturnErr (ExecutionError e)))"

definition party_turn ::
  "('sm, 'o, 'm) machine_ops \<Rightarrow> u16 \<Rightarrow> ('sm, 'o) sim_party \<Rightarrow> 'm messages_queue \<Rightarrow> nat
     \<Rightarrow> ('sm, 'o, 'm) turn" where
  "party_turn ops i party_state q left =
     (case party_state of
        Finished out \<Rightarrow> NextParty party_state q left
      | Active party wants_one_more_msg \<Rightarrow>
          if wants_one_more_msg then
            (case recv_next_msg q i of
               Panic \<Rightarrow> TurnPanic
             | Ret (q', Some message) \<Rightarrow>
                 (case op_received_msg ops party message of
                    (party', Err _) \<Rightarrow> ReturnErr SaveIncomingMsg
                  | (party', Ok _) \<Rightarrow> proceed_party ops i party' q' left)
             | Ret (q', None) \<Rightarrow> NextParty party_state q' left)
          else proceed_party ops i party q left)"

text \<open>How a loop ends: it goes on after it, or \<open>run\<close> returns.\<close>

datatype 'a loop_end = LoopDone 'a | LoopErr sim_reason | LoopPanic

primrec this_party_loop ::
  "('sm, 'o, 'm) machine_ops \<Rightarrow> nat \<Rightarrow> u16 \<Rightarrow> ('sm, 'o) sim_party \<Rightarrow> 'm messages_queue \<Rightarrow> nat
     \<Rightarrow> (('sm, 'o) sim_party \<times> 'm messages_queue \<times> nat) loop_end option" where
  "this_party_loop ops 0 i p q left = None"
| "this_party_loop ops (Suc fuel) i p q left =
     (case party_turn ops i p q left of
        ThisParty p' q' left' \<Rightarrow> this_party_loop ops fuel i p' q' left'
      | NextParty p' q' left' \<Rightarrow> Some (LoopDone (p', q', left'))
      | ReturnErr e \<Rightarrow> Some (LoopErr e)
      | TurnPanic \<Rightarrow> Some LoopPanic)"

primrec parties_loop ::
  "('sm, 'o, 'm) machine_ops \<Rightarrow> nat \<Rightarrow> ('sm, 'o) simulation \<Rightarrow> u16 \<Rightarrow> 'm messages_queue \<Rightarrow> nat
     \<Rightarrow> (('sm, 'o) simulation \<times> 'm messages_queue \<times> nat) loop_end option" where
  "parties_loop ops fuel [] i q left = Some (LoopDone ([], q, left))"
| "parties_loop ops fuel (p # ps) i q left =
     (case this_party_loop ops fuel i p q left of
        None \<Rightarrow> None
      | Some (LoopErr e) \<Rightarrow> Some (LoopErr e)
      | Some LoopPanic \<Rightarrow> Some LoopPanic
      | Some (LoopDone (p', q', left')) \<Rightarrow>
          (case parties_loop ops fuel ps (i + 1) q' left' of
             None \<Rightarrow> None
           | Some (LoopErr e) \<Rightarrow> Some (LoopErr e)
           | Some LoopPanic \<Rightarrow> Some LoopPanic
           | Some (LoopDone (ps', r)) \<Rightarrow> Some (LoopDone (p' # ps', r))))"

primrec while_loop ::
  "('sm, 'o, 'm) machine_ops \<Rightarrow> nat \<Rightarrow> nat \<Rightarrow> ('sm, 'o) simulation \<Rightarrow> 'm messages_queue \<Rightarrow> nat
     \<Rightarrow> ('sm, 'o) simulation loop_end option" where
  "while_loop ops fuel 0 ps q left = (if 0 < left then None else Some (LoopDone ps))"
| "while_loop ops fuel (Suc passes) ps q left =
     (if 0 < left then
        (case parties_loop ops fuel ps 0 q left of
           None \<Rightarrow> None
         | Some (LoopErr e) \<Rightarrow> Some (LoopErr e)
         | Some LoopPanic \<Rightarrow> Some LoopPanic
         | Some (LoopDone (ps', q', left')) \<Rightarrow> while_loop ops fuel passes ps' q' left')
      else Some (LoopDone ps))"

text \<open>The last step of \<open>run\<close>: the outputs, where an active party is \<open>unreachable!\<close>.\<close>

primrec collect_outputs :: "('sm, 'o) simulation \<Rightarrow> 'o list or_panic" where
  "collect_outputs [] = Ret []"
| "collect_outputs (p # ps) =
     (case p of
        Active _ _ \<Rightarrow> Panic
      | Finished out \<Rightarrow> (case collect_outputs ps of Panic \<Rightarrow> Panic | Ret outs \<Rightarrow> Ret (out # outs)))"

definition Simulation_run ::
  "('sm, 'o, 'm) machine_ops \<Rightarrow> nat \<Rightarrow> nat \<Rightarrow> ('sm, 'o) simulation
     \<Rightarrow> (sim_reason + 'o list) or_panic option" where
  "Simulation_run ops fuel passes sim =
     (case while_loop ops fuel passes sim (MessagesQueue_new (length sim)) (length sim) of
        None \<Rightarrow> None
      | Some (LoopErr e) \<Rightarrow> Some (Ret (Err e))
      | Some LoopPanic \<Rightarrow> Some Panic
      | Some (LoopDone ps) \<Rightarrow>
          Some (case collect_outputs ps of Panic \<Rightarrow> Panic | Ret outs \<Rightarrow> Ret (Ok outs)))"

text \<open>The state machines that \<open>add_async_party\<close> makes.\<close>

definition async_ops ::
  "('f \<Rightarrow> ('m, 'o, 'f) act) \<Rightarrow> (('m, 'f) state_machine_impl, 'o, 'm) machine_ops" where
  "async_ops resume = \<lparr>op_proceed = proceed resume, op_received_msg = sm_received_msg\<rparr>"

definition run_with_setup ::
  "('f \<Rightarrow> ('m, 'o, 'f) act) \<Rightarrow> nat \<Rightarrow> nat \<Rightarrow> 'setup list \<Rightarrow> (u16 \<Rightarrow> 'setup \<Rightarrow> 'f)
     \<Rightarrow> (sim_reason + 'o list) or_panic option" where
  "run_with_setup resume fuel passes setups party_start =
     Simulation_run (async_ops resume) fuel passes
       (foldl (\<lambda>sim (setup, i). add_party sim (wrap_protocol (party_start i setup))) Simulation_empty
          (zip setups (map of_nat [0..<length setups])))"

definition sim_run ::
  "('f \<Rightarrow> ('m, 'o, 'f) act) \<Rightarrow> nat \<Rightarrow> nat \<Rightarrow> u16 \<Rightarrow> (u16 \<Rightarrow> 'f)
     \<Rightarrow> (sim_reason + 'o list) or_panic option" where
  "sim_run resume fuel passes n party_start =
     run_with_setup resume fuel passes (replicate (unat n) ()) (\<lambda>i _. party_start i)"

subsection \<open>The queues as FIFO channels\<close>

text \<open>
  The number of recipients of a broadcast among the first \<open>k\<close> indexes from \<open>i\<close> on, which is the
  offset of the message id of recipient \<open>i + k\<close>.
\<close>

definition rank :: "nat \<Rightarrow> u16 \<Rightarrow> nat \<Rightarrow> nat" where
  "rank i sender k = (if i \<le> unat sender \<and> unat sender < i + k then k - 1 else k)"

lemma rank_Suc:
  "rank i sender (Suc k) = (if i = unat sender then k else Suc (rank (Suc i) sender k))"
  by (auto simp: rank_def)

lemma rank_0 [simp]: "rank i sender 0 = 0"
  by (simp add: rank_def)

lemma rank_self: "unat sender = i \<Longrightarrow> rank (Suc i) sender k = k"
  by (simp add: rank_def)

lemma of_nat_u16_eq: "j < 65536 \<Longrightarrow> of_nat j = (w :: u16) \<longleftrightarrow> j = unat w"
  by (auto simp: word_unat_eq_iff unat_of_nat_u16)

lemma of_nat_Suc_word: "(of_nat j :: 'a::len word) + 1 = of_nat (Suc j)"
  by simp

lemma broadcast_loop_spec:
  assumes "j + length qs \<le> 65536"
  shows "length (fst (broadcast_loop sender rel x qs (of_nat j) d)) = length qs \<and>
    snd (broadcast_loop sender rel x qs (of_nat j) d) = d + of_nat (rank j sender (length qs)) \<and>
    (\<forall>k < length qs. fst (broadcast_loop sender rel x qs (of_nat j) d) ! k =
      (if j + k = unat sender then qs ! k
       else qs ! k @ [\<lparr>inc_id = d + of_nat (rank j sender k), inc_sender = sender,
                      inc_msg_type = Broadcast rel, inc_msg = x\<rparr>]))"
  using assms
proof (induction qs arbitrary: j d)
  case Nil
  then show ?case by (simp add: rank_def)
next
  case (Cons q qs)
  have j: "of_nat j = sender \<longleftrightarrow> j = unat sender"
    using Cons.prems by (simp add: of_nat_u16_eq)
  have IH: "Suc j + length qs \<le> 65536" using Cons.prems by simp
  show ?case
    using Cons.IH [OF IH, of d] Cons.IH [OF IH, of "d + 1"] j
    by (auto simp: rank_Suc rank_self less_Suc_eq_0_disj of_nat_Suc_word of_nat_Suc [symmetric] add.assoc
             simp del: of_nat_Suc split: prod.splits)
qed

text \<open>What a send addresses to recipient \<open>r\<close>, at which offset from \<open>next_id\<close>, and the ids it uses.\<close>

definition addressed :: "nat \<Rightarrow> u16 \<times> 'm outgoing \<Rightarrow> (u16 \<times> message_type \<times> 'm) list" where
  "addressed r sm = (case sm of (s, m) \<Rightarrow>
     (case out_recipient m of
        AllParties rel \<Rightarrow> if unat s = r then [] else [(s, Broadcast rel, out_msg m)]
      | OneParty d \<Rightarrow> if unat d = r then [(s, P2P, out_msg m)] else []))"

definition id_offset :: "nat \<Rightarrow> u16 \<times> 'm outgoing \<Rightarrow> nat" where
  "id_offset r sm = (case sm of (s, m) \<Rightarrow>
     (case out_recipient m of AllParties _ \<Rightarrow> rank 0 s r | OneParty _ \<Rightarrow> 0))"

definition ids_used :: "nat \<Rightarrow> u16 \<times> 'm outgoing \<Rightarrow> nat" where
  "ids_used n sm = (case sm of (s, m) \<Rightarrow>
     (case out_recipient m of AllParties _ \<Rightarrow> rank 0 s n | OneParty _ \<Rightarrow> 1))"

lemma send_message_spec:
  assumes "send_message q s m = (q', res)" and "length (mq_queue q) \<le> 65536"
  shows "length (mq_queue q') = length (mq_queue q)"
    and "next_id q' = next_id q + of_nat (ids_used (length (mq_queue q)) (s, m))"
    and "r < length (mq_queue q) \<Longrightarrow> mq_queue q' ! r = mq_queue q ! r @
      map (\<lambda>(s', t, x). \<lparr>inc_id = next_id q + of_nat (id_offset r (s, m)), inc_sender = s',
          inc_msg_type = t, inc_msg = x\<rparr>) (addressed r (s, m))"
  using assms broadcast_loop_spec [of 0 "mq_queue q" s _ "out_msg m" "next_id q"]
  by (auto simp: send_message_def ids_used_def id_offset_def addressed_def Let_def nth_list_update
                 case_prod_unfold
           split: message_destination.splits if_splits)

lemma send_message_result:
  "snd (send_message q s m) =
     (case out_recipient m of
        OneParty d \<Rightarrow> if unat d < length (mq_queue q) then Ok () else Err (UnknownRecipient s d)
      | AllParties _ \<Rightarrow> Ok ())"
  by (auto simp: send_message_def Let_def split: message_destination.splits prod.splits)

text \<open>Any sequence of sends and receives, with what was sent and what each party received.\<close>

inductive mq_run ::
  "nat \<Rightarrow> 'm messages_queue \<Rightarrow> (u16 \<times> 'm outgoing) list \<Rightarrow> (nat \<Rightarrow> 'm incoming list) \<Rightarrow> bool"
  for n where
  mq_start: "mq_run n (MessagesQueue_new n) [] (\<lambda>_. [])"
| mq_send: "mq_run n q sends got \<Longrightarrow> send_message q s m = (q', r) \<Longrightarrow>
    mq_run n q' (sends @ [(s, m)]) got"
| mq_recv: "mq_run n q sends got \<Longrightarrow> recv_next_msg q i = Ret (q', Some m) \<Longrightarrow>
    mq_run n q' sends (got(unat i := got (unat i) @ [m]))"

text \<open>All messages ever queued for a party: those it received and those it still has.\<close>

definition all_for :: "'m messages_queue \<Rightarrow> (nat \<Rightarrow> 'm incoming list) \<Rightarrow> nat \<Rightarrow> 'm incoming list" where
  "all_for q got r = got r @ mq_queue q ! r"

lemma recv_all_for:
  assumes "recv_next_msg q i = Ret (q', Some m)" and "r < length (mq_queue q)"
  shows "all_for q' (got(unat i := got (unat i) @ [m])) r = all_for q got r"
    and "length (mq_queue q') = length (mq_queue q)" and "next_id q' = next_id q"
  using assms by (auto simp: recv_next_msg_def all_for_def split: if_splits list.splits)

lemma mq_run_length: "mq_run n q sends got \<Longrightarrow> n \<le> 65536 \<Longrightarrow> length (mq_queue q) = n"
proof (induction rule: mq_run.induct)
  case (mq_send q sends got s m q' r)
  then show ?case using send_message_spec(1) [OF mq_send.hyps(2)] by simp
next
  case (mq_recv q sends got i q' m)
  then show ?case by (auto simp: recv_next_msg_def split: if_splits list.splits)
qed (simp add: MessagesQueue_new_def)

definition content :: "'m incoming \<Rightarrow> u16 \<times> message_type \<times> 'm" where
  "content m = (inc_sender m, inc_msg_type m, inc_msg m)"

lemma mq_run_content:
  assumes "mq_run n q sends got" and "n \<le> 65536" and "r < n"
  shows "map content (all_for q got r) = concat (map (addressed r) sends)"
  using assms
proof (induction rule: mq_run.induct)
  case mq_start
  then show ?case by (simp add: MessagesQueue_new_def all_for_def)
next
  case (mq_send q sends got s m q' res)
  have n: "length (mq_queue q) = n" using mq_run_length mq_send by blast
  have "map content (all_for q' got r) = map content (all_for q got r) @ addressed r (s, m)"
    using send_message_spec(3) [OF mq_send.hyps(2), of r] n mq_send.prems
    by (simp add: all_for_def content_def comp_def case_prod_unfold)
  with mq_send show ?case by simp
next
  case (mq_recv q sends got i q' m)
  have "length (mq_queue q) = n" using mq_run_length mq_recv by blast
  then show ?case
    using recv_all_for(1) [OF mq_recv.hyps(2), of r got] mq_recv by (simp del: fun_upd_apply)
qed

text \<open>As long as fewer than \<open>2 ^ 64\<close> ids were used, ids do not wrap around.\<close>

definition ids_total :: "nat \<Rightarrow> (u16 \<times> 'm outgoing) list \<Rightarrow> nat" where
  "ids_total n sends = sum_list (map (ids_used n) sends)"

definition ids_for :: "'m messages_queue \<Rightarrow> (nat \<Rightarrow> 'm incoming list) \<Rightarrow> nat \<Rightarrow> nat list" where
  "ids_for q got r = map (\<lambda>m. unat (inc_id m)) (all_for q got r)"

lemma unat_add_of_nat_u64:
  assumes "unat (d :: u64) + k < 2 ^ 64"
  shows "unat (d + of_nat k) = unat d + k"
proof -
  have k: "unat (of_nat k :: u64) = k"
    using assms by (simp add: unat_of_nat take_bit_nat_eq_self)
  then show ?thesis using assms unat_add_lem [of d "of_nat k"] by simp
qed

lemma addressed_le: "addressed r sm \<noteq> [] \<Longrightarrow> r < n \<Longrightarrow> id_offset r sm < ids_used n sm"
  by (auto simp: addressed_def id_offset_def ids_used_def rank_def split: prod.splits message_destination.splits if_splits)

lemma addressed_inj:
  "addressed r sm \<noteq> [] \<Longrightarrow> addressed r' sm \<noteq> [] \<Longrightarrow> r \<noteq> r' \<Longrightarrow> id_offset r sm \<noteq> id_offset r' sm"
  by (auto simp: addressed_def id_offset_def rank_def split: prod.splits message_destination.splits if_splits)

lemma length_addressed: "addressed r sm = [] \<or> (\<exists>x. addressed r sm = [x])"
  by (auto simp: addressed_def split: prod.splits message_destination.splits)

lemma ids_for_send:
  assumes "send_message q s m = (q', res)" and "length (mq_queue q) \<le> 65536"
    and "r < length (mq_queue q)"
    and "unat (next_id q) + ids_used (length (mq_queue q)) (s, m) < 2 ^ 64"
  shows "ids_for q' got r = ids_for q got r @
    (if addressed r (s, m) = [] then [] else [unat (next_id q) + id_offset r (s, m)])"
proof (cases "addressed r (s, m) = []")
  case True
  then show ?thesis
    using send_message_spec(3) [OF assms(1,2,3)] by (simp add: ids_for_def all_for_def)
next
  case False
  then obtain x where x: "addressed r (s, m) = [x]" using length_addressed by blast
  have "unat (next_id q + of_nat (id_offset r (s, m))) = unat (next_id q) + id_offset r (s, m)"
    using addressed_le [OF False assms(3)] assms(4) by (intro unat_add_of_nat_u64) simp
  then show ?thesis
    using send_message_spec(3) [OF assms(1,2,3)] x
    by (simp add: ids_for_def all_for_def case_prod_unfold)
qed

lemma mq_run_ids:
  assumes "mq_run n q sends got" and "n \<le> 65536" and "ids_total n sends < 2 ^ 64"
  shows "unat (next_id q) = ids_total n sends \<and>
    (\<forall>r < n. sorted_wrt (<) (ids_for q got r) \<and> (\<forall>d \<in> set (ids_for q got r). d < ids_total n sends)) \<and>
    (\<forall>r < n. \<forall>r' < n. r \<noteq> r' \<longrightarrow> set (ids_for q got r) \<inter> set (ids_for q got r') = {})"
  using assms
proof (induction rule: mq_run.induct)
  case mq_start
  then show ?case
    by (simp add: MessagesQueue_new_def ids_total_def ids_for_def all_for_def)
next
  case (mq_send q sends got s m q' res)
  have n: "length (mq_queue q) = n" using mq_run_length mq_send by blast
  have tot: "ids_total n (sends @ [(s, m)]) = ids_total n sends + ids_used n (s, m)"
    by (simp add: ids_total_def)
  then have lt: "ids_total n sends < 2 ^ 64" using mq_send.prems by simp
  note IH = mq_send.IH [OF mq_send.prems(1) lt]
  have bound: "unat (next_id q) + ids_used (length (mq_queue q)) (s, m) < 2 ^ 64"
    using IH mq_send.prems(2) tot n by simp
  have ids: "ids_for q' got r = ids_for q got r @
    (if addressed r (s, m) = [] then [] else [ids_total n sends + id_offset r (s, m)])"
    if "r < n" for r
    using ids_for_send [OF mq_send.hyps(2), of r got] that n mq_send.prems bound IH by simp
  have next_id: "unat (next_id q') = ids_total n (sends @ [(s, m)])"
    using send_message_spec(2) [OF mq_send.hyps(2)] n mq_send.prems(1)
      unat_add_of_nat_u64 [OF bound] IH tot by simp
  have inc: "sorted_wrt (<) (ids_for q' got r) \<and> (\<forall>d \<in> set (ids_for q' got r). d < ids_total n (sends @ [(s, m)]))"
    if "r < n" for r
  proof -
    have IH': "sorted_wrt (<) (ids_for q got r)" "\<forall>d \<in> set (ids_for q got r). d < ids_total n sends"
      using IH that by simp_all
    then show ?thesis
      using addressed_le [OF _ that, of "(s, m)"] unfolding ids [OF that] tot
      by (auto simp: sorted_wrt_append trans_less_add1)
  qed
  have disj: "set (ids_for q' got r) \<inter> set (ids_for q' got r') = {}"
    if "r < n" "r' < n" "r \<noteq> r'" for r r'
  proof -
    have "set (ids_for q got r) \<inter> set (ids_for q got r') = {}"
      "\<forall>d \<in> set (ids_for q got r). d < ids_total n sends"
      "\<forall>d \<in> set (ids_for q got r'). d < ids_total n sends"
      using IH that by simp_all
    then show ?thesis
      using addressed_inj [OF _ _ that(3), of "(s, m)"] unfolding ids [OF that(1)] ids [OF that(2)]
      by auto
  qed
  show ?case using next_id inc disj by simp
next
  case (mq_recv q sends got i q' m)
  have n: "length (mq_queue q) = n" using mq_run_length mq_recv by blast
  have "ids_for q' (got(unat i := got (unat i) @ [m])) r = ids_for q got r" if "r < n" for r
    using recv_all_for(1) [OF mq_recv.hyps(2), of r got] that n by (simp add: ids_for_def)
  moreover have "next_id q' = next_id q"
    using mq_recv.hyps(2) by (auto simp: recv_next_msg_def split: if_splits list.splits)
  ultimately show ?case using mq_recv.IH [OF mq_recv.prems] by (simp del: fun_upd_apply)
qed

subsection \<open>Invariants of a simulation\<close>

text \<open>
  A property \<open>P i\<close> of the \<open>i\<close>-th of \<open>n\<close> parties is kept by the turns of that party, which do not
  panic and return only errors in \<open>E\<close>.
\<close>

definition turns_keep ::
  "('sm, 'o, 'm) machine_ops \<Rightarrow> nat \<Rightarrow> (nat \<Rightarrow> ('sm, 'o) sim_party \<Rightarrow> bool) \<Rightarrow> (sim_reason \<Rightarrow> bool) \<Rightarrow> bool"
where
  "turns_keep ops n P E \<longleftrightarrow>
     (\<forall>i < n. \<forall>p q left. P i p \<longrightarrow> length (mq_queue q) = n \<longrightarrow>
        (case party_turn ops (of_nat i) p q left of
           ThisParty p' q' left' \<Rightarrow> P i p'
         | NextParty p' q' left' \<Rightarrow> P i p'
         | ReturnErr e \<Rightarrow> E e
         | TurnPanic \<Rightarrow> True))"

definition active :: "('sm, 'o) sim_party \<Rightarrow> nat" where
  "active p = (case p of Active _ _ \<Rightarrow> 1 | Finished _ \<Rightarrow> 0)"

lemma active_simps [simp]: "active (Active sm w) = 1" "active (Finished out) = 0"
  by (simp_all add: active_def)

lemma recv_next_msg_length:
  "recv_next_msg q i = Ret (q', r) \<Longrightarrow> length (mq_queue q') = length (mq_queue q)"
  by (auto simp: recv_next_msg_def split: if_splits list.splits)

text \<open>A turn keeps the number of queues, and counts the parties left.\<close>

definition books_kept :: "'m messages_queue \<Rightarrow> nat \<Rightarrow> nat \<Rightarrow> ('sm, 'o, 'm) turn \<Rightarrow> bool" where
  "books_kept q left a t \<longleftrightarrow>
     (case t of
        ThisParty p' q' left' \<Rightarrow>
          length (mq_queue q') = length (mq_queue q) \<and> left' + a = left + active p'
      | NextParty p' q' left' \<Rightarrow>
          length (mq_queue q') = length (mq_queue q) \<and> left' + a = left + active p'
      | ReturnErr e \<Rightarrow> True
      | TurnPanic \<Rightarrow> False)"

lemma proceed_party_books:
  assumes "length (mq_queue q) \<le> 65536" and "0 < left"
  shows "books_kept q left 1 (proceed_party ops i sm q left)"
  using assms
  by (auto simp: proceed_party_def books_kept_def send_message_spec(1)
           split: prod.splits proceed_result.splits sum.splits)

lemma party_turn_books:
  assumes "unat i < length (mq_queue q)" and "length (mq_queue q) \<le> 65536" and "active p \<le> left"
  shows "books_kept q left (active p) (party_turn ops i p q left)"
proof (cases p)
  case (Active sm w)
  have left: "0 < left" using assms(3) Active by simp
  have "recv_next_msg q i \<noteq> Panic"
    using assms(1) by (simp add: recv_next_msg_def split: list.splits)
  then obtain q' r where r: "recv_next_msg q i = Ret (q', r)"
    by (cases "recv_next_msg q i") auto
  have q': "length (mq_queue q') = length (mq_queue q)" by (rule recv_next_msg_length [OF r])
  have "books_kept q left 1 (proceed_party ops i sm' q' left)" for sm'
    using proceed_party_books [of q' left ops i sm'] left assms(2) q'
    by (simp add: books_kept_def split: turn.splits)
  then show ?thesis
    using Active r q' proceed_party_books [OF assms(2) left, of ops i sm]
    by (cases "snd (op_received_msg ops sm (the r))")
      (auto simp: party_turn_def books_kept_def [of _ _ _ "NextParty _ _ _"]
                  books_kept_def [of _ _ _ "ReturnErr _"]
            split: option.splits prod.splits sum.splits)
qed (simp add: party_turn_def books_kept_def)

lemma this_party_loop_keep:
  assumes K: "turns_keep ops n P E" and n: "n \<le> 65536" and i: "i < n"
  shows "P i p \<Longrightarrow> length (mq_queue q) = n \<Longrightarrow> active p \<le> left \<Longrightarrow>
    this_party_loop ops fuel (of_nat i) p q left = Some r \<Longrightarrow>
    (case r of
       LoopDone (p', q', left') \<Rightarrow>
         P i p' \<and> length (mq_queue q') = n \<and> left' + active p = left + active p'
     | LoopErr e \<Rightarrow> E e | LoopPanic \<Rightarrow> False)"
proof (induction fuel arbitrary: p q left)
  case (Suc fuel)
  have keep: "case party_turn ops (of_nat i) p q left of
      ThisParty p' q' left' \<Rightarrow> P i p' | NextParty p' q' left' \<Rightarrow> P i p' | ReturnErr e \<Rightarrow> E e | TurnPanic \<Rightarrow> True"
    using K i Suc.prems(1,2) unfolding turns_keep_def by blast
  have books: "books_kept q left (active p) (party_turn ops (of_nat i) p q left)"
    using party_turn_books [of "of_nat i" q p left ops] Suc.prems i n
    by (simp add: unat_of_nat_u16)
  show ?case
  proof (cases "party_turn ops (of_nat i) p q left")
    case (ThisParty p' q' left')
    then have "active p' \<le> left'" "P i p'" "length (mq_queue q') = n"
      and eq: "left' + active p = left + active p'"
      using books keep Suc.prems by (simp_all add: books_kept_def)
    then show ?thesis using Suc.IH [of p' q' left'] Suc.prems(4) ThisParty
      by (auto split: loop_end.splits)
  next
    case (NextParty p' q' left')
    then show ?thesis using books keep Suc.prems by (auto simp: books_kept_def)
  qed (use books keep Suc.prems in \<open>auto simp: books_kept_def\<close>)
qed simp

lemma parties_loop_keep:
  assumes K: "turns_keep ops n P E" and n: "n \<le> 65536"
  shows "\<forall>k < length ps. P (j + k) (ps ! k) \<Longrightarrow> length (mq_queue q) = n \<Longrightarrow>
    j + length ps \<le> n \<Longrightarrow> sum_list (map active ps) \<le> left \<Longrightarrow>
    parties_loop ops fuel ps (of_nat j) q left = Some r \<Longrightarrow>
    (case r of
       LoopDone (ps', q', left') \<Rightarrow>
         length ps' = length ps \<and> (\<forall>k < length ps. P (j + k) (ps' ! k)) \<and> length (mq_queue q') = n \<and>
         left' + sum_list (map active ps) = left + sum_list (map active ps')
     | LoopErr e \<Rightarrow> E e | LoopPanic \<Rightarrow> False)"
proof (induction ps arbitrary: j q left r)
  case (Cons p ps)
  obtain r1 where r1: "this_party_loop ops fuel (of_nat j) p q left = Some r1"
    using Cons.prems(5) by (auto split: option.splits)
  have p: "P j p" and j: "j < n" using Cons.prems(1,3) by force+
  note keep = this_party_loop_keep [OF K n j p Cons.prems(2) _ r1]
  show ?case
  proof (cases r1)
    case (LoopDone x)
    obtain p' q' left' where x: "x = (p', q', left')" by (cases x)
    have k1: "P j p'" "length (mq_queue q') = n" "left' + active p = left + active p'"
      using keep Cons.prems(4) LoopDone x by simp_all
    obtain r2 where r2: "parties_loop ops fuel ps (of_nat (Suc j)) q' left' = Some r2"
      using Cons.prems(5) r1 LoopDone x by (auto simp: add.commute split: option.splits)
    have "case r2 of
       LoopDone (ps', q', left'') \<Rightarrow>
         length ps' = length ps \<and> (\<forall>k < length ps. P (Suc j + k) (ps' ! k)) \<and> length (mq_queue q') = n \<and>
         left'' + sum_list (map active ps) = left' + sum_list (map active ps')
     | LoopErr e \<Rightarrow> E e | LoopPanic \<Rightarrow> False"
      using Cons.IH [OF _ k1(2) _ _ r2] Cons.prems(1,3,4) k1(3) by force
    then show ?thesis
      using Cons.prems(5) r1 r2 LoopDone x k1
      by (auto simp: add.commute nth_Cons split: loop_end.splits nat.splits)
  qed (use keep r1 Cons.prems(4,5) in auto)
qed auto

lemma while_loop_keep:
  assumes K: "turns_keep ops n P E" and n: "n \<le> 65536"
  shows "\<forall>k < n. P k (ps ! k) \<Longrightarrow> length ps = n \<Longrightarrow> length (mq_queue q) = n \<Longrightarrow>
    left = sum_list (map active ps) \<Longrightarrow> while_loop ops fuel passes ps q left = Some r \<Longrightarrow>
    (case r of
       LoopDone ps' \<Rightarrow>
         length ps' = n \<and> (\<forall>k < n. P k (ps' ! k)) \<and> sum_list (map active ps') = 0
     | LoopErr e \<Rightarrow> E e | LoopPanic \<Rightarrow> False)"
proof (induction passes arbitrary: ps q left)
  case 0
  then show ?case by (auto split: if_splits)
next
  case (Suc passes)
  show ?case
  proof (cases "0 < left")
    case True
    obtain r1 where r1: "parties_loop ops fuel ps (of_nat 0) q left = Some r1"
      using Suc.prems(5) True by (auto split: option.splits)
    note keep = parties_loop_keep [OF K n _ _ _ _ r1]
    show ?thesis
    proof (cases r1)
      case (LoopDone x)
      then show ?thesis
        using keep Suc.prems Suc.IH [of "fst x" "fst (snd x)" "snd (snd x)"] r1 True
        by (auto split: prod.splits)
    qed (use keep r1 True Suc.prems in auto)
  next
    case False
    then have "r = LoopDone ps" using Suc.prems(5) by simp
    then show ?thesis using Suc.prems(1,2,4) False by simp
  qed
qed

lemma collect_outputs_finished:
  assumes "sum_list (map active ps) = 0"
  shows "\<exists>outs. collect_outputs ps = Ret outs \<and> ps = map Finished outs"
  using assms
proof (induction ps)
  case (Cons p ps)
  then obtain outs where "collect_outputs ps = Ret outs" "ps = map Finished outs" by auto
  moreover from Cons.prems obtain out where "p = Finished out" by (cases p) auto
  ultimately show ?case by (intro exI [of _ "out # outs"]) simp
qed simp

text \<open>What \<open>run\<close> can return for parties that are all active at the start.\<close>

lemma Simulation_run_keep:
  assumes K: "turns_keep ops (length sim) P E" and n: "length sim \<le> 65536"
    and start: "\<forall>k < length sim. P k (sim ! k)" "\<forall>p \<in> set sim. active p = 1"
    and run: "Simulation_run ops fuel passes sim = Some r"
  shows "(\<exists>outs. r = Ret (Ok outs) \<and> length outs = length sim \<and>
            (\<forall>k < length sim. P k (Finished (outs ! k)))) \<or>
         (\<exists>e. r = Ret (Err e) \<and> E e)"
proof -
  have left: "length sim = sum_list (map active sim)"
    using start(2) by (induction sim) auto
  obtain r1 where r1: "while_loop ops fuel passes sim (MessagesQueue_new (length sim)) (length sim) = Some r1"
    using run by (auto simp: Simulation_run_def split: option.splits)
  have keep: "case r1 of
       LoopDone ps' \<Rightarrow> length ps' = length sim \<and> (\<forall>k < length sim. P k (ps' ! k)) \<and>
         sum_list (map active ps') = 0
     | LoopErr e \<Rightarrow> E e | LoopPanic \<Rightarrow> False"
    by (rule while_loop_keep [OF K n start(1) refl _ left r1]) (simp add: MessagesQueue_new_def)
  show ?thesis
  proof (cases r1)
    case (LoopDone ps')
    then obtain outs where "collect_outputs ps' = Ret outs" "ps' = map Finished outs"
      using keep collect_outputs_finished [of ps'] by auto
    then show ?thesis using run r1 keep LoopDone by (auto simp: Simulation_run_def)
  qed (use run r1 keep in \<open>auto simp: Simulation_run_def\<close>)
qed

subsection \<open>Machines that keep the contract of \<open>StateMachine\<close>\<close>

text \<open>
  The contract the simulation relies on: \<open>proceed\<close> does not fail, and a message is accepted after
  one was asked for. \<open>good sm w\<close> holds of the states of a machine, where \<open>w\<close> tells that it asked for a
  message and has not got it.
\<close>

locale sim_machine =
  fixes ops :: "('sm, 'o, 'm) machine_ops" and good :: "'sm \<Rightarrow> bool \<Rightarrow> bool"
  assumes proceed_good: "good sm False \<Longrightarrow> op_proceed ops sm = (sm', r) \<Longrightarrow>
      (case r of NeedsOneMoreMessage \<Rightarrow> good sm' True | Output out \<Rightarrow> True
       | ProceedError e \<Rightarrow> False | _ \<Rightarrow> good sm' False)"
    and received_good: "good sm True \<Longrightarrow> \<exists>sm'. op_received_msg ops sm m = (sm', Ok ()) \<and> good sm' False"
begin

definition good_party :: "nat \<Rightarrow> ('sm, 'o) sim_party \<Rightarrow> bool" where
  "good_party i p \<longleftrightarrow> (case p of Active sm w \<Rightarrow> good sm w | Finished out \<Rightarrow> True)"

definition addressing_error :: "sim_reason \<Rightarrow> bool" where
  "addressing_error e \<longleftrightarrow> (\<exists>s d. e = UnknownRecipient s d)"

lemma proceed_party_good:
  assumes "good sm False"
  shows "case proceed_party ops i sm q left of
      ThisParty p' q' left' \<Rightarrow> good_party k p' | NextParty p' q' left' \<Rightarrow> good_party k p'
    | ReturnErr e \<Rightarrow> addressing_error e | TurnPanic \<Rightarrow> True"
proof -
  obtain sm' r where p: "op_proceed ops sm = (sm', r)" by fastforce
  have err: "addressing_error e" if "send_message q i m = (q', Err e)" for m q' e
    using send_message_result [of q i m] that
    by (auto simp: addressing_error_def split: message_destination.splits if_splits)
  show ?thesis
    using proceed_good [OF assms p] p err
    by (auto simp: proceed_party_def good_party_def split: proceed_result.splits prod.splits sum.splits)
qed

lemma turns_keep_good: "turns_keep ops n good_party addressing_error"
  unfolding turns_keep_def
proof (intro allI impI)
  fix i p q left
  assume good: "good_party i p"
  show "case party_turn ops (of_nat i) p q left of
      ThisParty p' q' left' \<Rightarrow> good_party i p' | NextParty p' q' left' \<Rightarrow> good_party i p'
    | ReturnErr e \<Rightarrow> addressing_error e | TurnPanic \<Rightarrow> True"
  proof (cases p)
    case (Active sm w)
    then have sm: "good sm w" using good by (simp add: good_party_def)
    show ?thesis
    proof (cases w)
      case True
      show ?thesis
      proof (cases "recv_next_msg q (of_nat i)")
        case (Ret x)
        obtain q' r where x: "x = (q', r)" by fastforce
        show ?thesis
        proof (cases r)
          case (Some m)
          obtain sm' where "op_received_msg ops sm m = (sm', Ok ())" "good sm' False"
            using received_good [of sm m] sm True by auto
          then show ?thesis
            using Active True Ret x Some proceed_party_good [of sm' i "of_nat i" q' left]
            by (simp add: party_turn_def)
        qed (use Active True Ret x good in \<open>simp add: party_turn_def\<close>)
      qed (use Active True in \<open>simp add: party_turn_def\<close>)
    next
      case False
      then show ?thesis
        using Active sm proceed_party_good [of sm i "of_nat i" q left] by (simp add: party_turn_def)
    qed
  qed (simp add: party_turn_def good_party_def)
qed

lemma run_good:
  assumes "length sms \<le> 65536" and "\<forall>sm \<in> set sms. good sm False"
    and "Simulation_run ops fuel passes (map (\<lambda>sm. Active sm False) sms) = Some r"
  shows "(\<exists>outs. r = Ret (Ok outs) \<and> length outs = length sms) \<or>
         (\<exists>s d. r = Ret (Err (UnknownRecipient s d)))"
proof -
  let ?sim = "map (\<lambda>sm. Active sm False) sms :: ('sm, 'o) simulation"
  have "(\<exists>outs. r = Ret (Ok outs) \<and> length outs = length ?sim \<and>
            (\<forall>k < length ?sim. good_party k (Finished (outs ! k)))) \<or>
         (\<exists>e. r = Ret (Err e) \<and> addressing_error e)"
    by (rule Simulation_run_keep [OF turns_keep_good _ _ _ assms(3)])
      (use assms in \<open>auto simp: good_party_def\<close>)
  then show ?thesis by (auto simp: addressing_error_def)
qed

end

text \<open>The state machines of \<open>wrap_protocol\<close> keep it if their futures await only the executor.\<close>

definition async_good :: "('f \<Rightarrow> bool) \<Rightarrow> ('m, 'f) state_machine_impl \<Rightarrow> bool \<Rightarrow> bool" where
  "async_good ok sm w \<longleftrightarrow> shared_inv (shared sm) \<and> \<not> exhausted sm \<and> ok (future sm) \<and>
     (w \<longrightarrow> wants_recv_msg (shared sm))"

context cooperative_future
begin

lemma async_proceed_good:
  assumes "async_good ok sm w" and "proceed resume sm = (sm', r)"
  shows "case r of NeedsOneMoreMessage \<Rightarrow> async_good ok sm' True | Output out \<Rightarrow> True
       | ProceedError e \<Rightarrow> False | _ \<Rightarrow> async_good ok sm' False"
proof -
  obtain tr where p: "proceed_traced resume sm = (sm', tr, r)"
    using assms(2) by (auto simp: proceed_def split: prod.splits)
  have inv: "shared_inv (shared sm)" "\<not> exhausted sm" "ok (future sm)"
    using assms(1) by (simp_all add: async_good_def)
  have kept: "shared_inv (shared sm')" using proceed_slots [OF p inv(1)] by simp
  have ok: "r \<noteq> ProceedError PollingUnknownFuture" "\<not> exhausted sm' \<longrightarrow> ok (future sm')"
    using proceed_ok [OF p inv(1)] inv(3) by simp_all
  show ?thesis using p inv(1)
    by (cases rule: proceed_traced_cases) (use inv kept ok in \<open>auto simp: async_good_def\<close>)
qed

lemma async_received_good:
  assumes "async_good ok sm True"
  shows "\<exists>sm'. sm_received_msg sm m = (sm', Ok ()) \<and> async_good ok sm' False"
  using assms
  by (auto simp: async_good_def sm_received_msg_def executor_received_msg_def shared_inv_defs)

lemma wrap_protocol_good: "ok f \<Longrightarrow> async_good ok (wrap_protocol f) False"
  by (simp add: async_good_def wrap_protocol_def)

end

sublocale cooperative_future \<subseteq> machine: sim_machine "async_ops resume" "async_good ok"
proof
  fix sm sm' r
  assume "async_good ok sm False" "op_proceed (async_ops resume) sm = (sm', r)"
  then show "case r of NeedsOneMoreMessage \<Rightarrow> async_good ok sm' True | Output out \<Rightarrow> True
       | ProceedError e \<Rightarrow> False | _ \<Rightarrow> async_good ok sm' False"
    using async_proceed_good by (simp add: async_ops_def)
next
  fix sm :: "('m, 'f) state_machine_impl" and m
  assume "async_good ok sm True"
  then show "\<exists>sm'. op_received_msg (async_ops resume) sm m = (sm', Ok ()) \<and> async_good ok sm' False"
    using async_received_good by (simp add: async_ops_def)
qed

context cooperative_future
begin

lemmas machine_run_good = machine.run_good

end

interpretation fut_machine: sim_machine "async_ops fut_resume" "async_good (\<lambda>_. True)"
  by (rule fut.machine.sim_machine_axioms)

text \<open>A party between its own steps: it asked for a message, or has finished.\<close>

definition waiting :: "('sm, 'o) sim_party \<Rightarrow> bool" where
  "waiting p \<longleftrightarrow> (case p of Active sm w \<Rightarrow> w | Finished out \<Rightarrow> True)"

subsection \<open>Constructing simulations\<close>

lemma foldl_add_party:
  "foldl (\<lambda>sim x. add_party sim (f x)) sim xs = sim @ map (\<lambda>x. Active (f x) False) xs"
  by (induction xs arbitrary: sim) (simp_all add: add_party_def)

lemma foldl_add_async_party:
  "foldl (\<lambda>sim x. add_async_party sim (f x)) sim xs =
     sim @ map (\<lambda>x. Active (wrap_protocol (f x)) False) xs"
  by (induction xs arbitrary: sim) (simp_all add: add_async_party_def)

lemma sim_run_eq:
  "sim_run resume fuel passes n party_start =
     Simulation_run (async_ops resume) fuel passes
       (map (\<lambda>sm. Active sm False)
          (map (\<lambda>i. wrap_protocol (party_start (of_nat i))) [0..<unat n]))"
proof -
  have "zip (replicate (unat n) ()) (map of_nat [0..<unat n]) =
      map (\<lambda>i. ((), of_nat i :: u16)) [0..<unat n]"
    by (rule nth_equalityI) simp_all
  then show ?thesis
    by (simp add: sim_run_def run_with_setup_def case_prod_unfold foldl_add_party
                  Simulation_empty_def comp_def)
qed

subsection \<open>Properties\<close>

text \<open>C16: The queues of the simulation are FIFO channels that lose, duplicate and misdirect
  nothing. For any interleaving of sends and receives among at most \<open>2 ^ 16\<close> parties, what a party
  received so far followed by what is still queued for it is, in the order of sending, exactly
  what was addressed to it: every broadcast of another party, once, marked as a broadcast of
  its kind, and every point-to-point message to it.\<close>

theorem queues_are_fifo:
  assumes "mq_run n q sends got" and "n \<le> 65536" and "r < n"
  shows "map content (got r @ mq_queue q ! r) = concat (map (addressed r) sends)"
  using mq_run_content [OF assms] by (simp add: all_for_def)

lemma sample_mq_run:
  "\<exists>q. mq_run 3 q [(0, Outgoing_all_parties (7 :: nat)), (2, Outgoing_p2p 1 8)] (\<lambda>_. [])"
proof -
  obtain q1 r1 where 1: "send_message (MessagesQueue_new 3) 0 (Outgoing_all_parties (7 :: nat)) = (q1, r1)"
    by fastforce
  obtain q2 r2 where 2: "send_message q1 2 (Outgoing_p2p 1 8) = (q2, r2)" by fastforce
  from mq_send [OF mq_send [OF mq_start 1] 2] show ?thesis by auto
qed

theorem queues_are_fifo_witness:
  "\<exists>q. mq_run 3 q [(0, Outgoing_all_parties (7 :: nat)), (2, Outgoing_p2p 1 8)] (\<lambda>_. []) \<and>
     map content ([] @ mq_queue q ! 1) = [(0, Broadcast False, 7), (2, P2P, 8)]"
proof -
  obtain q where q: "mq_run 3 q [(0, Outgoing_all_parties (7 :: nat)), (2, Outgoing_p2p 1 8)] (\<lambda>_. [])"
    using sample_mq_run by blast
  with queues_are_fifo [OF q, of 1] show ?thesis
    by (auto simp: addressed_def Outgoing_all_parties_def Outgoing_p2p_def)
qed

text \<open>C23: Message ids are unique. As long as fewer than \<open>2 ^ 64\<close> ids were used, no two messages that
  were ever queued, for the same party or for different ones, have the same id, and the ids of
  the messages of each party increase in the order in which it receives them.\<close>

theorem message_ids_unique:
  assumes "mq_run n q sends got" and "n \<le> 65536" and "ids_total n sends < 2 ^ 64"
    and "r < n" and "r' < n"
  shows "sorted_wrt (<) (ids_for q got r) \<and>
         (r \<noteq> r' \<longrightarrow> set (ids_for q got r) \<inter> set (ids_for q got r') = {})"
  using mq_run_ids [OF assms(1-3)] assms(4,5) by blast

theorem message_ids_unique_witness:
  "\<exists>q. mq_run 3 q [(0, Outgoing_all_parties (7 :: nat)), (2, Outgoing_p2p 1 8)] (\<lambda>_. []) \<and>
     sorted_wrt (<) (ids_for q (\<lambda>_. []) 1) \<and>
     set (ids_for q (\<lambda>_. []) 1) \<inter> set (ids_for q (\<lambda>_. []) 2) = {}"
proof -
  obtain q where q: "mq_run 3 q [(0, Outgoing_all_parties (7 :: nat)), (2, Outgoing_p2p 1 8)] (\<lambda>_. [])"
    using sample_mq_run by blast
  with message_ids_unique [OF q, of 1 2] show ?thesis
    by (auto simp: ids_total_def ids_used_def rank_def Outgoing_all_parties_def Outgoing_p2p_def)
qed

text \<open>A protocol for the instances below: it broadcasts a value, waits for one and returns the sum.\<close>

definition greeter :: "nat \<Rightarrow> (nat, nat) fut" where
  "greeter x =
     FSend (Outgoing_all_parties x) (\<lambda>_. FRecv (\<lambda>r. case r of
         Some (Ok m) \<Rightarrow> FDone (x + inc_msg m) | _ \<Rightarrow> FDone 0))"

lemma greeters_run:
  "Simulation_run (async_ops fut_resume) 5 5
     (map (\<lambda>sm. Active sm False) [wrap_protocol (greeter 1), wrap_protocol (greeter 2)]) =
   Some (Ret (Ok [3, 3]))"
  by code_simp

text \<open>C14: A simulation of protocols that await only what their party provides fails for one reason:
  a party addressed a message to a party that does not exist. The other errors, a message that
  cannot be saved and a failed execution, do not occur, and nothing panics.\<close>

theorem simulation_errors:
  assumes "\<forall>g. ok g \<longrightarrow> awaits_api ok False (resume g)" and "\<forall>i. ok (party_start i)"
    and "sim_run resume fuel passes n party_start = Some r"
  shows "(\<exists>outs. r = Ret (Ok outs) \<and> length outs = unat n) \<or>
         (\<exists>s d. r = Ret (Err (UnknownRecipient s d)))"
proof -
  let ?sms = "map (\<lambda>i. wrap_protocol (party_start (of_nat i))) [0..<unat n]"
  have F: "cooperative_future resume ok" using assms(1) by unfold_locales blast
  have "\<forall>sm \<in> set ?sms. async_good ok sm False"
    using cooperative_future.wrap_protocol_good [OF F] assms(2) by auto
  moreover have "length ?sms \<le> 65536" using unat_u16_bound [of n] by simp
  ultimately show ?thesis
    using cooperative_future.machine_run_good [OF F, of ?sms fuel passes r] assms(3) by (simp add: sim_run_eq)
qed

theorem simulation_errors_witness:
  "(\<exists>outs. Ret (Ok [3, 3]) = (Ret (Ok outs) :: (sim_reason + nat list) or_panic) \<and> length outs = unat (2 :: u16)) \<or>
   (\<exists>s d. Ret (Ok [3, 3]) = (Ret (Err (UnknownRecipient s d)) :: (sim_reason + nat list) or_panic))"
proof (rule simulation_errors [where ok = "\<lambda>_. True" and resume = fut_resume and fuel = 5 and passes = 5])
  show "sim_run fut_resume 5 5 2 (\<lambda>i. greeter (unat i + 1)) = Some (Ret (Ok [3, 3]))"
    using greeters_run by (simp add: sim_run_eq upt_0_2) (simp add: numeral_2_eq_2)
qed (simp_all add: fut_awaits_api)

lemma expect_ok_eq:
  "expect_ok rs = (if \<exists>e. Err e \<in> set rs then Panic else Ret [x. Ok x \<leftarrow> rs])"
proof -
  have "(\<forall>x \<in> set (zip rs [0..<length rs]). \<forall>e. fst x \<noteq> Err e) \<longleftrightarrow> (\<nexists>e. Err e \<in> set rs)"
    by (auto simp: set_zip in_set_conv_nth)
  then show ?thesis
    by (auto simp: expect_ok_def split: sum.splits prod.splits) (metis set_zip_leftD sum.exhaust)
qed

lemma oks_map: "(\<nexists>e. Err e \<in> set rs) \<Longrightarrow> rs = map Ok xs \<longleftrightarrow> [x. Ok x \<leftarrow> rs] = xs"
proof (induction rs arbitrary: xs)
  case (Cons r rs)
  then obtain x where "r = Ok x" by (cases r) auto
  with Cons show ?case by (cases xs) auto
qed auto

lemma expect_eq_Cons:
  "expect_eq (y # zs) = (if \<forall>x \<in> set zs. x = y then Ret y else Panic)"
proof (cases "\<forall>x \<in> set zs. x = y")
  case True
  then have "last (y # zs) = y" using last_in_set [of "y # zs"] by auto
  with True show ?thesis by (simp add: expect_eq_def list_all_iff)
qed (simp add: expect_eq_def list_all_iff)

text \<open>The result of a simulation is checked as documented. \<open>expect_ok\<close> returns the values if every
  party succeeded and panics otherwise; \<open>expect_eq\<close> returns a value if there is a party and all
  parties returned that value, and panics otherwise.\<close>

lemma sim_result_checks:
  "(expect_ok rs = Ret xs \<longleftrightarrow> rs = map Ok xs) \<and>
   (expect_ok rs = Panic \<longleftrightarrow> (\<exists>e. Err e \<in> set rs)) \<and>
   (expect_eq ys = Ret y \<longleftrightarrow> ys \<noteq> [] \<and> set ys = {y}) \<and>
   (expect_eq ys = Panic \<longleftrightarrow> (\<nexists>v. ys \<noteq> [] \<and> set ys = {v}))"
proof (intro conjI)
  show "expect_ok rs = Ret xs \<longleftrightarrow> rs = map Ok xs"
    using oks_map [of rs xs] by (auto simp: expect_ok_eq)
  show "expect_ok rs = Panic \<longleftrightarrow> (\<exists>e. Err e \<in> set rs)"
    by (simp add: expect_ok_eq)
  show "expect_eq ys = Ret y \<longleftrightarrow> ys \<noteq> [] \<and> set ys = {y}"
  proof (cases ys)
    case (Cons z zs)
    show ?thesis unfolding Cons expect_eq_Cons by auto
  qed (simp add: expect_eq_def)
  show "expect_eq ys = Panic \<longleftrightarrow> (\<nexists>v. ys \<noteq> [] \<and> set ys = {v})"
  proof (cases ys)
    case (Cons z zs)
    show ?thesis unfolding Cons expect_eq_Cons by auto
  qed (simp add: expect_eq_def)
qed

end
