(* ===== verification/Sim_Network.thy ===== *)
theory Sim_Network
  imports Simulation
begin

section \<open>A simulation as a run of a network\<close>

text \<open>
  What \<open>Simulation::run\<close> (\<open>round-based/src/sim/mod.rs\<close>) does to its machines and its queues, for any
  machines: every state it comes to is the end of a run of the network, in which each machine was
  called with the messages it took from its queue and handed out the messages that were queued for
  the others. The locale carries such a description of the parties through the loops.
\<close>

subsection \<open>Runs of one machine\<close>

definition requested :: "('o, 'm) proceed_result \<Rightarrow> 'm outgoing list" where
  "requested r = (case r of SendMsg m \<Rightarrow> [m] | _ \<Rightarrow> [])"

text \<open>A machine after some calls: the messages it was given and those it asked to send, in order.\<close>

inductive machine_run ::
  "('sm, 'o, 'm) machine_ops \<Rightarrow> 'sm \<Rightarrow> 'sm \<Rightarrow> 'm incoming list \<Rightarrow> 'm outgoing list \<Rightarrow> bool"
  for ops sm0 where
  machine_start: "machine_run ops sm0 sm0 [] []"
| machine_proceed: "machine_run ops sm0 sm ins outs \<Longrightarrow> op_proceed ops sm = (sm', r) \<Longrightarrow>
    machine_run ops sm0 sm' ins (outs @ requested r)"
| machine_received: "machine_run ops sm0 sm ins outs \<Longrightarrow> op_received_msg ops sm m = (sm', Ok ()) \<Longrightarrow>
    machine_run ops sm0 sm' (ins @ [m]) outs"

definition sent_by :: "nat \<Rightarrow> (u16 \<times> 'm outgoing) list \<Rightarrow> 'm outgoing list" where
  "sent_by i sends = map snd (filter (\<lambda>x. unat (fst x) = i) sends)"

lemma sent_by_simps [simp]:
  "sent_by i [] = []"
  "sent_by i (sends @ [(s, m)]) = sent_by i sends @ (if unat s = i then [m] else [])"
  by (simp_all add: sent_by_def)

subsection \<open>The parties and the queues\<close>

text \<open>
  \<open>T i ins outs p\<close> describes the entry \<open>p\<close> of party \<open>i\<close> after it received \<open>ins\<close> and sent \<open>outs\<close>: here
  all parties are as described, and the queues are what the operations on them made.
\<close>

definition net_inv ::
  "(nat \<Rightarrow> 'm incoming list \<Rightarrow> 'm outgoing list \<Rightarrow> ('sm, 'o) sim_party \<Rightarrow> bool) \<Rightarrow> nat
     \<Rightarrow> (nat \<Rightarrow> ('sm, 'o) sim_party) \<Rightarrow> 'm messages_queue \<Rightarrow> bool" where
  "net_inv T n P q \<longleftrightarrow> (\<exists>sends got. mq_run n q sends got \<and> (\<forall>x \<in> set sends. unat (fst x) < n) \<and>
     (\<forall>i < n. T i (got i) (sent_by i sends) (P i)))"

text \<open>\<open>E i ins outs e\<close> describes the error \<open>e\<close> that party \<open>i\<close> caused.\<close>

definition net_err ::
  "(nat \<Rightarrow> 'm incoming list \<Rightarrow> 'm outgoing list \<Rightarrow> ('sm, 'o) sim_party \<Rightarrow> bool)
     \<Rightarrow> (nat \<Rightarrow> 'm incoming list \<Rightarrow> 'm outgoing list \<Rightarrow> sim_reason \<Rightarrow> bool) \<Rightarrow> nat \<Rightarrow> sim_reason \<Rightarrow> bool"
where
  "net_err T E n e \<longleftrightarrow> (\<exists>P q sends got. mq_run n q sends got \<and> (\<forall>x \<in> set sends. unat (fst x) < n) \<and>
     (\<forall>i < n. T i (got i) (sent_by i sends) (P i)) \<and> (\<exists>i < n. E i (got i) (sent_by i sends) e))"

lemma net_errI:
  assumes "mq_run n q sends got" and "\<forall>x \<in> set sends. unat (fst x) < n"
    and "\<forall>i < n. T i (got i) (sent_by i sends) (P i)" and "i < n" and "E i (got i) (sent_by i sends) e"
  shows "net_err T E n e"
  unfolding net_err_def using assms by blast

lemma net_inv_cong: "net_inv T n P q \<Longrightarrow> \<forall>i < n. P i = P' i \<Longrightarrow> net_inv T n P' q"
  unfolding net_inv_def by metis

locale tracked_machines =
  fixes ops :: "('sm, 'o, 'm) machine_ops" and n :: nat
    and T :: "nat \<Rightarrow> 'm incoming list \<Rightarrow> 'm outgoing list \<Rightarrow> ('sm, 'o) sim_party \<Rightarrow> bool"
    and E :: "nat \<Rightarrow> 'm incoming list \<Rightarrow> 'm outgoing list \<Rightarrow> sim_reason \<Rightarrow> bool"
  assumes proceed_T: "i < n \<Longrightarrow> T i ins outs (Active sm False) \<Longrightarrow> op_proceed ops sm = (sm', r) \<Longrightarrow>
      (case r of
         SendMsg m \<Rightarrow> T i ins (outs @ [m]) (Active sm' False) \<and>
           (\<forall>d. out_recipient m = OneParty d \<longrightarrow> n \<le> unat d \<longrightarrow>
              E i ins outs (UnknownRecipient (of_nat i) d))
       | NeedsOneMoreMessage \<Rightarrow> T i ins outs (Active sm' True)
       | Output out \<Rightarrow> T i ins outs (Finished out)
       | Yielded \<Rightarrow> T i ins outs (Active sm' False)
       | ProceedError e \<Rightarrow> E i ins outs (ExecutionError e))"
    and received_T: "i < n \<Longrightarrow> T i ins outs (Active sm True) \<Longrightarrow>
      op_received_msg ops sm msg = (sm', res) \<Longrightarrow>
      (case res of Ok _ \<Rightarrow> T i (ins @ [msg]) outs (Active sm' False) | Err _ \<Rightarrow> E i ins outs SaveIncomingMsg)"
begin

lemma proceed_party_net:
  assumes few: "n \<le> 65536" and run: "mq_run n q sends got" "\<forall>x \<in> set sends. unat (fst x) < n" and i: "i < n"
    and all: "\<forall>j < n. T j (got j) (sent_by j sends) (P j)" and p: "P i = Active sm False"
  shows "case proceed_party ops (of_nat i) sm q left of
      ThisParty p' q' left' \<Rightarrow> net_inv T n (P(i := p')) q'
    | NextParty p' q' left' \<Rightarrow> net_inv T n (P(i := p')) q'
    | ReturnErr e \<Rightarrow> net_err T E n e
    | TurnPanic \<Rightarrow> False"
proof -
  obtain sm' r where s: "op_proceed ops sm = (sm', r)" by fastforce
  have u: "unat (of_nat i :: u16) = i" using i few by (simp add: unat_of_nat_u16)
  have "T i (got i) (sent_by i sends) (Active sm False)" using all i p by metis
  note step = proceed_T [OF i this s]
  have same: "net_inv T n (P(i := p')) q" if "T i (got i) (sent_by i sends) p'" for p'
    unfolding net_inv_def by (rule exI [of _ sends], rule exI [of _ got]) (use run all that in auto)
  have err: "net_err T E n e" if "E i (got i) (sent_by i sends) e" for e
    by (rule net_errI [where got = got and sends = sends and P = P and T = T and E = E, OF run all i that])
  show ?thesis
  proof (cases r)
    case (SendMsg m)
    obtain q' res where m: "send_message q (of_nat i) m = (q', res)" by fastforce
    show ?thesis
    proof (cases res)
      case (Inl e)
      have "\<exists>d. out_recipient m = OneParty d \<and> n \<le> unat d \<and> e = UnknownRecipient (of_nat i) d"
        using m Inl send_message_result [of q "of_nat i" m] mq_run_length [OF run(1) few]
        by (auto split: message_destination.splits if_splits)
      then show ?thesis using SendMsg s m Inl step err by (auto simp: proceed_party_def)
    next
      case (Inr x)
      have "net_inv T n (P(i := Active sm' False)) q'"
        unfolding net_inv_def
        by (rule exI [of _ "sends @ [(of_nat i, m)]"], rule exI [of _ got])
          (use mq_run.mq_send [OF run(1) m] run(2) i u all SendMsg step in auto)
      then show ?thesis using SendMsg s m Inr by (simp add: proceed_party_def)
    qed
  qed (use s step same err in \<open>simp_all add: proceed_party_def\<close>)
qed

lemma party_turn_net:
  assumes few: "n \<le> 65536" and inv: "net_inv T n P q" and i: "i < n"
  shows "case party_turn ops (of_nat i) (P i) q left of
      ThisParty p' q' left' \<Rightarrow> net_inv T n (P(i := p')) q'
    | NextParty p' q' left' \<Rightarrow> net_inv T n (P(i := p')) q'
    | ReturnErr e \<Rightarrow> net_err T E n e
    | TurnPanic \<Rightarrow> False"
proof -
  obtain sends got where run: "mq_run n q sends got" "\<forall>x \<in> set sends. unat (fst x) < n"
    and all: "\<forall>i < n. T i (got i) (sent_by i sends) (P i)"
    using inv by (auto simp: net_inv_def)
  have u: "unat (of_nat i :: u16) = i" using i few by (simp add: unat_of_nat_u16)
  have len: "length (mq_queue q) = n" by (rule mq_run_length [OF run(1) few])
  have idle: "net_inv T n (P(i := P i)) q" using inv by simp
  show ?thesis
  proof (cases "P i")
    case (Active sm w)
    show ?thesis
    proof (cases w)
      case True
      show ?thesis
      proof (cases "mq_queue q ! i")
        case Nil
        then show ?thesis using Active True idle len i u by (simp add: party_turn_def recv_next_msg_def)
      next
        case (Cons m ms)
        let ?q = "q\<lparr>mq_queue := (mq_queue q)[i := ms]\<rparr>"
        have r: "recv_next_msg q (of_nat i) = Ret (?q, Some m)"
          using Cons len i u by (simp add: recv_next_msg_def)
        obtain sm' res where s: "op_received_msg ops sm m = (sm', res)" by fastforce
        have "T i (got i) (sent_by i sends) (Active sm True)" using all i Active True by metis
        note step = received_T [OF i this s]
        show ?thesis
        proof (cases res)
          case (Inl e)
          then have "net_err T E n SaveIncomingMsg"
            using step
            by (intro net_errI [where got = got and sends = sends and P = P and T = T and E = E, OF run all i]) simp
          then show ?thesis using Active True r s Inl by (simp add: party_turn_def)
        next
          case (Inr x)
          have "mq_run n ?q sends (got(i := got i @ [m]))"
            using mq_run.mq_recv [OF run(1) r] u by simp
          note turn = proceed_party_net [OF few this run(2) i, of "P(i := Active sm' False)" sm' left,
              unfolded fun_upd_upd]
          have "\<forall>j < n. T j ((got(i := got i @ [m])) j) (sent_by j sends) ((P(i := Active sm' False)) j)"
            using all step Inr by simp
          then show ?thesis using Active True r s Inr turn by (simp add: party_turn_def)
        qed
      qed
    next
      case False
      then show ?thesis
        using proceed_party_net [OF few run i all, of sm left] Active by (simp add: party_turn_def)
    qed
  qed (use idle in \<open>simp add: party_turn_def\<close>)
qed

lemma this_party_loop_net:
  assumes few: "n \<le> 65536" and i: "i < n"
  shows "net_inv T n P q \<Longrightarrow> this_party_loop ops fuel (of_nat i) (P i) q left = Some r \<Longrightarrow>
    (case r of
       LoopDone (p', q', left') \<Rightarrow> net_inv T n (P(i := p')) q'
     | LoopErr e \<Rightarrow> net_err T E n e | LoopPanic \<Rightarrow> False)"
proof (induction fuel arbitrary: P q left)
  case (Suc fuel)
  note turn = party_turn_net [OF few Suc.prems(1) i, of left]
  show ?case
  proof (cases "party_turn ops (of_nat i) (P i) q left")
    case (ThisParty p' q' left')
    then have inv: "net_inv T n (P(i := p')) q'" using turn by simp
    have "this_party_loop ops fuel (of_nat i) ((P(i := p')) i) q' left' = Some r"
      using Suc.prems(2) ThisParty by simp
    from Suc.IH [OF inv this] show ?thesis unfolding fun_upd_upd .
  qed (use turn Suc.prems(2) in auto)
qed simp

lemma parties_loop_net:
  assumes few: "n \<le> 65536"
  shows "net_inv T n P q \<Longrightarrow> \<forall>k < length ps. P (j + k) = ps ! k \<Longrightarrow> j + length ps \<le> n \<Longrightarrow>
    parties_loop ops fuel ps (of_nat j) q left = Some r \<Longrightarrow>
    (case r of
       LoopDone (ps', q', left') \<Rightarrow> length ps' = length ps \<and>
         (\<exists>P'. net_inv T n P' q' \<and> (\<forall>k < length ps. P' (j + k) = ps' ! k) \<and> (\<forall>x < j. P' x = P x))
     | LoopErr e \<Rightarrow> net_err T E n e | LoopPanic \<Rightarrow> False)"
proof (induction ps arbitrary: j P q left r)
  case (Cons p ps)
  have p: "P j = p" and j: "j < n" using Cons.prems(2,3) by force+
  obtain r1 where r1: "this_party_loop ops fuel (of_nat j) p q left = Some r1"
    using Cons.prems(4) by (auto split: option.splits)
  note keep = this_party_loop_net [OF few j Cons.prems(1) r1 [folded p]]
  show ?case
  proof (cases r1)
    case (LoopDone x)
    obtain p' q' left' where x: "x = (p', q', left')" by (cases x)
    obtain r2 where r2: "parties_loop ops fuel ps (of_nat (Suc j)) q' left' = Some r2"
      using Cons.prems(4) r1 LoopDone x by (auto simp: add.commute split: option.splits)
    have inv: "net_inv T n (P(j := p')) q'" using keep LoopDone x by simp
    have ps: "\<forall>k < length ps. (P(j := p')) (Suc j + k) = ps ! k"
      using Cons.prems(2) by force
    have "Suc j + length ps \<le> n" using Cons.prems(3) by simp
    note IH = Cons.IH [OF inv ps this r2]
    show ?thesis
    proof (cases r2)
      case 2: (LoopDone y)
      obtain ps' q'' left'' where y: "y = (ps', q'', left'')" by (cases y)
      obtain P' where P': "length ps' = length ps" "net_inv T n P' q''"
        "\<forall>k < length ps. P' (Suc j + k) = ps' ! k" "\<forall>x < Suc j. P' x = (P(j := p')) x"
        using IH 2 y by auto
      have "\<forall>k < length (p # ps). P' (j + k) = (p' # ps') ! k"
        using P'(3,4) by (auto simp: nth_Cons split: nat.splits)
      moreover have "\<forall>x < j. P' x = P x" using P'(4) by simp
      ultimately have "\<exists>P'. net_inv T n P' q'' \<and> (\<forall>k < length (p # ps). P' (j + k) = (p' # ps') ! k) \<and>
          (\<forall>x < j. P' x = P x)"
        using P'(2) by blast
      then show ?thesis using Cons.prems(4) r1 r2 LoopDone x 2 y P'(1) by (auto simp: add.commute)
    qed (use IH Cons.prems(4) r1 r2 LoopDone x in \<open>auto simp: add.commute\<close>)
  qed (use keep r1 Cons.prems(4) in auto)
qed auto

text \<open>The list of parties is as described; one pass of the outer loop keeps that.\<close>

definition list_inv :: "('sm, 'o) simulation \<Rightarrow> 'm messages_queue \<Rightarrow> bool" where
  "list_inv ps q \<longleftrightarrow> length ps = n \<and> net_inv T n (\<lambda>i. ps ! i) q"

lemma pass_net:
  assumes "n \<le> 65536" and "list_inv ps q" and "parties_loop ops fuel ps 0 q left = Some r"
  shows "case r of
       LoopDone (ps', q', left') \<Rightarrow> list_inv ps' q'
     | LoopErr e \<Rightarrow> net_err T E n e | LoopPanic \<Rightarrow> False"
  using parties_loop_net [OF assms(1), of "\<lambda>i. ps ! i" q ps 0 fuel left r] assms(2,3) net_inv_cong [of T n]
  by (auto simp: list_inv_def split: loop_end.splits)

lemma while_loop_net:
  assumes few: "n \<le> 65536"
  shows "list_inv ps q \<Longrightarrow> while_loop ops fuel passes ps q left = Some r \<Longrightarrow>
    (case r of LoopDone ps' \<Rightarrow> \<exists>q'. list_inv ps' q' | LoopErr e \<Rightarrow> net_err T E n e | LoopPanic \<Rightarrow> False)"
proof (induction passes arbitrary: ps q left)
  case (Suc passes)
  show ?case
  proof (cases "0 < left")
    case True
    then obtain r1 where r1: "parties_loop ops fuel ps 0 q left = Some r1"
      using Suc.prems(2) by (auto split: option.splits)
    show ?thesis
    proof (cases r1)
      case (LoopDone x)
      then show ?thesis
        using pass_net [OF few Suc.prems(1) r1] Suc.prems(2) True r1 Suc.IH by (cases x) auto
    qed (use pass_net [OF few Suc.prems(1) r1] Suc.prems(2) True r1 in auto)
  qed (use Suc.prems in auto)
qed (auto split: if_splits)

text \<open>What \<open>run\<close> returns.\<close>

lemma start_list_inv:
  "length sim = n \<Longrightarrow> (\<And>i. i < n \<Longrightarrow> T i [] [] (sim ! i)) \<Longrightarrow> list_inv sim (MessagesQueue_new n)"
  unfolding list_inv_def net_inv_def
  by (intro conjI exI [of _ "[]"] exI [of _ "\<lambda>_. []"]) (simp_all add: mq_run.mq_start)

lemma run_net:
  assumes few: "n \<le> 65536" and start: "\<And>i. i < n \<Longrightarrow> T i [] [] (sim ! i)" and len: "length sim = n"
    and active: "\<forall>p \<in> set sim. active p = 1" and run: "Simulation_run ops fuel passes sim = Some r"
  shows "(\<exists>outs q. r = Ret (Ok outs) \<and> list_inv (map Finished outs) q) \<or>
         (\<exists>e. r = Ret (Err e) \<and> net_err T E n e)"
proof -
  have inv: "list_inv sim (MessagesQueue_new n)"
    using start_list_inv [OF len] start by simp
  obtain r1 where r1: "while_loop ops fuel passes sim (MessagesQueue_new n) n = Some r1"
    using run len by (auto simp: Simulation_run_def split: option.splits)
  have K: "turns_keep ops n (\<lambda>_ _. True) (\<lambda>_. True)"
    by (simp add: turns_keep_def split: turn.splits)
  have left: "n = sum_list (map active sim)" using active len by (induction sim arbitrary: n) auto
  note keep = while_loop_net [OF few inv r1]
  show ?thesis
  proof (cases r1)
    case (LoopDone ps)
    have "sum_list (map active ps) = 0"
      using while_loop_keep [OF K few _ len _ left r1] LoopDone by (simp add: MessagesQueue_new_def)
    then obtain outs where outs: "collect_outputs ps = Ret outs" "ps = map Finished outs"
      using collect_outputs_finished [of ps] by blast
    then have "r = Ret (Ok outs)" using run r1 LoopDone len by (simp add: Simulation_run_def)
    then show ?thesis using keep LoopDone outs(2) by auto
  qed (use keep run r1 len in \<open>auto simp: Simulation_run_def\<close>)
qed

end

subsection \<open>Runs of the network\<close>

text \<open>
  The machines \<open>sms\<close> as a network: what was sent, in order, and what each machine received. Each made
  a run of its own that received what it got and sent what it sent, and what it got is the first
  part of what was addressed to it.
\<close>

definition network_run ::
  "('sm, 'o, 'm) machine_ops \<Rightarrow> 'sm list \<Rightarrow> (u16 \<times> 'm outgoing) list \<Rightarrow> (nat \<Rightarrow> 'm incoming list) \<Rightarrow> bool"
where
  "network_run ops sms sends got \<longleftrightarrow> (\<forall>x \<in> set sends. unat (fst x) < length sms) \<and>
     (\<forall>i < length sms. (\<exists>sm. machine_run ops (sms ! i) sm (got i) (sent_by i sends)) \<and>
        (\<exists>rest. map content (got i) @ rest = concat (map (addressed i) sends)))"

text \<open>How a machine ends a run: with an output, waiting for a message, or with an error.\<close>

definition run_outputs ::
  "('sm, 'o, 'm) machine_ops \<Rightarrow> 'sm \<Rightarrow> 'm incoming list \<Rightarrow> 'm outgoing list \<Rightarrow> 'o \<Rightarrow> bool" where
  "run_outputs ops sm0 ins outs out \<longleftrightarrow>
     (\<exists>sm. machine_run ops sm0 sm ins outs \<and> snd (op_proceed ops sm) = Output out)"

definition run_waits ::
  "('sm, 'o, 'm) machine_ops \<Rightarrow> 'sm \<Rightarrow> 'm incoming list \<Rightarrow> 'm outgoing list \<Rightarrow> bool" where
  "run_waits ops sm0 ins outs \<longleftrightarrow>
     (\<exists>sm. machine_run ops sm0 sm ins outs \<and> snd (op_proceed ops sm) = NeedsOneMoreMessage)"

definition run_fails ::
  "('sm, 'o, 'm) machine_ops \<Rightarrow> nat \<Rightarrow> nat \<Rightarrow> 'sm \<Rightarrow> 'm incoming list \<Rightarrow> 'm outgoing list \<Rightarrow> sim_reason \<Rightarrow> bool"
where
  "run_fails ops n i sm0 ins outs e \<longleftrightarrow> (\<exists>sm. machine_run ops sm0 sm ins outs \<and>
     (case e of
        SaveIncomingMsg \<Rightarrow> \<exists>m. \<not> is_ok (snd (op_received_msg ops sm m))
      | ExecutionError x \<Rightarrow> snd (op_proceed ops sm) = ProceedError x
      | UnknownRecipient s d \<Rightarrow> s = of_nat i \<and> n \<le> unat d \<and>
          (\<exists>m. snd (op_proceed ops sm) = SendMsg m \<and> out_recipient m = OneParty d)))"

definition machine_party ::
  "('sm, 'o, 'm) machine_ops \<Rightarrow> 'sm \<Rightarrow> 'm incoming list \<Rightarrow> 'm outgoing list \<Rightarrow> ('sm, 'o) sim_party \<Rightarrow> bool"
where
  "machine_party ops sm0 ins outs p \<longleftrightarrow>
     (case p of
        Active sm w \<Rightarrow> machine_run ops sm0 sm ins outs \<and> (w \<longrightarrow> run_waits ops sm0 ins outs)
      | Finished out \<Rightarrow> run_outputs ops sm0 ins outs out)"

lemma machine_party_run:
  "machine_party ops sm0 ins outs p \<Longrightarrow> \<exists>sm. machine_run ops sm0 sm ins outs"
  by (auto simp: machine_party_def run_outputs_def split: sim_party.splits)

text \<open>The machines of any simulation are tracked by their own runs.\<close>

interpretation machine_net: tracked_machines ops "length sms" "\<lambda>i. machine_party ops (sms ! i)"
    "\<lambda>i. run_fails ops (length sms) i (sms ! i)"
  for ops :: "('sm, 'o, 'm) machine_ops" and sms :: "'sm list"
proof
  fix i ins outs sm sm' r
  assume run: "machine_party ops (sms ! i) ins outs (Active sm False)" and p: "op_proceed ops sm = (sm', r)"
  then have sm: "machine_run ops (sms ! i) sm ins outs" by (simp add: machine_party_def)
  have r: "snd (op_proceed ops sm) = r" using p by simp
  have sm': "machine_run ops (sms ! i) sm' ins (outs @ requested r)" by (rule machine_proceed [OF sm p])
  show "case r of
         SendMsg m \<Rightarrow> machine_party ops (sms ! i) ins (outs @ [m]) (Active sm' False) \<and>
           (\<forall>d. out_recipient m = OneParty d \<longrightarrow> length sms \<le> unat d \<longrightarrow>
              run_fails ops (length sms) i (sms ! i) ins outs (UnknownRecipient (of_nat i) d))
       | NeedsOneMoreMessage \<Rightarrow> machine_party ops (sms ! i) ins outs (Active sm' True)
       | Output out \<Rightarrow> machine_party ops (sms ! i) ins outs (Finished out)
       | Yielded \<Rightarrow> machine_party ops (sms ! i) ins outs (Active sm' False)
       | ProceedError e \<Rightarrow> run_fails ops (length sms) i (sms ! i) ins outs (ExecutionError e)"
    using sm sm' r
    by (cases r) (auto simp: requested_def machine_party_def run_waits_def run_outputs_def run_fails_def)
next
  fix i ins outs sm m sm' r
  assume run: "machine_party ops (sms ! i) ins outs (Active sm True)"
    and p: "op_received_msg ops sm m = (sm', r)"
  then have sm: "machine_run ops (sms ! i) sm ins outs" by (simp add: machine_party_def)
  show "case r of Ok _ \<Rightarrow> machine_party ops (sms ! i) (ins @ [m]) outs (Active sm' False)
      | Err _ \<Rightarrow> run_fails ops (length sms) i (sms ! i) ins outs SaveIncomingMsg"
  proof (cases r)
    case (Inl x)
    then have "\<not> is_ok (snd (op_received_msg ops sm m))" using p by simp
    then show ?thesis using sm Inl by (auto simp: run_fails_def)
  next
    case (Inr u)
    then show ?thesis using machine_received [OF sm, of m sm'] p by (simp add: machine_party_def)
  qed
qed

lemma network_runI:
  assumes "mq_run (length sms) q sends got" and "\<forall>x \<in> set sends. unat (fst x) < length sms"
    and "\<forall>i < length sms. machine_party ops (sms ! i) (got i) (sent_by i sends) (P i)"
    and "length sms \<le> 65536"
  shows "network_run ops sms sends got"
  using assms machine_party_run mq_run_content [OF assms(1,4)]
  unfolding network_run_def all_for_def by (metis map_append)

lemma run_explained:
  assumes "Simulation_run ops fuel passes (map (\<lambda>sm. Active sm False) sms) = Some r"
    and "length sms \<le> 65536"
  shows "\<exists>sends got. network_run ops sms sends got \<and>
     ((\<exists>outs. r = Ret (Ok outs) \<and> length outs = length sms \<and>
         (\<forall>i < length sms. run_outputs ops (sms ! i) (got i) (sent_by i sends) (outs ! i))) \<or>
      (\<exists>e. r = Ret (Err e) \<and>
         (\<exists>i < length sms. run_fails ops (length sms) i (sms ! i) (got i) (sent_by i sends) e)))"
proof -
  have start: "machine_party ops (sms ! i) [] [] (map (\<lambda>sm. Active sm False) sms ! i)" if "i < length sms" for i
    using that by (simp add: machine_party_def machine_start)
  from machine_net.run_net [OF assms(2) start _ _ assms(1)]
  consider (ok) outs q where "r = Ret (Ok outs)" "machine_net.list_inv sms ops (map Finished outs) q"
    | (err) e where "r = Ret (Err e)" "net_err (\<lambda>i. machine_party ops (sms ! i))
        (\<lambda>i. run_fails ops (length sms) i (sms ! i)) (length sms) e"
    by auto
  then show ?thesis
  proof cases
    case ok
    then have len: "length outs = length sms"
      and inv: "net_inv (\<lambda>i. machine_party ops (sms ! i)) (length sms) (\<lambda>i. map Finished outs ! i) q"
      by (simp_all add: machine_net.list_inv_def)
    from inv obtain sends got where run: "mq_run (length sms) q sends got"
      "\<forall>x \<in> set sends. unat (fst x) < length sms"
      "\<forall>i < length sms. machine_party ops (sms ! i) (got i) (sent_by i sends) (map Finished outs ! i)"
      unfolding net_inv_def by blast
    then have "\<forall>i < length sms. run_outputs ops (sms ! i) (got i) (sent_by i sends) (outs ! i)"
      using len by (simp add: machine_party_def)
    then show ?thesis using network_runI [OF run assms(2)] ok(1) len by blast
  next
    case err
    then show ?thesis using network_runI [OF _ _ _ assms(2)] unfolding net_err_def by blast
  qed
qed

subsection \<open>Properties\<close>

text \<open>C24: What a simulation returns comes from its own run. For any state machines, if \<open>run\<close>
  returns, it did not panic (neither on the queues nor at the point marked unreachable), and there
  is a run of the network - each machine received, in order, the first of the messages that the
  others addressed to it, and sent what its own calls asked for - in which either every machine
  ended with the output returned at its place, or the machine of some party failed with the error
  returned: it asked to send a message to a party that does not exist, refused a message, or
  reported an error.\<close>

theorem simulation_returns_outputs:
  assumes "Simulation_run ops fuel passes (map (\<lambda>sm. Active sm False) sms) = Some r"
    and "length sms \<le> 65536"
  shows "\<exists>sends got. network_run ops sms sends got \<and>
     ((\<exists>outs. r = Ret (Ok outs) \<and> length outs = length sms \<and>
         (\<forall>i < length sms. run_outputs ops (sms ! i) (got i) (sent_by i sends) (outs ! i))) \<or>
      (\<exists>e. r = Ret (Err e) \<and>
         (\<exists>i < length sms. run_fails ops (length sms) i (sms ! i) (got i) (sent_by i sends) e)))"
  by (rule run_explained [OF assms])

theorem simulation_returns_outputs_witness:
  "\<exists>sends got. network_run (async_ops fut_resume) [wrap_protocol (greeter 1), wrap_protocol (greeter 2)] sends got \<and>
     run_outputs (async_ops fut_resume) (wrap_protocol (greeter 2)) (got 1) (sent_by 1 sends) 3"
  using simulation_returns_outputs [OF greeters_run] by (auto simp: less_Suc_eq numeral_2_eq_2)

end
