(* ===== verification/Sim_Termination.thy ===== *)
theory Sim_Termination
  imports Sim_Network
begin

section \<open>Termination of the simulation\<close>

text \<open>
  The loops of \<open>Simulation::run\<close> (\<open>round-based/src/sim/mod.rs\<close>) run until every party has finished.
  Nothing in them bounds what a party does: a party that sends or yields forever keeps them busy
  forever. This theory shows that this and a deadlock are the only reasons: for machines that take
  finitely many steps, either \<open>run\<close> returns, or it reaches a state in which all the parties that are
  left wait for messages that nobody sends.
\<close>

subsection \<open>More fuel changes nothing\<close>

lemma this_party_loop_mono:
  "this_party_loop ops fuel i p q left = Some r \<Longrightarrow> fuel \<le> fuel' \<Longrightarrow>
   this_party_loop ops fuel' i p q left = Some r"
proof (induction fuel arbitrary: fuel' p q left)
  case (Suc fuel)
  then obtain fuel'' where "fuel' = Suc fuel''" "fuel \<le> fuel''" by (cases fuel') auto
  then show ?case using Suc by (auto split: turn.splits)
qed simp

lemma parties_loop_mono:
  "parties_loop ops fuel ps i q left = Some r \<Longrightarrow> fuel \<le> fuel' \<Longrightarrow>
   parties_loop ops fuel' ps i q left = Some r"
proof (induction ps arbitrary: i q left r)
  case (Cons p ps)
  obtain r1 where r1: "this_party_loop ops fuel i p q left = Some r1"
    using Cons.prems(1) by (auto split: option.splits)
  note same = this_party_loop_mono [OF r1 Cons.prems(2)]
  show ?case
  proof (cases r1)
    case (LoopDone x)
    then obtain r2 where "parties_loop ops fuel ps (i + 1) (fst (snd x)) (snd (snd x)) = Some r2"
      using Cons.prems(1) r1 by (auto split: option.splits prod.splits)
    then show ?thesis
      using Cons.IH [of "i + 1" "fst (snd x)" "snd (snd x)"] Cons.prems r1 same LoopDone
      by (auto split: prod.splits)
  qed (use Cons.prems r1 same in auto)
qed simp

lemma while_loop_mono:
  "while_loop ops fuel passes ps q left = Some r \<Longrightarrow> fuel \<le> fuel' \<Longrightarrow> passes \<le> passes' \<Longrightarrow>
   while_loop ops fuel' passes' ps q left = Some r"
proof (induction passes arbitrary: passes' ps q left)
  case 0
  then show ?case by (cases passes') (auto split: if_splits)
next
  case (Suc passes)
  then obtain k where k: "passes' = Suc k" "passes \<le> k" by (cases passes') auto
  show ?case
  proof (cases "0 < left")
    case True
    then obtain r1 where r1: "parties_loop ops fuel ps 0 q left = Some r1"
      using Suc.prems(1) by (auto split: option.splits)
    show ?thesis
      using Suc.prems Suc.IH k True r1 parties_loop_mono [OF r1 Suc.prems(2)]
      by (cases r1) (auto split: prod.splits)
  qed (use Suc.prems k in simp)
qed

lemma Simulation_run_mono:
  "Simulation_run ops fuel passes sim = Some r \<Longrightarrow> fuel \<le> fuel' \<Longrightarrow> passes \<le> passes' \<Longrightarrow>
   Simulation_run ops fuel' passes' sim = Some r"
  by (auto simp: Simulation_run_def split: option.splits dest: while_loop_mono)

subsection \<open>Passes over the parties\<close>

text \<open>The state of the simulation after \<open>k\<close> passes of the outer loop, if it is not over before.\<close>

primrec after_passes ::
  "('sm, 'o, 'm) machine_ops \<Rightarrow> nat \<Rightarrow> nat \<Rightarrow> ('sm, 'o) simulation \<Rightarrow> 'm messages_queue \<Rightarrow> nat
     \<Rightarrow> (('sm, 'o) simulation \<times> 'm messages_queue \<times> nat) option" where
  "after_passes ops fuel 0 ps q left = (if 0 < left then Some (ps, q, left) else None)"
| "after_passes ops fuel (Suc k) ps q left =
     (if 0 < left then
        (case parties_loop ops fuel ps 0 q left of
           Some (LoopDone (ps', q', left')) \<Rightarrow> after_passes ops fuel k ps' q' left'
         | _ \<Rightarrow> None)
      else None)"

lemma after_passes_mono:
  "after_passes ops fuel k ps q left = Some x \<Longrightarrow> fuel \<le> fuel' \<Longrightarrow>
   after_passes ops fuel' k ps q left = Some x"
  by (induction k arbitrary: ps q left)
    (auto split: if_splits option.splits loop_end.splits dest: parties_loop_mono)

text \<open>
  No party can go on: those that have not finished wait, and nothing is queued for them. The
  queues of the parties that have finished may hold messages, which nobody reads.
\<close>

definition stuck :: "('sm, 'o) sim_party \<Rightarrow> 'm messages_queue \<Rightarrow> nat \<Rightarrow> bool" where
  "stuck p q i \<longleftrightarrow> (case p of Active sm w \<Rightarrow> w \<and> mq_queue q ! i = [] | Finished out \<Rightarrow> True)"

definition deadlocked :: "('sm, 'o) simulation \<Rightarrow> 'm messages_queue \<Rightarrow> bool" where
  "deadlocked ps q \<longleftrightarrow> (\<forall>k < length ps. stuck (ps ! k) q k)"

lemma party_turn_stuck:
  assumes "stuck p q i" and "i < length (mq_queue q)" and "length (mq_queue q) \<le> 65536"
  shows "party_turn ops (of_nat i) p q left = NextParty p q left"
  using assms
  by (auto simp: stuck_def party_turn_def recv_next_msg_def unat_of_nat_u16 split: sim_party.splits)

lemma parties_loop_stuck:
  assumes "\<forall>k < length ps. stuck (ps ! k) q (j + k)"
    and "j + length ps \<le> length (mq_queue q)" and "length (mq_queue q) \<le> 65536"
  shows "parties_loop ops (Suc fuel) ps (of_nat j) q left = Some (LoopDone (ps, q, left))"
  using assms(1,2)
proof (induction ps arbitrary: j)
  case (Cons p ps)
  have "stuck p q j" using Cons.prems(1) by force
  then have "party_turn ops (of_nat j) p q left = NextParty p q left"
    using Cons.prems assms(3) by (simp add: party_turn_stuck)
  moreover have "\<forall>k < length ps. stuck (ps ! k) q (Suc j + k)" using Cons.prems(1) by force
  then have "parties_loop ops (Suc fuel) ps (of_nat (Suc j)) q left = Some (LoopDone (ps, q, left))"
    using Cons.IH [of "Suc j"] Cons.prems(2) by simp
  ultimately show ?case by (simp add: add.commute)
qed simp

lemma while_loop_stuck:
  assumes "deadlocked ps q" and "length (mq_queue q) = length ps" and "length ps \<le> 65536"
    and "0 < left" and "ps \<noteq> []"
  shows "while_loop ops fuel passes ps q left = None"
proof (induction passes)
  case (Suc passes)
  show ?case
  proof (cases fuel)
    case 0
    then show ?thesis using assms(4,5) by (cases ps) simp_all
  next
    case (Suc fuel')
    then have "parties_loop ops fuel ps (of_nat 0) q left = Some (LoopDone (ps, q, left))"
      using parties_loop_stuck [of ps q 0] assms(1-3) by (simp add: deadlocked_def)
    then show ?thesis using Suc.IH assms(4) by simp
  qed
qed (use assms in simp)

text \<open>A loop that does not return after some passes does not return at all.\<close>

lemma while_loop_after:
  assumes "after_passes ops fuel k ps q left = Some (ps', q', left')"
    and never: "\<And>fuel passes. while_loop ops fuel passes ps' q' left' = None"
  shows "while_loop ops fuel' passes ps q left = None"
  using assms(1)
proof (induction k arbitrary: passes ps q left)
  case 0
  then show ?case using never by (simp split: if_splits)
next
  case (Suc k)
  obtain ps1 q1 left1 where l: "0 < left" "parties_loop ops fuel ps 0 q left = Some (LoopDone (ps1, q1, left1))"
    and a: "after_passes ops fuel k ps1 q1 left1 = Some (ps', q', left')"
    using Suc.prems by (auto split: if_splits option.splits loop_end.splits)
  show ?case
  proof (cases passes)
    case (Suc passes1)
    show ?thesis
    proof (cases "parties_loop ops fuel' ps 0 q left")
      case (Some x)
      then have "x = LoopDone (ps1, q1, left1)"
        using parties_loop_mono [OF Some, of "max fuel fuel'"] parties_loop_mono [OF l(2), of "max fuel fuel'"]
        by simp
      then show ?thesis using Suc.IH [OF a, of passes1] Some l(1) Suc by simp
    qed (use l Suc in simp)
  qed (use l in simp)
qed

lemma after_passes_keep:
  assumes n: "n \<le> 65536"
  shows "length ps = n \<Longrightarrow> length (mq_queue q) = n \<Longrightarrow> left = sum_list (map active ps) \<Longrightarrow>
    after_passes ops fuel k ps q left = Some (ps', q', left') \<Longrightarrow>
    length ps' = n \<and> length (mq_queue q') = n \<and> left' = sum_list (map active ps') \<and> 0 < left'"
proof (induction k arbitrary: ps q left)
  case (Suc k)
  have K: "turns_keep ops n (\<lambda>_ _. True) (\<lambda>_. True)"
    by (simp add: turns_keep_def split: turn.splits)
  obtain ps1 q1 left1 where r: "parties_loop ops fuel ps (of_nat 0) q left = Some (LoopDone (ps1, q1, left1))"
    and a: "after_passes ops fuel k ps1 q1 left1 = Some (ps', q', left')"
    using Suc.prems(4) by (auto split: if_splits option.splits loop_end.splits)
  show ?case
    using parties_loop_keep [OF K n _ Suc.prems(2) _ _ r] Suc.prems(1,3) Suc.IH [OF _ _ _ a] by simp
qed (auto split: if_splits)

text \<open>A simulation that comes to a deadlock never returns.\<close>

lemma Simulation_run_deadlock:
  assumes "after_passes ops fuel k sim (MessagesQueue_new (length sim)) (length sim) = Some (ps, q, left)"
    and "deadlocked ps q" and "\<forall>p \<in> set sim. active p = 1" and "length sim \<le> 65536"
  shows "Simulation_run ops fuel' passes sim = None"
proof -
  have "length sim = sum_list (map active sim)" using assms(3) by (induction sim) auto
  from after_passes_keep [OF assms(4) refl _ this assms(1)]
  have keep: "length ps = length sim" "length (mq_queue q) = length sim" "0 < left" "ps \<noteq> []"
    by (auto simp: MessagesQueue_new_def)
  have "while_loop ops fuel' passes sim (MessagesQueue_new (length sim)) (length sim) = None"
    by (rule while_loop_after [OF assms(1)], rule while_loop_stuck)
      (use keep assms(2,4) in simp_all)
  then show ?thesis by (simp add: Simulation_run_def)
qed

subsection \<open>Machines that take finitely many steps\<close>

text \<open>
  One step of a machine in a simulation, with the flag that tells that it waits for a message: a call
  of \<open>proceed\<close> that does not end it, or of \<open>received_msg\<close> with any message that it accepts.
\<close>

inductive machine_step :: "('sm, 'o, 'm) machine_ops \<Rightarrow> 'sm \<times> bool \<Rightarrow> 'sm \<times> bool \<Rightarrow> bool" for ops where
  step_sends: "op_proceed ops sm = (sm', SendMsg m) \<Longrightarrow> machine_step ops (sm, False) (sm', False)"
| step_yields: "op_proceed ops sm = (sm', Yielded) \<Longrightarrow> machine_step ops (sm, False) (sm', False)"
| step_waits: "op_proceed ops sm = (sm', NeedsOneMoreMessage) \<Longrightarrow> machine_step ops (sm, False) (sm', True)"
| step_receives: "op_received_msg ops sm m = (sm', Ok ()) \<Longrightarrow> machine_step ops (sm, True) (sm', False)"

inductive_cases machine_stepE: "machine_step ops (sm, w) x"

text \<open>No sequence of steps goes on forever, whatever messages the machine receives.\<close>

definition finite_steps :: "('sm, 'o, 'm) machine_ops \<Rightarrow> 'sm \<Rightarrow> bool \<Rightarrow> bool" where
  "finite_steps ops sm w \<longleftrightarrow> Wellfounded.accp (\<lambda>y x. machine_step ops x y) (sm, w)"

lemma finite_steps_step: "finite_steps ops sm w \<Longrightarrow> machine_step ops (sm, w) (sm', w') \<Longrightarrow> finite_steps ops sm' w'"
  unfolding finite_steps_def by (rule accp_downward)

definition step_order :: "('sm, 'o, 'm) machine_ops \<Rightarrow> (('sm \<times> bool) \<times> ('sm \<times> bool)) set" where
  "step_order ops = {(y, x). machine_step ops x y \<and> Wellfounded.accp (\<lambda>y x. machine_step ops x y) x}"

lemma wf_step_order: "wf (step_order ops)"
proof (rule wfUNIVI)
  fix P :: "'a \<times> bool \<Rightarrow> bool" and x
  assume step: "\<forall>x. (\<forall>y. (y, x) \<in> step_order ops \<longrightarrow> P y) \<longrightarrow> P x"
  have "P x" if "Wellfounded.accp (\<lambda>y x. machine_step ops x y) x" for x
    using that
  proof (induction rule: accp_induct_rule)
    case (1 x)
    have "P y" if "(y, x) \<in> step_order ops" for y
      using that 1(2) [of y] by (simp add: step_order_def)
    then show ?case using step by blast
  qed
  moreover have "P x" if "\<not> Wellfounded.accp (\<lambda>y x. machine_step ops x y) x"
  proof -
    have "(y, x) \<notin> step_order ops" for y using that by (simp add: step_order_def)
    then show ?thesis using step by blast
  qed
  ultimately show "P x" by blast
qed

text \<open>
  The contract that the termination of the loops rests on: \<open>less\<close> is a well-founded order on the states
  of a machine, each with the flag that tells that it waits, and every step goes down in it.
\<close>

locale progressing_machine =
  fixes ops :: "('sm, 'o, 'm) machine_ops" and good :: "'sm \<Rightarrow> bool \<Rightarrow> bool"
    and less :: "(('sm \<times> bool) \<times> ('sm \<times> bool)) set"
  assumes wf_less: "wf less"
    and step_less: "good sm w \<Longrightarrow> machine_step ops (sm, w) (sm', w') \<Longrightarrow>
      good sm' w' \<and> ((sm', w'), (sm, w)) \<in> less"
begin

lemma good_finite_steps: "good sm w \<Longrightarrow> finite_steps ops sm w"
proof -
  have "good (fst x) (snd x) \<Longrightarrow> Wellfounded.accp (\<lambda>y x. machine_step ops x y) x" for x
  proof (induction x rule: wf_induct_rule [OF wf_less])
    case (1 x)
    show ?case
    proof (rule accpI)
      fix y assume "machine_step ops x y"
      then have "machine_step ops (fst x, snd x) (fst y, snd y)" by simp
      from step_less [OF 1(2) this] 1(1) [of y] show "Wellfounded.accp (\<lambda>y x. machine_step ops x y) y" by simp
    qed
  qed
  from this [of "(sm, w)"] show "good sm w \<Longrightarrow> finite_steps ops sm w" by (simp add: finite_steps_def)
qed

definition good_party :: "nat \<Rightarrow> ('sm, 'o) sim_party \<Rightarrow> bool" where
  "good_party i p \<longleftrightarrow> (case p of Active sm w \<Rightarrow> good sm w | Finished out \<Rightarrow> True)"

text \<open>The order on parties: a party that has finished is below every active one.\<close>

definition party_less :: "(('sm, 'o) sim_party \<times> ('sm, 'o) sim_party) set" where
  "party_less =
     {(p', p). \<exists>sm w. p = Active sm w \<and>
        (case p' of Finished out \<Rightarrow> True | Active sm' w' \<Rightarrow> ((sm', w'), (sm, w)) \<in> less\<^sup>+)}"

lemma party_less_trans: "(p2, p1) \<in> party_less \<Longrightarrow> (p1, p0) \<in> party_less \<Longrightarrow> (p2, p0) \<in> party_less"
  by (cases p2; cases p1) (auto simp: party_less_def intro: trancl_trans)

lemma wf_party_less: "wf party_less"
proof (rule wfUNIVI)
  fix P :: "('sm, 'o) sim_party \<Rightarrow> bool" and p
  assume step: "\<forall>p. (\<forall>p'. (p', p) \<in> party_less \<longrightarrow> P p') \<longrightarrow> P p"
  have fin: "P (Finished out)" for out
    using step by (force simp: party_less_def)
  have "P (Active (fst x) (snd x))" for x
  proof (induction x rule: wf_induct_rule [OF wf_trancl [OF wf_less]])
    case (1 x)
    have "P p'" if "(p', Active (fst x) (snd x)) \<in> party_less" for p'
      using that fin 1 [of "(_, _)"] by (cases p') (auto simp: party_less_def)
    then show ?case using step by blast
  qed
  from this [of "(_, _)"] show "P p" using fin by (cases p) auto
qed

text \<open>A turn brings a party down, or leaves it waiting with nothing in its queue.\<close>

definition brought_down :: "nat \<Rightarrow> ('sm, 'o) sim_party \<Rightarrow> 'm messages_queue \<Rightarrow> ('sm, 'o) sim_party
    \<Rightarrow> 'm messages_queue \<Rightarrow> bool" where
  "brought_down i p q p' q' \<longleftrightarrow> (p', p) \<in> party_less \<or> p' = p \<and> q' = q \<and> stuck p q i"

lemma proceed_party_less:
  assumes good: "good sm False" and x: "(sm, False) = x \<or> ((sm, False), x) \<in> less\<^sup>+"
  shows "case proceed_party ops i sm q left of
      ThisParty p' q' left' \<Rightarrow> good_party k p' \<and> (p', Active (fst x) (snd x)) \<in> party_less
    | NextParty p' q' left' \<Rightarrow> good_party k p' \<and> (p', Active (fst x) (snd x)) \<in> party_less
    | _ \<Rightarrow> True"
proof -
  obtain sm' r where p: "op_proceed ops sm = (sm', r)" by fastforce
  have below: "good sm' w \<and> ((sm', w), x) \<in> less\<^sup>+" if "machine_step ops (sm, False) (sm', w)" for w
    using step_less [OF good that] x by (auto intro: trancl_trans)
  show ?thesis
    using p below [OF step_sends] below [OF step_yields] below [OF step_waits]
    by (auto simp: proceed_party_def party_less_def good_party_def split: proceed_result.splits prod.splits sum.splits)
qed

lemma party_turn_less:
  assumes good: "good_party i p" and i: "i < length (mq_queue q)" "length (mq_queue q) \<le> 65536"
  shows "case party_turn ops (of_nat i) p q left of
      ThisParty p' q' left' \<Rightarrow> good_party i p' \<and> (p', p) \<in> party_less
    | NextParty p' q' left' \<Rightarrow> good_party i p' \<and> brought_down i p q p' q'
    | _ \<Rightarrow> True"
proof (cases p)
  case (Active sm w)
  then have sm: "good sm w" using good by (simp add: good_party_def)
  show ?thesis
  proof (cases w)
    case True
    show ?thesis
    proof (cases "mq_queue q ! i")
      case Nil
      then show ?thesis using Active True i good
        by (simp add: party_turn_def recv_next_msg_def unat_of_nat_u16 brought_down_def stuck_def)
    next
      case (Cons m ms)
      obtain sm' res where r: "op_received_msg ops sm m = (sm', res)" by fastforce
      show ?thesis
      proof (cases res)
        case (Inr u)
        have "machine_step ops (sm, w) (sm', False)"
          using r Inr True by (simp add: step_receives)
        from step_less [OF sm this] have "good sm' False" "((sm', False), (sm, True)) \<in> less\<^sup>+"
          using True by auto
        then show ?thesis
          using Active True i Cons r Inr
            proceed_party_less [where x = "(sm, True)" and i = "of_nat i" and k = i and left = left
                and q = "q\<lparr>mq_queue := (mq_queue q)[i := ms]\<rparr>" and sm = sm']
          by (auto simp: party_turn_def recv_next_msg_def unat_of_nat_u16 brought_down_def split: turn.splits)
      qed (use Active True i Cons r in \<open>simp add: party_turn_def recv_next_msg_def unat_of_nat_u16\<close>)
    qed
  next
    case False
    then show ?thesis
      using Active sm proceed_party_less [where x = "(sm, False)" and i = "of_nat i" and k = i and left = left
          and q = q and sm = sm]
      by (auto simp: party_turn_def brought_down_def split: turn.splits)
  qed
qed (simp add: party_turn_def brought_down_def stuck_def good_party_def)

lemma turns_keep_good: "n \<le> 65536 \<Longrightarrow> turns_keep ops n good_party (\<lambda>_. True)"
  unfolding turns_keep_def
proof (intro allI impI)
  fix i p left and q :: "'m messages_queue"
  assume "n \<le> 65536" "i < n" "good_party i p" "length (mq_queue q) = n"
  from party_turn_less [OF this(3), of q left] this
  show "case party_turn ops (of_nat i) p q left of
      ThisParty p' q' left' \<Rightarrow> good_party i p' | NextParty p' q' left' \<Rightarrow> good_party i p'
    | ReturnErr e \<Rightarrow> True | TurnPanic \<Rightarrow> True"
    by (auto split: turn.splits)
qed

text \<open>The loop of one party ends.\<close>

lemma this_party_loop_ends:
  assumes i: "i < n" and n: "n \<le> 65536"
  shows "good_party i p \<Longrightarrow> length (mq_queue q) = n \<Longrightarrow> active p \<le> left \<Longrightarrow>
    \<exists>fuel r. this_party_loop ops fuel (of_nat i) p q left = Some r \<and>
      (case r of LoopDone (p', q', left') \<Rightarrow> brought_down i p q p' q' | _ \<Rightarrow> True)"
proof (induction p arbitrary: q left rule: wf_induct_rule [OF wf_party_less])
  case (1 p)
  note turn = turns_keep_good [OF n, unfolded turns_keep_def, rule_format, OF i 1(2) 1(3), of left]
  have less: "case party_turn ops (of_nat i) p q left of
      ThisParty p' q' left' \<Rightarrow> (p', p) \<in> party_less
    | NextParty p' q' left' \<Rightarrow> brought_down i p q p' q' | _ \<Rightarrow> True"
    using party_turn_less [OF 1(2), of q left] 1(3) i n by (simp split: turn.splits)
  have books: "books_kept q left (active p) (party_turn ops (of_nat i) p q left)"
    using party_turn_books [of "of_nat i" q p left ops] 1 i n by (simp add: unat_of_nat_u16)
  show ?case
  proof (cases "party_turn ops (of_nat i) p q left")
    case (ThisParty p' q' left')
    then have p': "(p', p) \<in> party_less" using less by simp
    obtain fuel r where r: "this_party_loop ops fuel (of_nat i) p' q' left' = Some r"
      "case r of LoopDone (p'', q'', left'') \<Rightarrow> brought_down i p' q' p'' q'' | _ \<Rightarrow> True"
      using 1(1) [OF p', of q' left'] 1(3,4) ThisParty turn books by (auto simp: books_kept_def)
    have "case r of LoopDone (p'', q'', left'') \<Rightarrow> brought_down i p q p'' q'' | _ \<Rightarrow> True"
      using r(2) p' party_less_trans [OF _ p'] by (auto simp: brought_down_def split: loop_end.splits)
    then show ?thesis using r(1) ThisParty by (intro exI [of _ "Suc fuel"]) simp
  qed (use less in \<open>auto intro!: exI [of _ "Suc 0"]\<close>)
qed

lemma listrel1_trancl_Cons: "(xs, ys) \<in> (listrel1 r)\<^sup>+ \<Longrightarrow> (x # xs, x # ys) \<in> (listrel1 r)\<^sup>+"
  by (induction rule: trancl_induct) (auto intro: trancl_into_trancl listrel1I2)

definition all_brought_down :: "nat \<Rightarrow> ('sm, 'o) simulation \<Rightarrow> 'm messages_queue
    \<Rightarrow> ('sm, 'o) simulation \<Rightarrow> 'm messages_queue \<Rightarrow> bool" where
  "all_brought_down j ps q ps' q' \<longleftrightarrow> (ps', ps) \<in> (listrel1 party_less)\<^sup>+ \<or>
     ps' = ps \<and> q' = q \<and> (\<forall>k < length ps. stuck (ps ! k) q (j + k))"

lemma all_brought_down_Cons:
  assumes "brought_down j p q p' q'" and "all_brought_down (Suc j) ps q' ps' q''"
  shows "all_brought_down j (p # ps) q (p' # ps') q''"
proof -
  have "(p' # ps, p # ps) \<in> (listrel1 party_less)\<^sup>+" if "(p', p) \<in> party_less"
    using that by (intro r_into_trancl) simp
  then show ?thesis
    using assms listrel1_trancl_Cons [of ps' ps party_less p']
    by (auto simp: all_brought_down_def brought_down_def nth_Cons split: nat.splits
             intro: trancl_trans)
qed

lemma parties_loop_ends:
  assumes n: "n \<le> 65536"
  shows "\<forall>k < length ps. good_party (j + k) (ps ! k) \<Longrightarrow> length (mq_queue q) = n \<Longrightarrow>
    j + length ps \<le> n \<Longrightarrow> sum_list (map active ps) \<le> left \<Longrightarrow>
    \<exists>fuel r. parties_loop ops fuel ps (of_nat j) q left = Some r \<and>
      (case r of LoopDone (ps', q', left') \<Rightarrow> all_brought_down j ps q ps' q' | _ \<Rightarrow> True)"
proof (induction ps arbitrary: j q left)
  case (Cons p ps)
  have p: "good_party j p" and j: "j < n" using Cons.prems(1,3) by force+
  have le: "active p \<le> left" using Cons.prems(4) by simp
  obtain fuel1 r1 where r1: "this_party_loop ops fuel1 (of_nat j) p q left = Some r1"
    and down: "case r1 of LoopDone (p', q', left') \<Rightarrow> brought_down j p q p' q' | _ \<Rightarrow> True"
    using this_party_loop_ends [OF j n p Cons.prems(2) le] by blast
  note keep = this_party_loop_keep [OF turns_keep_good [OF n] n j p Cons.prems(2) _ r1]
  show ?case
  proof (cases r1)
    case (LoopDone x)
    obtain p' q' left' where x: "x = (p', q', left')" by (cases x)
    have "\<exists>fuel r. parties_loop ops fuel ps (of_nat (Suc j)) q' left' = Some r \<and>
      (case r of LoopDone (ps', q'', left'') \<Rightarrow> all_brought_down (Suc j) ps q' ps' q'' | _ \<Rightarrow> True)"
      using Cons.IH [of "Suc j" q' left'] Cons.prems keep LoopDone x by force
    then obtain fuel2 r2 where r2: "parties_loop ops fuel2 ps (of_nat (Suc j)) q' left' = Some r2"
      "case r2 of LoopDone (ps', q'', left'') \<Rightarrow> all_brought_down (Suc j) ps q' ps' q'' | _ \<Rightarrow> True"
      by blast
    have "this_party_loop ops (max fuel1 fuel2) (of_nat j) p q left = Some (LoopDone (p', q', left'))"
      "parties_loop ops (max fuel1 fuel2) ps (of_nat j + 1) q' left' = Some r2"
      using this_party_loop_mono [OF r1, of "max fuel1 fuel2"] LoopDone x
        parties_loop_mono [OF r2(1), of "max fuel1 fuel2"] by (simp_all add: add.commute)
    then show ?thesis
      using all_brought_down_Cons [of j p q p' q'] down r2(2) LoopDone x
      by (intro exI [of _ "max fuel1 fuel2"]) (auto split: loop_end.splits)
  qed (use r1 in \<open>auto intro!: exI [of _ fuel1]\<close>)
qed (simp add: all_brought_down_def)

text \<open>So the outer loop returns, or comes to a state in which it never returns.\<close>

lemma while_loop_ends:
  assumes n: "n \<le> 65536"
  shows "\<forall>k < n. good_party k (ps ! k) \<Longrightarrow> length ps = n \<Longrightarrow> length (mq_queue q) = n \<Longrightarrow>
    left = sum_list (map active ps) \<Longrightarrow>
    (\<exists>fuel passes r. while_loop ops fuel passes ps q left = Some r) \<or>
    (\<exists>fuel k ps' q' left'. after_passes ops fuel k ps q left = Some (ps', q', left') \<and>
       0 < left' \<and> length ps' = n \<and> length (mq_queue q') = n \<and> deadlocked ps' q')"
proof (induction ps arbitrary: q left rule: wf_induct_rule [OF wf_trancl [OF wf_listrel1_iff [THEN iffD2, OF wf_party_less]]])
  case (1 ps)
  show ?case
  proof (cases "0 < left")
    case True
    obtain fuel r where r: "parties_loop ops fuel ps (of_nat 0) q left = Some r"
      and down: "case r of LoopDone (ps', q', left') \<Rightarrow> all_brought_down 0 ps q ps' q' | _ \<Rightarrow> True"
      using parties_loop_ends [OF n, of ps 0 q left] 1 by auto
    note keep = parties_loop_keep [OF turns_keep_good [OF n] n _ 1(4) _ _ r]
    show ?thesis
    proof (cases r)
      case (LoopDone x)
      obtain ps' q' left' where x: "x = (ps', q', left')" by (cases x)
      consider "(ps', ps) \<in> (listrel1 party_less)\<^sup>+" | "ps' = ps" "q' = q" "deadlocked ps q"
        using down LoopDone x by (auto simp: all_brought_down_def deadlocked_def)
      then show ?thesis
      proof cases
        case 1: 1
        have IH: "(\<exists>fuel passes r. while_loop ops fuel passes ps' q' left' = Some r) \<or>
          (\<exists>fuel k ps'' q'' left''. after_passes ops fuel k ps' q' left' = Some (ps'', q'', left'') \<and>
             0 < left'' \<and> length ps'' = n \<and> length (mq_queue q'') = n \<and> deadlocked ps'' q'')"
          using "1.IH" [OF 1, of q' left'] "1.prems" keep LoopDone x by auto
        have pass: "parties_loop ops (max fuel fuel') ps 0 q left = Some (LoopDone (ps', q', left'))" for fuel'
          using parties_loop_mono [OF r, of "max fuel fuel'"] LoopDone x by simp
        from IH show ?thesis
        proof (elim disjE exE conjE)
          fix fuel' passes r'
          assume "while_loop ops fuel' passes ps' q' left' = Some r'"
          then have "while_loop ops (max fuel fuel') (Suc passes) ps q left = Some r'"
            using pass [of fuel'] True while_loop_mono [of ops fuel' passes ps' q' left' r' "max fuel fuel'" passes]
            by simp
          then show ?thesis by blast
        next
          fix fuel' k ps'' q'' left''
          assume a: "after_passes ops fuel' k ps' q' left' = Some (ps'', q'', left'')"
            and e: "0 < left''" "length ps'' = n" "length (mq_queue q'') = n" "deadlocked ps'' q''"
          have "after_passes ops (max fuel fuel') (Suc k) ps q left = Some (ps'', q'', left'')"
            using pass [of fuel'] True after_passes_mono [OF a, of "max fuel fuel'"] by simp
          then show ?thesis using e by blast
        qed
      next
        case 2
        then show ?thesis using "1.prems" True by (intro disjI2 exI [of _ 0]) auto
      qed
    next
      case (LoopErr e)
      then have "while_loop ops fuel (Suc 0) ps q left = Some (LoopErr e)" using r True by simp
      then show ?thesis by blast
    next
      case LoopPanic
      then have "while_loop ops fuel (Suc 0) ps q left = Some LoopPanic" using r True by simp
      then show ?thesis by blast
    qed
  next
    case False
    then have "while_loop ops 0 0 ps q left = Some (LoopDone ps)" by simp
    then show ?thesis by blast
  qed
qed

lemma run_returns_iff:
  assumes n: "length sms \<le> 65536" and good: "\<forall>sm \<in> set sms. good sm False"
  shows "(\<exists>fuel passes r. Simulation_run ops fuel passes (map (\<lambda>sm. Active sm False) sms) = Some r) \<longleftrightarrow>
    (\<nexists>fuel k ps q left. after_passes ops fuel k (map (\<lambda>sm. Active sm False) sms)
       (MessagesQueue_new (length sms)) (length sms) = Some (ps, q, left) \<and> deadlocked ps q)"
    (is "?returns \<longleftrightarrow> \<not> ?dead")
proof -
  let ?sim = "map (\<lambda>sm. Active sm False) sms :: ('sm, 'o) simulation"
  have left: "length sms = sum_list (map active ?sim)" by (induction sms) auto
  have "(\<exists>fuel passes r. while_loop ops fuel passes ?sim (MessagesQueue_new (length sms)) (length sms) = Some r) \<or>
    (\<exists>fuel k ps' q' left'. after_passes ops fuel k ?sim (MessagesQueue_new (length sms)) (length sms) =
         Some (ps', q', left') \<and>
       0 < left' \<and> length ps' = length sms \<and> length (mq_queue q') = length sms \<and> deadlocked ps' q')"
    by (rule while_loop_ends [OF n _ _ _ left])
      (use good in \<open>auto simp: good_party_def MessagesQueue_new_def\<close>)
  then have "?returns \<or> ?dead"
  proof (elim disjE exE conjE)
    fix fuel passes r
    assume "while_loop ops fuel passes ?sim (MessagesQueue_new (length sms)) (length sms) = Some r"
    then have "Simulation_run ops fuel passes ?sim =
        Some (case r of LoopErr e \<Rightarrow> Ret (Err e) | LoopPanic \<Rightarrow> Panic
          | LoopDone ps \<Rightarrow> (case collect_outputs ps of Panic \<Rightarrow> Panic | Ret outs \<Rightarrow> Ret (Ok outs)))"
      by (simp add: Simulation_run_def split: loop_end.splits)
    then show ?thesis by blast
  qed blast
  moreover have "\<not> ?returns" if ?dead
    using that n Simulation_run_deadlock [of ops _ _ ?sim] by fastforce
  ultimately show ?thesis by blast
qed

end

text \<open>Every machine goes down in the order of its own steps where these are finite.\<close>

interpretation finite_machine: progressing_machine ops "finite_steps ops" "step_order ops"
  for ops :: "('sm, 'o, 'm) machine_ops"
proof
  fix sm w sm' w'
  assume fin: "finite_steps ops sm w" and step: "machine_step ops (sm, w) (sm', w')"
  show "finite_steps ops sm' w' \<and> ((sm', w'), (sm, w)) \<in> step_order ops"
    using finite_steps_step [OF fin step] fin step by (simp add: step_order_def finite_steps_def)
qed (rule wf_step_order)

subsection \<open>Protocols as futures\<close>

text \<open>The states a future comes to by one step.\<close>

inductive_set fut_pred :: "(('m, 'o) fut \<times> ('m, 'o) fut) set" where
  pred_recv: "(k x, FRecv k) \<in> fut_pred"
| pred_send: "(FFlush k, FSend m k) \<in> fut_pred"
| pred_flush: "(k x, FFlush k) \<in> fut_pred"
| pred_yield: "(k, FYield True k) \<in> fut_pred"
| pred_yielded: "(FYield True k, FYield False k) \<in> fut_pred"

inductive_cases fut_pred_cases:
  "(f, FDone out) \<in> fut_pred" "(f, FRecv k) \<in> fut_pred" "(f, FSend m k) \<in> fut_pred"
  "(f, FFlush k) \<in> fut_pred" "(f, FYield y k) \<in> fut_pred"

lemma acc_fut_pred: "f \<in> Wellfounded.acc fut_pred"
proof (induction f)
  case (FDone out)
  show ?case by (rule accI) (auto elim: fut_pred_cases)
next
  case (FRecv k)
  show ?case by (rule accI) (use FRecv in \<open>auto elim: fut_pred_cases\<close>)
next
  case (FFlush k)
  show ?case by (rule accI) (use FFlush in \<open>auto elim: fut_pred_cases\<close>)
next
  case (FSend m k)
  have "FFlush k \<in> Wellfounded.acc fut_pred"
    by (rule accI) (use FSend in \<open>auto elim: fut_pred_cases\<close>)
  then show ?case by - (rule accI, auto elim: fut_pred_cases)
next
  case (FYield y k)
  have yielded: "FYield True k \<in> Wellfounded.acc fut_pred"
    by (rule accI) (use FYield in \<open>auto elim: fut_pred_cases\<close>)
  show ?case by (rule accI) (use FYield yielded in \<open>auto elim: fut_pred_cases\<close>)
qed

lemma wf_fut_pred: "wf fut_pred"
  by (rule acc_wfI) (simp add: acc_fut_pred)

lemma fut_next_pred_eq:
  "fut_next f = (e, f') \<Longrightarrow> (f', f) \<in> fut_pred\<^sup>=  \<or> (f', f) \<in> fut_pred\<^sup>+"
proof (induction f)
  case (FFlush k)
  then have "(f', k (Ok ())) \<in> fut_pred\<^sup>= \<or> (f', k (Ok ())) \<in> fut_pred\<^sup>+" by simp
  then show ?case using pred_flush [of k "Ok ()"] by (auto intro: trancl_into_trancl)
next
  case (FYield y k)
  show ?case
  proof (cases y)
    case True
    then have "(f', k) \<in> fut_pred\<^sup>= \<or> (f', k) \<in> fut_pred\<^sup>+" using FYield by simp
    then show ?thesis using pred_yield [of k] True by (auto intro: trancl_into_trancl)
  qed (use FYield.prems in \<open>auto intro: pred_yielded\<close>)
qed (auto intro: pred_send)

lemma fut_next_pred:
  "fut_next f = (e, f') \<Longrightarrow> e = Yielded \<or> e = SendMsg m \<Longrightarrow> (f', f) \<in> fut_pred\<^sup>+"
proof (induction f)
  case (FFlush k)
  then have "(f', k (Ok ())) \<in> fut_pred\<^sup>+" by simp
  then show ?case using pred_flush [of k "Ok ()"] by (rule trancl_into_trancl)
next
  case (FYield y k)
  show ?case
  proof (cases y)
    case True
    then have "(f', k) \<in> fut_pred\<^sup>+" using FYield by simp
    then show ?thesis using pred_yield [of k] True by (auto intro: trancl_into_trancl)
  qed (use FYield.prems in \<open>auto intro: pred_yielded\<close>)
qed (auto intro: pred_send)

text \<open>
  The states of the machine of a future between its steps: with an incoming message only when its
  future awaits one, and waiting only then. A machine that waits is above one that got its message.
\<close>

definition asked :: "('m, 'o) fut \<Rightarrow> ('m, ('m, 'o) fut) state_machine_impl" where
  "asked f = (quiet None f)\<lparr>shared := SharedState_new\<lparr>wants_recv_msg := True\<rparr>\<rparr>"

definition fut_good :: "('m, ('m, 'o) fut) state_machine_impl \<Rightarrow> bool \<Rightarrow> bool" where
  "fut_good sm w \<longleftrightarrow>
     (if w then \<exists>k. sm = asked (FRecv k)
      else (\<exists>f. sm = quiet None f) \<or> (\<exists>m k. sm = quiet (Some m) (FRecv k)))"

definition fut_rank :: "('m, 'f) state_machine_impl \<times> bool \<Rightarrow> 'f \<times> nat" where
  "fut_rank x = (future (fst x),
     if snd x then 1 else if incoming_msg (shared (fst x)) = None then 2 else 0)"

definition fut_less ::
  "((('m, ('m, 'o) fut) state_machine_impl \<times> bool) \<times> (('m, ('m, 'o) fut) state_machine_impl \<times> bool)) set"
where
  "fut_less = inv_image (fut_pred\<^sup>+ <*lex*> less_than) fut_rank"

lemma wf_fut_less: "wf fut_less"
  unfolding fut_less_def by (intro wf_inv_image wf_lex_prod wf_trancl wf_fut_pred wf_less_than)

lemma fut_rank_simps:
  "fut_rank (quiet None f, False) = (f, 2)" "fut_rank (quiet (Some m) f, False) = (f, 0)"
  "fut_rank (asked f, True) = (f, 1)"
  by (simp_all add: fut_rank_def quiet_def asked_def SharedState_new_def)

lemma proceed_quiet_less:
  assumes "proceed fut_resume (quiet None f) = (sm', r)"
  shows "case r of
      NeedsOneMoreMessage \<Rightarrow> fut_good sm' True \<and> ((sm', True), (quiet None f, False)) \<in> fut_less
    | Output out \<Rightarrow> True
    | ProceedError e \<Rightarrow> False
    | _ \<Rightarrow> fut_good sm' False \<and> ((sm', False), (quiet None f, False)) \<in> fut_less"
proof -
  obtain e f' where n: "fut_next f = (e, f')" by fastforce
  have p: "(sm', r) = (case e of
       Output out \<Rightarrow> ((quiet None f)\<lparr>exhausted := True\<rparr>, Output out)
     | NeedsOneMoreMessage \<Rightarrow> (asked f', NeedsOneMoreMessage)
     | _ \<Rightarrow> (quiet None f', e))"
    using proceed_quiet [OF n] assms by (cases e) (simp_all add: asked_def)
  show ?thesis
    using p n fut_next_pred [OF n] fut_next_pred_eq [OF n] fut_next_recv [of f] fut_next_not_error [of f]
    by (cases e) (auto simp: fut_good_def fut_less_def fut_rank_simps)
qed

lemma fut_less_below:
  assumes "(y, (quiet None (k x), False)) \<in> fut_less"
  shows "(y, (quiet (Some m) (FRecv k), False)) \<in> fut_less"
  using assms trancl_into_trancl [OF _ pred_recv [of k x]] r_into_trancl [OF pred_recv [of k x]]
  by (cases "fut_rank y") (auto simp: fut_less_def fut_rank_simps)

lemma proceed_fut_less:
  assumes good: "fut_good sm False" and p: "proceed fut_resume sm = (sm', r)"
  shows "case r of
      NeedsOneMoreMessage \<Rightarrow> fut_good sm' True \<and> ((sm', True), (sm, False)) \<in> fut_less
    | Output out \<Rightarrow> True
    | ProceedError e \<Rightarrow> False
    | _ \<Rightarrow> fut_good sm' False \<and> ((sm', False), (sm, False)) \<in> fut_less"
proof -
  consider f where "sm = quiet None f" | m k where "sm = quiet (Some m) (FRecv k)"
    using good by (auto simp: fut_good_def)
  then show ?thesis
  proof cases
    case 1
    show ?thesis using p unfolding 1 by (rule proceed_quiet_less)
  next
    case (2 m k)
    from proceed_quiet_recv [of m k] show ?thesis
    proof (elim disjE exE conjE)
      assume "proceed fut_resume (quiet (Some m) (FRecv k)) = proceed fut_resume (quiet None (k (Some (Ok m))))"
      then have "proceed fut_resume (quiet None (k (Some (Ok m)))) = (sm', r)" using p 2 by simp
      from proceed_quiet_less [OF this] show ?thesis
        using fut_less_below [of _ k "Some (Ok m)" m] 2 by (auto split: proceed_result.splits)
    qed (use p 2 in auto)
  qed
qed

lemma received_fut_less:
  assumes "fut_good sm True"
  shows "\<exists>sm'. sm_received_msg sm m = (sm', Ok ()) \<and> fut_good sm' False \<and>
    ((sm', False), (sm, True)) \<in> fut_less"
proof -
  obtain k where k: "sm = asked (FRecv k)" using assms by (auto simp: fut_good_def)
  have "sm_received_msg sm m = (quiet (Some m) (FRecv k), Ok ())"
    unfolding k asked_def by (rule received_quiet)
  moreover have "fut_good (quiet (Some m) (FRecv k)) False" by (auto simp: fut_good_def)
  moreover have "((quiet (Some m) (FRecv k), False), (sm, True)) \<in> fut_less"
    by (simp add: k fut_less_def fut_rank_simps)
  ultimately show ?thesis by blast
qed

interpretation fut_progress: progressing_machine "async_ops fut_resume" fut_good fut_less
proof
  fix sm sm' :: "('m, ('m, 'o) fut) state_machine_impl" and w w'
  assume good: "fut_good sm w"
    and step: "machine_step (async_ops fut_resume :: (_, 'o, 'm) machine_ops) (sm, w) (sm', w')"
  from step show "fut_good sm' w' \<and> ((sm', w'), (sm, w)) \<in> fut_less"
  proof (rule machine_stepE)
    fix sm1 m assume "(sm', w') = (sm1, False)" "w" "op_received_msg (async_ops fut_resume :: (_, 'o, 'm) machine_ops) sm m = (sm1, Ok ())"
    then show ?thesis using received_fut_less [of sm m] good by (auto simp: async_ops_def)
  qed (use good proceed_fut_less [of sm] in \<open>fastforce simp: async_ops_def\<close>)+
qed (rule wf_fut_less)

lemma wrap_protocol_finite_steps: "finite_steps (async_ops fut_resume) (wrap_protocol f) False"
  by (rule fut_progress.good_finite_steps) (auto simp: fut_good_def wrap_protocol_quiet)

text \<open>The parties that \<open>sim::run\<close> starts with.\<close>

definition sim_start ::
  "u16 \<Rightarrow> (u16 \<Rightarrow> ('m, 'o) fut) \<Rightarrow> (('m, ('m, 'o) fut) state_machine_impl, 'o) simulation" where
  "sim_start n party_start =
     map (\<lambda>i. Active (wrap_protocol (party_start (of_nat i))) False) [0..<unat n]"

lemma sim_run_start:
  "sim_run fut_resume fuel passes n party_start =
     Simulation_run (async_ops fut_resume) fuel passes (sim_start n party_start)"
  by (simp add: sim_run_eq sim_start_def comp_def)

lemma sim_start_props:
  "length (sim_start n party_start) = unat n" "\<forall>p \<in> set (sim_start n party_start). active p = 1"
  by (auto simp: sim_start_def)




subsection \<open>Properties\<close>

text \<open>C7: The simulation terminates unless it deadlocks. For any state machines none of which can take
  infinitely many steps (yield, send, ask for and accept messages) whatever messages it receives,
  \<open>run\<close> returns (with the outputs or an error) for some amount of fuel if and only if its loop does
  not come to a state in which every party that has not finished waits for a message and has none
  queued.\<close>

theorem simulation_returns_unless_deadlock:
  assumes "\<forall>sm \<in> set sms. finite_steps ops sm False" and "length sms \<le> 65536"
  shows "(\<exists>fuel passes r. Simulation_run ops fuel passes (map (\<lambda>sm. Active sm False) sms) = Some r) \<longleftrightarrow>
    (\<nexists>fuel k ps q left.
       after_passes ops fuel k (map (\<lambda>sm. Active sm False) sms) (MessagesQueue_new (length sms)) (length sms) =
         Some (ps, q, left) \<and> deadlocked ps q)"
  by (rule finite_machine.run_returns_iff [OF assms(2,1)])

theorem simulation_returns_unless_deadlock_witness:
  "\<nexists>fuel k ps q left.
     after_passes (async_ops fut_resume) fuel k
       (map (\<lambda>sm. Active sm False) [wrap_protocol (greeter 1), wrap_protocol (greeter 2)])
       (MessagesQueue_new 2) 2 = Some (ps, q, left) \<and> deadlocked ps q"
proof -
  have fin: "\<forall>sm \<in> set [wrap_protocol (greeter 1), wrap_protocol (greeter 2)].
      finite_steps (async_ops fut_resume) sm False"
    by (simp add: wrap_protocol_finite_steps)
  have two: "length [wrap_protocol (greeter 1), wrap_protocol (greeter 2)] = 2" by simp
  have "\<exists>fuel passes r. Simulation_run (async_ops fut_resume) fuel passes
      (map (\<lambda>sm. Active sm False) [wrap_protocol (greeter 1), wrap_protocol (greeter 2)]) = Some r"
    using greeters_run by blast
  with simulation_returns_unless_deadlock [OF fin, unfolded two] show ?thesis by simp
qed




text \<open>C40: A deadlock is never reported. For any state machines, a simulation that comes to a state in
  which all the parties that are left wait and nothing is queued for them does not return with any
  amount of fuel: the loop of \<open>run\<close> goes on forever. The queues of parties that have finished may
  hold messages.\<close>

theorem deadlock_never_returns:
  assumes "after_passes ops fuel k sim (MessagesQueue_new (length sim)) (length sim) = Some (ps, q, left)"
    and "deadlocked ps q" and "\<forall>p \<in> set sim. active p = 1" and "length sim \<le> 65536"
  shows "Simulation_run ops fuel' passes sim = None"
  by (rule Simulation_run_deadlock [OF assms])

text \<open>A party that ends at once, and one that waits for a message that nobody sends.\<close>

definition silent_ops :: "(bool, nat, nat) machine_ops" where
  "silent_ops = \<lparr>op_proceed = (\<lambda>b. (b, if b then Output 0 else NeedsOneMoreMessage)),
     op_received_msg = (\<lambda>b m. (b, Ok ()))\<rparr>"

theorem deadlock_never_returns_witness:
  "Simulation_run silent_ops 100 100 [Active True False, Active False False] = None"
proof (rule deadlock_never_returns [where fuel = 2 and k = 1])
  show "after_passes silent_ops 2 1 [Active True False, Active False False]
      (MessagesQueue_new (length [Active True False, Active False False :: (bool, nat) sim_party]))
      (length [Active True False, Active False False :: (bool, nat) sim_party]) =
      Some ([Finished 0, Active False True], MessagesQueue_new 2, 1)"
    by code_simp
  show "deadlocked [Finished 0, Active False True :: (bool, nat) sim_party] (MessagesQueue_new 2)"
    by (auto simp: deadlocked_def stuck_def MessagesQueue_new_def less_Suc_eq nth_Cons split: nat.splits)
qed simp_all

end
