(* ===== verification/Sim_Traces.thy ===== *)
theory Sim_Traces
  imports Sim_Termination
begin

section \<open>What a simulation computes\<close>

text \<open>
  The outcome of a simulation (\<open>Simulation::run\<close>, \<open>round-based/src/sim/mod.rs\<close>): for any machines that
  take finitely many steps, in terms of runs of the network, and for protocols that await one operation
  after the other in terms of what these do on their own: \<open>fut_after\<close> is what a protocol sends and
  where it is after it received some messages.
\<close>

subsection \<open>The outcome for any machines\<close>

context tracked_machines
begin

lemma after_passes_net:
  assumes few: "n \<le> 65536"
  shows "list_inv ps q \<Longrightarrow> after_passes ops fuel k ps q left = Some (ps', q', left') \<Longrightarrow> list_inv ps' q'"
proof (induction k arbitrary: ps q left)
  case (Suc k)
  then show ?case
    using pass_net [OF few Suc.prems(1), of fuel left]
    by (fastforce split: if_splits option.splits loop_end.splits)
qed (simp split: if_splits)

end

text \<open>Some machine waits, and each one that has not finished waits and got everything addressed to it.\<close>

definition network_blocked ::
  "('sm, 'o, 'm) machine_ops \<Rightarrow> 'sm list \<Rightarrow> (u16 \<times> 'm outgoing) list \<Rightarrow> (nat \<Rightarrow> 'm incoming list) \<Rightarrow> bool"
where
  "network_blocked ops sms sends got \<longleftrightarrow>
     (\<forall>i < length sms. (\<exists>out. run_outputs ops (sms ! i) (got i) (sent_by i sends) out) \<or>
        run_waits ops (sms ! i) (got i) (sent_by i sends) \<and>
        map content (got i) = concat (map (addressed i) sends)) \<and>
     (\<exists>i < length sms. run_waits ops (sms ! i) (got i) (sent_by i sends))"

lemma active_party: "0 < sum_list (map active ps) \<Longrightarrow> \<exists>i < length ps. \<exists>sm w. ps ! i = Active sm w"
proof (induction ps)
  case (Cons p ps)
  then show ?case by (cases p) (auto intro: exI [of _ "Suc _"])
qed simp

lemma machines_blocked:
  assumes inv: "net_inv (\<lambda>i. machine_party ops (sms ! i)) (length sms) (\<lambda>i. ps ! i) q"
    and n: "length sms \<le> 65536" "length ps = length sms"
    and dead: "deadlocked ps q" and left: "0 < sum_list (map active ps)"
  shows "\<exists>sends got. network_run ops sms sends got \<and> network_blocked ops sms sends got"
proof -
  obtain sends got where run: "mq_run (length sms) q sends got" "\<forall>x \<in> set sends. unat (fst x) < length sms"
    and all: "\<forall>i < length sms. machine_party ops (sms ! i) (got i) (sent_by i sends) (ps ! i)"
    using inv by (auto simp: net_inv_def)
  have active: "run_waits ops (sms ! i) (got i) (sent_by i sends) \<and>
      map content (got i) = concat (map (addressed i) sends)"
    if i: "i < length sms" and p: "ps ! i = Active sm w" for i sm w
  proof -
    have "w" "mq_queue q ! i = []" using dead i n(2) p by (force simp: deadlocked_def stuck_def)+
    then show ?thesis
      using all i p mq_run_content [OF run(1) n(1) i] by (force simp: machine_party_def all_for_def)
  qed
  moreover have "\<exists>out. run_outputs ops (sms ! i) (got i) (sent_by i sends) out"
    if "i < length sms" "ps ! i = Finished out" for i out
    using all that by (force simp: machine_party_def)
  ultimately have "(\<exists>out. run_outputs ops (sms ! i) (got i) (sent_by i sends) out) \<or>
        run_waits ops (sms ! i) (got i) (sent_by i sends) \<and>
        map content (got i) = concat (map (addressed i) sends)" if "i < length sms" for i
    using that by (cases "ps ! i") blast+
  moreover have "\<exists>i < length sms. run_waits ops (sms ! i) (got i) (sent_by i sends)"
    using active_party [OF left] active n(2) by metis
  ultimately have "network_blocked ops sms sends got" unfolding network_blocked_def by blast
  then show ?thesis using network_runI [OF run all n(1)] by blast
qed

subsection \<open>What a protocol does with its messages\<close>

primrec fut_after :: "('m, 'o) fut \<Rightarrow> 'm incoming list \<Rightarrow> 'm outgoing list \<times> ('m, 'o) fut" where
  "fut_after (FDone out) ins = ([], FDone out)"
| "fut_after (FRecv k) ins =
     (case ins of [] \<Rightarrow> ([], FRecv k) | m # ms \<Rightarrow> fut_after (k (Some (Ok m))) ms)"
| "fut_after (FSend m k) ins = apfst (Cons m) (fut_after (k (Ok ())) ins)"
| "fut_after (FFlush k) ins = fut_after (k (Ok ())) ins"
| "fut_after (FYield y k) ins = fut_after k ins"

lemma fut_after_next:
  assumes "fut_next f = (e, f')"
  shows "fut_after f ins = (case e of
       Output out \<Rightarrow> ([], FDone out) | SendMsg m \<Rightarrow> apfst (Cons m) (fut_after f' ins) | _ \<Rightarrow> fut_after f' ins)"
  using assms by (induction f) (auto split: if_splits)

text \<open>
  Where a party of the simulation is, between two turns: it received \<open>ins\<close>, sent \<open>outs\<close>, and what it
  does with further messages is what its protocol \<open>f0\<close> does.
\<close>

definition continues ::
  "('m, 'o) fut \<Rightarrow> 'm incoming list \<Rightarrow> 'm outgoing list \<Rightarrow> ('m, 'o) fut \<Rightarrow> bool" where
  "continues f0 ins outs f \<longleftrightarrow> (\<forall>ins'. fut_after f0 (ins @ ins') = apfst ((@) outs) (fut_after f ins'))"

definition tracks ::
  "('m, 'o) fut \<Rightarrow> 'm incoming list \<Rightarrow> 'm outgoing list
     \<Rightarrow> (('m, ('m, 'o) fut) state_machine_impl, 'o) sim_party \<Rightarrow> bool" where
  "tracks f0 ins outs p \<longleftrightarrow>
     (case p of
        Active sm w \<Rightarrow>
          if w then \<exists>k. sm = asked (FRecv k) \<and> continues f0 ins outs (FRecv k)
          else \<exists>f. continues f0 ins outs f \<and>
            (sm = quiet None f \<or> (\<exists>m k. sm = quiet (Some m) (FRecv k) \<and> f = k (Some (Ok m))))
      | Finished out \<Rightarrow> fut_after f0 ins = (outs, FDone out))"

lemma continues_after: "continues f0 ins outs f \<Longrightarrow> fut_after f0 ins = apfst ((@) outs) (fut_after f [])"
  unfolding continues_def by (metis append_Nil2)

lemma continues_recv: "continues f0 ins outs (FRecv k) \<Longrightarrow> continues f0 (ins @ [m]) outs (k (Some (Ok m)))"
  by (simp add: continues_def)

lemma continues_next:
  assumes "continues f0 ins outs f" and "fut_next f = (e, f')"
  shows "case e of
       Output out \<Rightarrow> fut_after f0 ins = (outs, FDone out)
     | SendMsg m \<Rightarrow> continues f0 ins (outs @ [m]) f' \<and> m \<in> set (fst (fut_after f0 ins))
     | _ \<Rightarrow> continues f0 ins outs f'"
  using assms fut_after_next [OF assms(2)] continues_after [OF assms(1)]
  by (auto simp: continues_def apfst_def map_prod_def split: proceed_result.splits prod.splits)

subsection \<open>Runs of the network\<close>

text \<open>A party addressed a message to a party that does not exist.\<close>

definition misaddressed :: "(nat \<Rightarrow> ('m, 'o) fut) \<Rightarrow> nat \<Rightarrow> bool" where
  "misaddressed F n \<longleftrightarrow> (\<exists>i < n. \<exists>ins. \<exists>m \<in> set (fst (fut_after (F i) ins)).
     \<exists>d. out_recipient m = OneParty d \<and> n \<le> unat d)"

abbreviation fut_ops where
  "fut_ops \<equiv> async_ops fut_resume"

definition sent_as ::
  "('o, 'm) proceed_result \<Rightarrow> ('m, ('m, 'o) fut) state_machine_impl \<Rightarrow> ('o, 'm) proceed_result
     \<Rightarrow> ('m, 'o) fut \<Rightarrow> bool" where
  "sent_as r sm e f \<longleftrightarrow> r = e \<and>
     ((\<exists>out. e = Output out) \<or> sm = (if e = NeedsOneMoreMessage then asked f else quiet None f))"

lemma proceed_tracks:
  assumes t: "tracks f0 ins outs (Active sm False)" and p: "proceed fut_resume sm = (sm', r)"
  shows "case r of
      SendMsg m \<Rightarrow> tracks f0 ins (outs @ [m]) (Active sm' False) \<and> m \<in> set (fst (fut_after f0 ins))
    | NeedsOneMoreMessage \<Rightarrow> tracks f0 ins outs (Active sm' True)
    | Output out \<Rightarrow> tracks f0 ins outs (Finished out)
    | Yielded \<Rightarrow> tracks f0 ins outs (Active sm' False)
    | ProceedError e \<Rightarrow> False"
proof -
  obtain f where f: "continues f0 ins outs f"
    and sm: "sm = quiet None f \<or> (\<exists>m k. sm = quiet (Some m) (FRecv k) \<and> f = k (Some (Ok m)))"
    using t by (auto simp: tracks_def)
  obtain e f' where next_f: "fut_next f = (e, f')" by fastforce
  note step = continues_next [OF f next_f]
  have plain: "sent_as r sm' e f'" if "proceed fut_resume (quiet None f) = (sm', r)"
    using that unfolding proceed_quiet [OF next_f] by (cases e) (auto simp: sent_as_def asked_def)
  from sm have sent: "sent_as r sm' e f'"
  proof (elim disjE exE conjE)
    fix m k assume k: "sm = quiet (Some m) (FRecv k)" "f = k (Some (Ok m))"
    from proceed_quiet_recv [of m k] show ?thesis
    proof (elim disjE exE conjE)
      assume "proceed fut_resume (quiet (Some m) (FRecv k)) = proceed fut_resume (quiet None (k (Some (Ok m))))"
      then show ?thesis using plain p k by simp
    next
      fix out sm1 sm2
      assume "proceed fut_resume (quiet (Some m) (FRecv k)) = (sm1, Output out)"
        "proceed fut_resume (quiet None (k (Some (Ok m)))) = (sm2, Output out)"
      then show ?thesis
        using p k proceed_quiet [OF next_f] by (cases e) (auto simp: sent_as_def)
    qed
  qed (use plain p in simp)
  show ?thesis
  proof (cases e)
    case (ProceedError x)
    then show ?thesis using fut_next_not_error [of f x] next_f by simp
  next
    case NeedsOneMoreMessage
    then obtain k where "f' = FRecv k" using fut_next_recv [of f] next_f by auto
    then show ?thesis using NeedsOneMoreMessage step sent by (auto simp: tracks_def sent_as_def)
  qed (use step sent in \<open>auto simp: tracks_def sent_as_def\<close>)
qed

interpretation fut_net: tracked_machines fut_ops n "\<lambda>i. tracks (F i)" "\<lambda>i ins outs e. misaddressed F n"
  for n :: nat and F :: "nat \<Rightarrow> ('m, 'o) fut"
proof
  fix i ins outs sm sm' and r :: "('o, 'm) proceed_result"
  assume i: "i < n" and t: "tracks (F i) ins outs (Active sm False)" and p: "op_proceed fut_ops sm = (sm', r)"
  from p have p: "proceed fut_resume sm = (sm', r)" by (simp add: async_ops_def)
  show "case r of
         SendMsg m \<Rightarrow> tracks (F i) ins (outs @ [m]) (Active sm' False) \<and>
           (\<forall>d. out_recipient m = OneParty d \<longrightarrow> n \<le> unat d \<longrightarrow> misaddressed F n)
       | NeedsOneMoreMessage \<Rightarrow> tracks (F i) ins outs (Active sm' True)
       | Output out \<Rightarrow> tracks (F i) ins outs (Finished out)
       | Yielded \<Rightarrow> tracks (F i) ins outs (Active sm' False)
       | ProceedError e \<Rightarrow> misaddressed F n"
    using proceed_tracks [OF t p] i by (cases r) (auto simp: misaddressed_def)
next
  fix i ins outs sm m sm' and res :: "'m incoming + unit"
  assume t: "tracks (F i) ins outs (Active sm True)" and p: "op_received_msg fut_ops sm m = (sm', res)"
  then obtain k where k: "sm = asked (FRecv k)" "continues (F i) ins outs (FRecv k)"
    by (auto simp: tracks_def)
  then have "sm' = quiet (Some m) (FRecv k)" "res = Ok ()"
    using p received_quiet [of "FRecv k" m] by (simp_all add: async_ops_def asked_def)
  then show "case res of Ok _ \<Rightarrow> tracks (F i) (ins @ [m]) outs (Active sm' False) | Err _ \<Rightarrow> misaddressed F n"
    using continues_recv [OF k(2), of m] by (auto simp: tracks_def)
qed

text \<open>The parties of a simulation of the protocols \<open>F\<close>, as the locale describes them.\<close>

definition futs_inv ::
  "(nat \<Rightarrow> ('m, 'o) fut) \<Rightarrow> nat \<Rightarrow> (('m, ('m, 'o) fut) state_machine_impl, 'o) simulation
     \<Rightarrow> 'm messages_queue \<Rightarrow> bool" where
  "futs_inv F n ps q \<longleftrightarrow> length ps = n \<and> net_inv (\<lambda>i. tracks (F i)) n (\<lambda>i. ps ! i) q"

subsection \<open>Consistent runs\<close>

text \<open>
  A run of the network of the protocols \<open>F\<close>, up to the scheduling: what was sent, in order, and what
  each party received. Each party sent what its protocol sends on the messages it received, and
  these are the first of those that were addressed to it.
\<close>

definition consistent_run ::
  "(nat \<Rightarrow> ('m, 'o) fut) \<Rightarrow> nat \<Rightarrow> (u16 \<times> 'm outgoing) list \<Rightarrow> (nat \<Rightarrow> 'm incoming list) \<Rightarrow> bool" where
  "consistent_run F n sends got \<longleftrightarrow> (\<forall>x \<in> set sends. unat (fst x) < n) \<and>
     (\<forall>i < n. sent_by i sends = fst (fut_after (F i) (got i)) \<and>
        (\<exists>rest. map content (got i) @ rest = concat (map (addressed i) sends)))"

text \<open>Some party waits, and each one that waits received everything that was addressed to it.\<close>

definition blocked ::
  "(nat \<Rightarrow> ('m, 'o) fut) \<Rightarrow> nat \<Rightarrow> (u16 \<times> 'm outgoing) list \<Rightarrow> (nat \<Rightarrow> 'm incoming list) \<Rightarrow> bool" where
  "blocked F n sends got \<longleftrightarrow>
     (\<forall>i < n. (\<exists>out. snd (fut_after (F i) (got i)) = FDone out) \<or>
        map content (got i) = concat (map (addressed i) sends)) \<and>
     (\<exists>i < n. \<exists>k. snd (fut_after (F i) (got i)) = FRecv k)"

text \<open>A state in which no party is between two of its own steps is a consistent run.\<close>

lemma settled_consistent:
  assumes inv: "futs_inv F n ps q" and n: "n \<le> 65536" and settled: "\<forall>i < n. waiting (ps ! i)"
  shows "\<exists>sends got. consistent_run F n sends got \<and>
    (\<forall>i < n. case ps ! i of
        Finished out \<Rightarrow> snd (fut_after (F i) (got i)) = FDone out
      | Active sm w \<Rightarrow> (\<exists>k. snd (fut_after (F i) (got i)) = FRecv k) \<and>
          (mq_queue q ! i = [] \<longrightarrow> map content (got i) = concat (map (addressed i) sends)))"
proof -
  obtain sends got where run: "mq_run n q sends got" "\<forall>x \<in> set sends. unat (fst x) < n"
    and all: "\<forall>i < n. tracks (F i) (got i) (sent_by i sends) (ps ! i)"
    using inv by (auto simp: futs_inv_def net_inv_def)
  have content: "map content (got i) @ map content (mq_queue q ! i) = concat (map (addressed i) sends)"
    if "i < n" for i
    using mq_run_content [OF run(1) n that] by (simp add: all_for_def)
  have party: "sent_by i sends = fst (fut_after (F i) (got i)) \<and>
      (case ps ! i of
        Finished out \<Rightarrow> snd (fut_after (F i) (got i)) = FDone out
      | Active sm w \<Rightarrow> \<exists>k. snd (fut_after (F i) (got i)) = FRecv k)" if i: "i < n" for i
  proof -
    have t: "tracks (F i) (got i) (sent_by i sends) (ps ! i)" using all i by blast
    show ?thesis
    proof (cases "ps ! i")
      case (Active sm w)
      then have "w" using settled i by (force simp: waiting_def)
      with t [unfolded Active] obtain k where "continues (F i) (got i) (sent_by i sends) (FRecv k)"
        by (auto simp: tracks_def)
      from continues_after [OF this] show ?thesis using Active by simp
    qed (use t in \<open>simp add: tracks_def\<close>)
  qed
  then have "consistent_run F n sends got"
    using run(2) content unfolding consistent_run_def by blast
  moreover have "\<forall>i < n. case ps ! i of
        Finished out \<Rightarrow> snd (fut_after (F i) (got i)) = FDone out
      | Active sm w \<Rightarrow> (\<exists>k. snd (fut_after (F i) (got i)) = FRecv k) \<and>
          (mq_queue q ! i = [] \<longrightarrow> map content (got i) = concat (map (addressed i) sends))"
  proof (intro allI impI)
    fix i assume i: "i < n"
    show "case ps ! i of
        Finished out \<Rightarrow> snd (fut_after (F i) (got i)) = FDone out
      | Active sm w \<Rightarrow> (\<exists>k. snd (fut_after (F i) (got i)) = FRecv k) \<and>
          (mq_queue q ! i = [] \<longrightarrow> map content (got i) = concat (map (addressed i) sends))"
      using party [OF i] content [OF i] by (cases "ps ! i") auto
  qed
  ultimately show ?thesis by blast
qed

lemma start_tracks: "tracks f0 [] [] (Active (wrap_protocol f0) False)"
  by (auto simp: tracks_def wrap_protocol_quiet continues_def apfst_def map_prod_def)

lemma start_inv:
  "futs_inv F n (map (\<lambda>i. Active (wrap_protocol (F i)) False) [0..<n]) (MessagesQueue_new n)"
  unfolding futs_inv_def net_inv_def
  by (intro conjI exI [of _ "[]"] exI [of _ "\<lambda>_. []"]) (simp_all add: mq_run.mq_start start_tracks)

lemma deadlocked_blocked:
  assumes inv: "futs_inv F n ps q" and n: "n \<le> 65536" and dead: "deadlocked ps q"
    and left: "0 < sum_list (map active ps)"
  shows "\<exists>sends got. consistent_run F n sends got \<and> blocked F n sends got"
proof -
  have len: "length ps = n" using inv by (simp add: futs_inv_def)
  have "\<forall>i < n. waiting (ps ! i)"
    using dead len by (auto simp: deadlocked_def stuck_def waiting_def split: sim_party.splits)
  from settled_consistent [OF inv n this] obtain sends got where
    run: "consistent_run F n sends got" and
    at: "\<forall>i < n. case ps ! i of
        Finished out \<Rightarrow> snd (fut_after (F i) (got i)) = FDone out
      | Active sm w \<Rightarrow> (\<exists>k. snd (fut_after (F i) (got i)) = FRecv k) \<and>
          (mq_queue q ! i = [] \<longrightarrow> map content (got i) = concat (map (addressed i) sends))" by blast
  have "(\<exists>out. snd (fut_after (F i) (got i)) = FDone out) \<or>
        map content (got i) = concat (map (addressed i) sends)" if "i < n" for i
  proof (cases "ps ! i")
    case (Active sm w)
    then have "mq_queue q ! i = []" using dead that len by (force simp: deadlocked_def stuck_def)
    then show ?thesis using at that Active by force
  qed (use at that in force)
  moreover obtain i sm w where "i < n" "ps ! i = Active sm w"
  proof -
    obtain p where p: "p \<in> set ps" "active p \<noteq> 0" using left by (metis list.set_map imageE not_gr_zero sum_list_eq_0_iff)
    then obtain i where "i < n" "ps ! i = p" using len by (auto simp: in_set_conv_nth)
    then show thesis using that p(2) by (cases p) auto
  qed
  then have "\<exists>i < n. \<exists>k. snd (fut_after (F i) (got i)) = FRecv k" using at by force
  ultimately show ?thesis using run unfolding blocked_def by blast
qed

lemma returned_consistent:
  assumes "futs_inv F n ps q" and "n \<le> 65536" and "ps = map Finished outs"
  shows "\<exists>sends got. consistent_run F n sends got \<and>
    (\<forall>i < n. snd (fut_after (F i) (got i)) = FDone (outs ! i))"
proof -
  have len: "length outs = n" using assms(1,3) by (simp add: futs_inv_def)
  have "\<forall>i < n. waiting (ps ! i)" using assms(3) len by (simp add: waiting_def)
  from settled_consistent [OF assms(1,2) this] show ?thesis using assms(3) len by fastforce
qed

text \<open>The simulation returns the outputs of a consistent run, or comes to one that is blocked.\<close>

lemma Simulation_run_consistent:
  assumes n: "n \<le> 65536" and addr: "\<not> misaddressed F n"
    and run: "Simulation_run fut_ops fuel passes (map (\<lambda>i. Active (wrap_protocol (F i)) False) [0..<n]) = Some r"
  shows "\<exists>outs sends got. r = Ret (Ok outs) \<and> length outs = n \<and> consistent_run F n sends got \<and>
     (\<forall>i < n. snd (fut_after (F i) (got i)) = FDone (outs ! i))"
proof -
  let ?sim = "map (\<lambda>i. Active (wrap_protocol (F i)) False) [0..<n] :: (('a, ('a, 'b) fut) state_machine_impl, 'b) simulation"
  have "\<exists>outs q. r = Ret (Ok outs) \<and> futs_inv F n (map Finished outs) q"
    using fut_net.run_net [OF n _ _ _ run, where F = F] addr
    by (auto simp: futs_inv_def fut_net.list_inv_def net_err_def start_tracks)
  then obtain outs q where r: "r = Ret (Ok outs)" and inv: "futs_inv F n (map Finished outs) q" by blast
  from inv have len: "length outs = n" by (simp add: futs_inv_def)
  from returned_consistent [OF inv n refl] r len show ?thesis by blast
qed

lemma Simulation_run_outcome:
  fixes F :: "nat \<Rightarrow> ('m, 'o) fut"
  defines "start \<equiv> \<lambda>n. map (\<lambda>i. Active (wrap_protocol (F i)) False) [0..<n]"
  assumes n: "n \<le> 65536" and addr: "\<not> misaddressed F n"
  shows "\<exists>sends got. consistent_run F n sends got \<and>
    ((\<exists>fuel passes outs. Simulation_run fut_ops fuel passes (start n) = Some (Ret (Ok outs)) \<and>
        length outs = n \<and> (\<forall>i < n. snd (fut_after (F i) (got i)) = FDone (outs ! i))) \<or>
     ((\<forall>fuel passes. Simulation_run fut_ops fuel passes (start n) = None) \<and> blocked F n sends got))"
proof (cases "\<exists>fuel passes r. Simulation_run fut_ops fuel passes (start n) = Some r")
  case True
  then obtain fuel passes r where r: "Simulation_run fut_ops fuel passes (start n) = Some r" by blast
  from Simulation_run_consistent [OF n addr r [unfolded start_def]] r show ?thesis by blast
next
  case False
  let ?sms = "map (\<lambda>i. wrap_protocol (F i)) [0..<n]"
  have start: "start n = map (\<lambda>sm. Active sm False) ?sms" by (simp add: start_def comp_def)
  have "\<forall>sm \<in> set ?sms. finite_steps fut_ops sm False" by (simp add: wrap_protocol_finite_steps)
  from finite_machine.run_returns_iff [OF _ this]
  obtain fuel k ps q left where
    a: "after_passes fut_ops fuel k (start n) (MessagesQueue_new n) n = Some (ps, q, left)"
    and d: "deadlocked ps q"
    using False n unfolding start by (auto simp del: map_map)
  have inv: "futs_inv F n ps q"
    using fut_net.after_passes_net [OF n _ a, where F = F] start_inv [of F n]
    by (simp add: futs_inv_def fut_net.list_inv_def start_def)
  have sum: "n = sum_list (map active (start n))"
    by (simp add: start_def comp_def sum_list_triv)
  have "0 < sum_list (map active ps)"
    using after_passes_keep [OF n _ _ sum a] by (simp add: MessagesQueue_new_def start_def)
  from deadlocked_blocked [OF inv n d this] obtain sends got where
    "consistent_run F n sends got" "blocked F n sends got" by blast
  moreover have "\<forall>fuel passes. Simulation_run fut_ops fuel passes (start n) = None"
    using False by (metis not_None_eq)
  ultimately show ?thesis by blast
qed

subsection \<open>Properties\<close>

text \<open>C8: What a simulation computes. Let the machines be such that none can take infinitely many
  steps, whatever messages it receives. Then either the simulation returns - some amount of fuel is
  enough - and there is a run of the network in which every machine ended with the output that is
  returned at its place, or one failed with the error that is returned. Or it never returns, and
  there is a run that is blocked: each machine that is not done waits although it received
  everything that was addressed to it, and there is such a machine. In a run of the network each
  machine received, in order, the first of the messages that the others addressed to it, and sent
  what its own calls asked for.\<close>

theorem simulation_outcome:
  assumes "\<forall>sm \<in> set sms. finite_steps ops sm False" and "length sms \<le> 65536"
  shows "\<exists>sends got. network_run ops sms sends got \<and>
    ((\<exists>fuel passes outs.
        Simulation_run ops fuel passes (map (\<lambda>sm. Active sm False) sms) = Some (Ret (Ok outs)) \<and>
        length outs = length sms \<and>
        (\<forall>i < length sms. run_outputs ops (sms ! i) (got i) (sent_by i sends) (outs ! i))) \<or>
     (\<exists>fuel passes e.
        Simulation_run ops fuel passes (map (\<lambda>sm. Active sm False) sms) = Some (Ret (Err e)) \<and>
        (\<exists>i < length sms. run_fails ops (length sms) i (sms ! i) (got i) (sent_by i sends) e)) \<or>
     ((\<forall>fuel passes. Simulation_run ops fuel passes (map (\<lambda>sm. Active sm False) sms) = None) \<and>
        network_blocked ops sms sends got))"
proof (cases "\<exists>fuel passes r. Simulation_run ops fuel passes (map (\<lambda>sm. Active sm False) sms) = Some r")
  case True
  then obtain fuel passes r where
    r: "Simulation_run ops fuel passes (map (\<lambda>sm. Active sm False) sms) = Some r" by blast
  from run_explained [OF r assms(2)] r show ?thesis by blast
next
  case False
  then have never: "\<forall>fuel passes. Simulation_run ops fuel passes (map (\<lambda>sm. Active sm False) sms) = None"
    by (metis not_None_eq)
  obtain fuel k ps q left where
    a: "after_passes ops fuel k (map (\<lambda>sm. Active sm False) sms) (MessagesQueue_new (length sms)) (length sms) =
      Some (ps, q, left)" and d: "deadlocked ps q"
    using finite_machine.run_returns_iff [OF assms(2,1)] False by blast
  have "machine_net.list_inv sms ops ps q"
    by (rule machine_net.after_passes_net [OF assms(2) _ a])
      (rule machine_net.start_list_inv, simp_all add: machine_party_def machine_start)
  then have inv: "length ps = length sms"
    "net_inv (\<lambda>i. machine_party ops (sms ! i)) (length sms) (\<lambda>i. ps ! i) q"
    by (simp_all add: machine_net.list_inv_def)
  have sum: "length sms = sum_list (map active (map (\<lambda>sm. Active sm False) sms))"
    by (induction sms) simp_all
  have "0 < sum_list (map active ps)"
    using after_passes_keep [OF assms(2) _ _ sum a] by (simp add: MessagesQueue_new_def)
  from machines_blocked [OF inv(2) assms(2) inv(1) d this] never show ?thesis by blast
qed

theorem simulation_outcome_witness:
  "\<exists>sends got. network_run fut_ops [wrap_protocol (greeter 1), wrap_protocol (greeter 2)] sends got \<and>
     run_outputs fut_ops (wrap_protocol (greeter 1)) (got 0) (sent_by 0 sends) 3"
proof -
  let ?sms = "[wrap_protocol (greeter 1), wrap_protocol (greeter 2)]"
  have fin: "\<forall>sm \<in> set ?sms. finite_steps fut_ops sm False" by (simp add: wrap_protocol_finite_steps)
  have few: "length ?sms \<le> 65536" by simp
  have same: "r = Ret (Ok [3, 3])" if "Simulation_run fut_ops fuel passes (map (\<lambda>sm. Active sm False) ?sms) = Some r"
    for fuel passes r
    using Simulation_run_mono [OF that, of "max fuel 5" "max passes 5"]
      Simulation_run_mono [OF greeters_run, of "max fuel 5" "max passes 5"] by simp
  have "\<exists>sends got. network_run fut_ops ?sms sends got \<and>
      (\<forall>i < length ?sms. run_outputs fut_ops (?sms ! i) (got i) (sent_by i sends) ([3, 3] ! i))"
    using simulation_outcome [OF fin few]
  proof (elim exE conjE disjE)
    fix sends got fuel passes outs
    assume run: "network_run fut_ops ?sms sends got"
      and r: "Simulation_run fut_ops fuel passes (map (\<lambda>sm. Active sm False) ?sms) = Some (Ret (Ok outs))"
      and outs: "\<forall>i < length ?sms. run_outputs fut_ops (?sms ! i) (got i) (sent_by i sends) (outs ! i)"
    have "outs = [3, 3]" using same [OF r] by simp
    with run outs show ?thesis by (intro exI [of _ sends] exI [of _ got]) simp
  next
    fix sends got fuel passes e
    assume "Simulation_run fut_ops fuel passes (map (\<lambda>sm. Active sm False) ?sms) = Some (Ret (Err e))"
    from same [OF this] show ?thesis by simp
  next
    assume "\<forall>fuel passes. Simulation_run fut_ops fuel passes (map (\<lambda>sm. Active sm False) ?sms) = None"
    then show ?thesis using greeters_run by simp
  qed
  then show ?thesis by force
qed

end
