(* ===== verification/Derive_Msg.thy ===== *)
theory Derive_Msg
  imports Mpc_Traits
begin

section \<open>The derive macro for protocol messages\<close>

text \<open>
  \<open>round-based-derive/src/lib.rs\<close>: the derive macro \<open>ProtocolMsg\<close>. Its input is the parsed declaration
  of the enum (\<open>syn::DeriveInput\<close>: the attributes, the name, the variants with their fields; types are
  token strings), its output the code it emits, as a syntax tree of the few forms it has. Parsing of
  the attribute's tokens belongs to \<open>syn\<close> and is a parameter. A second group of definitions says what
  the emitted code does on a value of the enum: Rust's \<open>match\<close>.
\<close>

subsection \<open>Declarations\<close>

datatype fields = Fields_Unit | Fields_Named "(string \<times> string) list" | Fields_Unnamed "string list"

record variant =
  v_ident :: string
  v_fields :: fields

datatype input_data = Data_Enum "variant list" | Data_Struct | Data_Union

record 't attribute =
  attr_path :: string
  attr_tokens :: 't

record 't derive_input =
  di_attrs :: "'t attribute list"
  di_ident :: string
  di_data :: input_data

subsection \<open>Emitted code\<close>

type_synonym root_path = "string list"

text \<open>The right-hand side of an arm of \<open>match self\<close>: a round number, or \<open>compile_error!\<close>.\<close>

datatype arm_body = RoundIs u16 | CompileError string

datatype round_body = MatchNothing | MatchSelf "(string \<times> arm_body) list"

text \<open>An emitted \<open>impl RoundMsg<type>\<close>.\<close>

record round_impl =
  impl_type :: string
  impl_ROUND :: u16
  impl_variant :: string

datatype expansion =
  Rejected string
| Expansion root_path string round_body "round_impl list"

text \<open>\<open>(0u16..).zip(variants)\<close>.\<close>

definition numbered :: "variant list \<Rightarrow> (u16 \<times> variant) list" where
  "numbered variants = zip (map of_nat [0..<length variants]) variants"

definition round_arm :: "u16 \<times> variant \<Rightarrow> string \<times> arm_body" where
  "round_arm = (\<lambda>(i, v). (v_ident v,
     case v_fields v of
       Fields_Unit \<Rightarrow> CompileError ''unit variants are not allowed in ProtocolMsg''
     | Fields_Named _ \<Rightarrow> CompileError ''named variants are not allowed in ProtocolMsg''
     | Fields_Unnamed tys \<Rightarrow>
         if length tys = 1 then RoundIs i
         else CompileError ''this variant must contain exactly one field to be valid ProtocolMsg''))"

definition round_method :: "variant list \<Rightarrow> round_body" where
  "round_method variants = MatchSelf (map round_arm (numbered variants))"

definition round_msg_impl :: "u16 \<times> variant \<Rightarrow> round_impl list" where
  "round_msg_impl = (\<lambda>(i, v).
     case v_fields v of
       Fields_Unnamed [ty] \<Rightarrow> [\<lparr>impl_type = ty, impl_ROUND = i, impl_variant = v_ident v\<rparr>]
     | _ \<Rightarrow> [])"

definition round_msgs_impls :: "variant list \<Rightarrow> round_impl list" where
  "round_msgs_impls variants = concat (map round_msg_impl (numbered variants))"

text \<open>The attribute \<open>#[protocol_msg(root = path)]\<close>, at most once.\<close>

fun find_root ::
  "('t \<Rightarrow> string + root_path) \<Rightarrow> 't attribute list \<Rightarrow> root_path option \<Rightarrow> string + root_path option" where
  "find_root parse [] root = Ok root"
| "find_root parse (attr # attrs) root =
     (if attr_path attr \<noteq> ''protocol_msg'' then find_root parse attrs root
      else if root \<noteq> None then Err ''#[protocol_msg] attribute appears more than once''
      else (case parse (attr_tokens attr) of
              Err e \<Rightarrow> Err e
            | Ok path \<Rightarrow> find_root parse attrs (Some path)))"

definition protocol_msg :: "('t \<Rightarrow> string + root_path) \<Rightarrow> 't derive_input \<Rightarrow> expansion" where
  "protocol_msg parse input =
     (case find_root parse (di_attrs input) None of
        Err e \<Rightarrow> Rejected e
      | Ok root \<Rightarrow>
          (let path = (case root of Some path \<Rightarrow> path | None \<Rightarrow> [''round_based'']) in
           case di_data input of
             Data_Enum variants \<Rightarrow>
               Expansion path (di_ident input)
                 (if variants \<noteq> [] then round_method variants else MatchNothing)
                 (round_msgs_impls variants)
           | _ \<Rightarrow> Rejected ''only enum may implement ProtocolMsg''))"

subsection \<open>What the emitted code does\<close>

text \<open>A value of the enum: its variant and the field of the variant.\<close>

record 'v enum_value =
  ev_variant :: string
  ev_field :: 'v

definition emitted_round :: "round_body \<Rightarrow> 'v enum_value \<Rightarrow> u16 option" where
  "emitted_round body p =
     (case body of
        MatchNothing \<Rightarrow> None
      | MatchSelf arms \<Rightarrow>
          (case map_of arms (ev_variant p) of Some (RoundIs i) \<Rightarrow> Some i | _ \<Rightarrow> None))"

definition emitted_round_msg :: "round_impl \<Rightarrow> ('v, 'v enum_value) round_msg" where
  "emitted_round_msg im =
     \<lparr>ROUND = impl_ROUND im,
      to_protocol_msg = (\<lambda>x. \<lparr>ev_variant = impl_variant im, ev_field = x\<rparr>),
      from_protocol_msg = (\<lambda>p. if ev_variant p = impl_variant im then Ok (ev_field p) else Err p)\<rparr>"

text \<open>
  No arm is \<open>compile_error!\<close>. Whether the rest of the emitted code compiles is up to \<open>rustc\<close>, which
  knows what the types are: in particular it rejects two implementations of \<open>RoundMsg\<close> for one type.
\<close>

fun no_compile_error :: "round_body \<Rightarrow> bool" where
  "no_compile_error MatchNothing \<longleftrightarrow> True"
| "no_compile_error (MatchSelf arms) \<longleftrightarrow>
     list_all (\<lambda>(_, b). case b of RoundIs _ \<Rightarrow> True | CompileError _ \<Rightarrow> False) arms"

definition declared :: "variant list \<Rightarrow> 'v enum_value \<Rightarrow> bool" where
  "declared variants p \<longleftrightarrow> ev_variant p \<in> v_ident ` set variants"

definition one_field :: "variant \<Rightarrow> bool" where
  "one_field v \<longleftrightarrow> (case v_fields v of Fields_Unnamed tys \<Rightarrow> length tys = 1 | _ \<Rightarrow> False)"

definition payload_type :: "variant \<Rightarrow> string list" where
  "payload_type v = (case v_fields v of Fields_Unnamed [ty] \<Rightarrow> [ty] | _ \<Rightarrow> [])"

subsection \<open>Numbering\<close>

lemma length_numbered [simp]: "length (numbered vs) = length vs"
  by (simp add: numbered_def)

lemma nth_numbered: "k < length vs \<Longrightarrow> numbered vs ! k = (of_nat k, vs ! k)"
  by (simp add: numbered_def)

lemma set_numbered: "set (numbered vs) = {(of_nat k, vs ! k) | k. k < length vs}"
  by (force simp: in_set_conv_nth nth_numbered)

lemma round_arm_one_field: "one_field v \<Longrightarrow> round_arm (i, v) = (v_ident v, RoundIs i)"
  by (auto simp: round_arm_def one_field_def split: fields.splits)

lemma round_method_compiles: "no_compile_error (round_method vs) \<longleftrightarrow> list_all one_field vs"
proof -
  have arm: "(case snd (round_arm (i, v)) of RoundIs _ \<Rightarrow> True | CompileError _ \<Rightarrow> False) \<longleftrightarrow> one_field v" for i v
    by (auto simp: round_arm_def one_field_def split: fields.splits)
  show ?thesis
    using arm by (simp add: round_method_def list_all_length nth_numbered case_prod_beta)
qed

lemma round_msg_impl_one_field:
  "one_field v \<Longrightarrow> \<exists>ty. round_msg_impl (i, v) = [\<lparr>impl_type = ty, impl_ROUND = i, impl_variant = v_ident v\<rparr>]"
  by (auto simp: round_msg_impl_def one_field_def length_Suc_conv split: fields.splits)

lemma impls_of_variants:
  assumes "list_all one_field vs"
  shows "map (\<lambda>im. (impl_ROUND im, impl_variant im)) (round_msgs_impls vs) =
         map (\<lambda>(i, v). (i, v_ident v)) (numbered vs)"
proof -
  have "map (\<lambda>im. (impl_ROUND im, impl_variant im)) (round_msg_impl (i, v)) = [(i, v_ident v)]"
    if "v \<in> set vs" for i v
    using round_msg_impl_one_field [of v i] assms that by (auto simp: list_all_iff)
  then have "map (\<lambda>im. (impl_ROUND im, impl_variant im)) (concat (map round_msg_impl xs)) =
      map (\<lambda>(i, v). (i, v_ident v)) xs" if "snd ` set xs \<subseteq> set vs" for xs
    using that by (induction xs) auto
  moreover have "snd ` set (numbered vs) \<subseteq> set vs" by (auto simp: set_numbered)
  ultimately show ?thesis by (simp add: round_msgs_impls_def)
qed

lemma impl_types: "map impl_type (round_msgs_impls vs) = concat (map payload_type vs)"
proof -
  have one: "map impl_type (round_msg_impl (i, v)) = payload_type v" for i v
    by (auto simp: round_msg_impl_def payload_type_def split: fields.split list.split)
  have "map impl_type (concat (map round_msg_impl xs)) = concat (map payload_type (map snd xs))" for xs
    by (induction xs) (auto simp: one)
  moreover have "map snd (numbered vs) = vs" by (simp add: numbered_def)
  ultimately show ?thesis unfolding round_msgs_impls_def by metis
qed

lemma emitted_round_nth:
  assumes "list_all one_field vs" and "distinct (map v_ident vs)" and "k < length vs"
    and "ev_variant p = v_ident (vs ! k)"
  shows "emitted_round (round_method vs) p = Some (of_nat k)"
proof -
  let ?arms = "map round_arm (numbered vs)"
  have arm: "?arms ! j = (v_ident (vs ! j), RoundIs (of_nat j))" if "j < length vs" for j
    using that assms(1) by (simp add: nth_numbered round_arm_one_field list_all_length)
  have "map fst ?arms = map v_ident vs" by (rule nth_equalityI) (use arm in force)+
  then have "map_of ?arms (v_ident (vs ! k)) = Some (RoundIs (of_nat k))"
    using assms(2,3) arm [OF assms(3)] nth_mem [of k ?arms] by (intro map_of_is_SomeI) simp_all
  then show ?thesis using assms(4) by (simp add: emitted_round_def round_method_def)
qed

text \<open>The attributes that the macro looks at, and what it does with them.\<close>

definition msg_attrs :: "'t attribute list \<Rightarrow> 't attribute list" where
  "msg_attrs attrs = filter (\<lambda>a. attr_path a = ''protocol_msg'') attrs"

lemma find_root_filter: "find_root parse attrs root = find_root parse (msg_attrs attrs) root"
  by (induction attrs arbitrary: root) (auto simp: msg_attrs_def split: sum.splits)

lemma find_root_attrs:
  "find_root parse attrs None =
     (case msg_attrs attrs of
        [] \<Rightarrow> Ok None
      | a # as \<Rightarrow>
          (case parse (attr_tokens a) of
             Err e \<Rightarrow> Err e
           | Ok path \<Rightarrow> if as = [] then Ok (Some path)
                        else Err ''#[protocol_msg] attribute appears more than once''))"
proof -
  have "list_all (\<lambda>a. attr_path a = ''protocol_msg'') (msg_attrs attrs)"
    by (simp add: msg_attrs_def list_all_iff)
  then have "find_root parse (msg_attrs attrs) None =
     (case msg_attrs attrs of
        [] \<Rightarrow> Ok None
      | a # as \<Rightarrow>
          (case parse (attr_tokens a) of
             Err e \<Rightarrow> Err e
           | Ok path \<Rightarrow> if as = [] then Ok (Some path)
                        else Err ''#[protocol_msg] attribute appears more than once''))"
    by (cases "msg_attrs attrs" rule: remdups_adj.cases) (simp_all split: sum.splits)
  then show ?thesis by (simp add: find_root_filter [symmetric])
qed

subsection \<open>Properties\<close>

text \<open>C18: The derived implementations keep the contract of protocol messages. If the macro accepts
  an enum (of at most \<open>2 ^ 16\<close> variants, whose names Rust requires to be distinct) and emits no
  \<open>compile_error!\<close>, then the variants are numbered from 0 in the order of their declaration, every
  variant has one implementation of \<open>RoundMsg\<close>, and each of them satisfies all the laws of the trait
  with respect to the derived \<open>round\<close>.\<close>

theorem derived_messages_are_lawful:
  assumes "protocol_msg parse input = Expansion root name body impls"
    and "di_data input = Data_Enum variants" and "no_compile_error body"
    and "distinct (map v_ident variants)" and "length variants \<le> 65536"
  shows "\<exists>rnd. (\<forall>p :: 'v enum_value. declared variants p \<longrightarrow> emitted_round body p = Some (rnd p)) \<and>
     (\<forall>k < length variants. \<forall>x. rnd \<lparr>ev_variant = v_ident (variants ! k), ev_field = x\<rparr> = of_nat k) \<and>
     map impl_variant impls = map v_ident variants \<and>
     (\<forall>im \<in> set impls. lawful_round_msg (declared variants) rnd
        (emitted_round_msg im :: ('v, 'v enum_value) round_msg))"
proof -
  have body: "body = (if variants \<noteq> [] then round_method variants else MatchNothing)"
    and impls: "impls = round_msgs_impls variants"
    using assms(1,2) by (auto simp: protocol_msg_def Let_def split: sum.splits)
  have ok: "list_all one_field variants"
    using assms(3) body by (cases "variants = []") (simp_all add: round_method_compiles)
  define rnd where "rnd p = the (emitted_round body (p :: 'v enum_value))" for p
  have nth: "emitted_round body p = Some (of_nat k)"
    if "k < length variants" "ev_variant p = v_ident (variants ! k)" for k and p :: "'v enum_value"
    using emitted_round_nth [OF ok assms(4) that] that(1) body by auto
  have decl: "\<exists>k < length variants. ev_variant p = v_ident (variants ! k)"
    if "declared variants p" for p :: "'v enum_value"
    using that by (auto simp: declared_def in_set_conv_nth)
  have some: "emitted_round body p = Some (rnd p)" if "declared variants p" for p
    using decl [OF that] nth by (auto simp: rnd_def)
  have inj: "j = k" if "j < length variants" "k < length variants" "(of_nat j :: u16) = of_nat k" for j k
    using that assms(5) by (metis unat_of_nat_u16 order_less_le_trans)
  have law: "lawful_msg (declared variants) rnd (emitted_round_msg im)"
    if im: "im \<in> set impls" for im
  proof -
    have "(impl_ROUND im, impl_variant im) \<in> (\<lambda>(i, v). (i, v_ident v)) ` set (numbered variants)"
      using im impls_of_variants [OF ok] impls by (metis (no_types, lifting) image_eqI list.set_map)
    then obtain k where k: "k < length variants" "impl_ROUND im = of_nat k"
      "impl_variant im = v_ident (variants ! k)"
      by (auto simp: set_numbered)
    have own: "rnd p = of_nat k \<longleftrightarrow> ev_variant p = impl_variant im" if "declared variants p" for p
      using decl [OF that] nth k inj by (auto simp: rnd_def) metis
    show ?thesis
      using own k nth by unfold_locales (auto simp: emitted_round_msg_def declared_def rnd_def)
  qed
  have "map impl_variant impls = map v_ident variants"
  proof -
    have "map impl_variant impls = map snd (map (\<lambda>im. (impl_ROUND im, impl_variant im)) impls)" by simp
    also have "\<dots> = map v_ident variants"
      unfolding impls impls_of_variants [OF ok] by (rule nth_equalityI) (simp_all add: nth_numbered)
    finally show ?thesis .
  qed
  then show ?thesis
    using some nth law by (intro exI [of _ rnd]) (auto simp: rnd_def lawful_round_msg_def)
qed

text \<open>The declaration of the messages of the random generation example.\<close>

definition Msg_declaration :: "unit derive_input" where
  "Msg_declaration =
     \<lparr>di_attrs = [], di_ident = ''Msg'',
      di_data = Data_Enum
        [\<lparr>v_ident = ''CommitMsg'', v_fields = Fields_Unnamed [''CommitMsg'']\<rparr>,
         \<lparr>v_ident = ''DecommitMsg'', v_fields = Fields_Unnamed [''DecommitMsg'']\<rparr>]\<rparr>"

abbreviation Msg_variants :: "variant list" where
  "Msg_variants \<equiv>
     [\<lparr>v_ident = ''CommitMsg'', v_fields = Fields_Unnamed [''CommitMsg'']\<rparr>,
      \<lparr>v_ident = ''DecommitMsg'', v_fields = Fields_Unnamed [''DecommitMsg'']\<rparr>]"

lemma Msg_expansion:
  "protocol_msg parse Msg_declaration =
     Expansion [''round_based''] ''Msg''
       (MatchSelf [(''CommitMsg'', RoundIs 0), (''DecommitMsg'', RoundIs 1)])
       [\<lparr>impl_type = ''CommitMsg'', impl_ROUND = 0, impl_variant = ''CommitMsg''\<rparr>,
        \<lparr>impl_type = ''DecommitMsg'', impl_ROUND = 1, impl_variant = ''DecommitMsg''\<rparr>]"
  by (simp add: protocol_msg_def Msg_declaration_def round_method_def numbered_def round_arm_def
                round_msgs_impls_def round_msg_impl_def upt_rec)

theorem derived_messages_are_lawful_witness:
  "\<exists>rnd. rnd \<lparr>ev_variant = ''DecommitMsg'', ev_field = 5 :: nat\<rparr> = 1 \<and>
     lawful_round_msg (declared Msg_variants) rnd
        (emitted_round_msg \<lparr>impl_type = ''CommitMsg'', impl_ROUND = 0, impl_variant = ''CommitMsg''\<rparr>)"
  using derived_messages_are_lawful [where 'v = nat, OF Msg_expansion, of Msg_variants]
  by (auto simp: Msg_declaration_def) (metis One_nat_def lessI nth_Cons_0 nth_Cons_Suc of_nat_1 variant.select_convs(1))

text \<open>C36: What the macro rejects. It reports an error itself exactly when the type is not an enum,
  when its attribute does not parse, or when it has two of them; otherwise the path in the
  emitted code is that of the attribute, and the code contains a \<open>compile_error!\<close> exactly when some
  variant is not one with a single unnamed field. It does not check that the fields have different
  types: there is one implementation of \<open>RoundMsg\<close> for each variant with a single unnamed field, in
  order, for the type of that field, so two such variants with the same type give two
  implementations of the same trait, which the compiler rejects.\<close>

theorem derive_rejections:
  "case protocol_msg parse input of
     Rejected _ \<Rightarrow>
       (\<forall>vs. di_data input \<noteq> Data_Enum vs) \<or> 1 < length (msg_attrs (di_attrs input)) \<or>
       (\<exists>a \<in> set (msg_attrs (di_attrs input)). \<not> is_ok (parse (attr_tokens a)))
   | Expansion root name body impls \<Rightarrow>
       (case msg_attrs (di_attrs input) of
          [] \<Rightarrow> root = [''round_based'']
        | [a] \<Rightarrow> parse (attr_tokens a) = Ok root
        | _ \<Rightarrow> False) \<and>
       name = di_ident input \<and>
       (\<exists>vs. di_data input = Data_Enum vs \<and> (no_compile_error body \<longleftrightarrow> list_all one_field vs) \<and>
          map impl_type impls = concat (map payload_type vs))"
proof -
  have body: "no_compile_error (if vs \<noteq> [] then round_method vs else MatchNothing) \<longleftrightarrow> list_all one_field vs"
    for vs by (simp add: round_method_compiles)
  note types = impl_types
  show ?thesis
    unfolding protocol_msg_def find_root_attrs [of parse "di_attrs input"]
    by (auto simp: Let_def body types split: list.splits sum.splits input_data.splits option.splits)
qed

text \<open>A declaration with two variants of the same type.\<close>

definition twice_declaration :: "unit derive_input" where
  "twice_declaration =
     \<lparr>di_attrs = [], di_ident = ''Msg'',
      di_data = Data_Enum
        [\<lparr>v_ident = ''A'', v_fields = Fields_Unnamed [''u16'']\<rparr>,
         \<lparr>v_ident = ''B'', v_fields = Fields_Unnamed [''u16'']\<rparr>]\<rparr>"

theorem derive_rejections_witness:
  "case protocol_msg (\<lambda>_. Err ''no attribute'') twice_declaration of
     Expansion root name body impls \<Rightarrow>
       no_compile_error body \<and> \<not> distinct (map impl_type impls)
   | Rejected e \<Rightarrow> False"
  using derive_rejections [of twice_declaration "\<lambda>_. Err ''no attribute''"]
  by (auto simp: twice_declaration_def msg_attrs_def one_field_def payload_type_def split: expansion.splits)

end
