(* ===== verification/Echo_Msg.thy ===== *)
theory Echo_Msg
  imports Mpc_Traits
begin

section \<open>Messages of a protocol with echo rounds\<close>

text \<open>
  \<open>round-based/src/echo_broadcast/mod.rs\<close>, the type \<open>Msg<D, M>\<close> with its round numbers and its two
  kinds of sub-messages. Hashes are values of a type \<open>'d\<close>. The round number is computed in 16 bits:
  the wrap-around is that of a build without overflow checks (a build with them panics instead).
  The associated constants \<open>ROUND\<close> are evaluated by the compiler, which rejects an overflow.
\<close>

datatype ('d, 'm) echo_msg = Echo u16 'd | MainMsg 'm

fun echo_msg_round :: "('m \<Rightarrow> u16) \<Rightarrow> ('d, 'm) echo_msg \<Rightarrow> u16" where
  "echo_msg_round rnd (Echo r hash) = 2 * r + 1"
| "echo_msg_round rnd (MainMsg m) = 2 * rnd m"

text \<open>\<open>PartialEq\<close>, over the equality of the wrapped messages.\<close>

fun echo_msg_eq :: "('m \<Rightarrow> 'm \<Rightarrow> bool) \<Rightarrow> ('d, 'm) echo_msg \<Rightarrow> ('d, 'm) echo_msg \<Rightarrow> bool" where
  "echo_msg_eq eq (Echo round1 h) other = (case other of Echo r2 h2 \<Rightarrow> round1 = r2 \<and> h = h2 | _ \<Rightarrow> False)"
| "echo_msg_eq eq (MainMsg m) other = (case other of MainMsg m2 \<Rightarrow> eq m m2 | _ \<Rightarrow> False)"

lemma echo_msg_eq_iff: "(\<And>a b. eq a b \<longleftrightarrow> a = b) \<Longrightarrow> echo_msg_eq eq x y \<longleftrightarrow> x = y"
  by (cases x; cases y) simp_all

text \<open>The sub-messages \<open>sub_msg::EchoMsg\<close> and \<open>sub_msg::Main\<close>.\<close>

datatype 'd sub_echo = EchoMsg (echo_hash: 'd)

datatype 'rm sub_main = Main (main_msg: 'rm)

definition echo_round_msg :: "('rm, 'm) round_msg \<Rightarrow> ('d sub_echo, ('d, 'm) echo_msg) round_msg" where
  "echo_round_msg M =
     \<lparr>ROUND = 2 * ROUND M + 1,
      to_protocol_msg = (\<lambda>x. Echo (ROUND M) (echo_hash x)),
      from_protocol_msg = (\<lambda>p. case p of
          Echo r hash \<Rightarrow> if r = ROUND M then Ok (EchoMsg hash) else Err p
        | MainMsg _ \<Rightarrow> Err p)\<rparr>"

definition main_round_msg :: "('rm, 'm) round_msg \<Rightarrow> ('rm sub_main, ('d, 'm) echo_msg) round_msg" where
  "main_round_msg M =
     \<lparr>ROUND = 2 * ROUND M,
      to_protocol_msg = (\<lambda>x. MainMsg (to_protocol_msg M (main_msg x))),
      from_protocol_msg = (\<lambda>p. case p of
          MainMsg msg \<Rightarrow> map_err MainMsg (map_ok Main (from_protocol_msg M msg))
        | Echo _ _ \<Rightarrow> Err p)\<rparr>"

lemmas echo_msg_defs [echo_defs] = echo_round_msg_def main_round_msg_def

subsection \<open>Doubling 16-bit round numbers\<close>

lemma unat_double: "(r :: u16) < 32768 \<Longrightarrow> unat (2 * r) = 2 * unat r"
  by (subst unat_mult_lem [THEN iffD1]) (auto simp: unat_less_iff)

lemma unat_double_plus: "(r :: u16) < 32768 \<Longrightarrow> unat (2 * r + 1) = Suc (2 * unat r)"
  using unat_double [of r] unat_add_lem [of "2 * r" 1] by (auto simp: unat_less_iff)

lemma double_inj: "(r :: u16) < 32768 \<Longrightarrow> s < 32768 \<Longrightarrow> 2 * r = 2 * s \<longleftrightarrow> r = s"
  using unat_double [of r] unat_double [of s] by (auto simp: word_unat_eq_iff)

lemma double_plus_inj: "(r :: u16) < 32768 \<Longrightarrow> s < 32768 \<Longrightarrow> 2 * r + 1 = 2 * s + 1 \<longleftrightarrow> r = s"
  using double_inj [of r s] by simp

lemma even_odd_disjoint:
  assumes "(r :: u16) < 32768" and "s < 32768"
  shows "2 * r \<noteq> 2 * s + 1" "2 * r + 1 \<noteq> 2 * s"
proof -
  have "2 * unat r \<noteq> Suc (2 * unat s)" "Suc (2 * unat r) \<noteq> 2 * unat s" by presburger+
  then show "2 * r \<noteq> 2 * s + 1" "2 * r + 1 \<noteq> 2 * s"
    by (metis assms unat_double unat_double_plus)+
qed

subsection \<open>The wrapped messages keep the contract\<close>

text \<open>Messages of a wrapped protocol that claim a round number below \<open>2 ^ 15\<close>.\<close>

fun echo_valid :: "('m \<Rightarrow> bool) \<Rightarrow> ('d, 'm) echo_msg \<Rightarrow> bool" where
  "echo_valid valid (Echo r hash) \<longleftrightarrow> r < 32768"
| "echo_valid valid (MainMsg m) \<longleftrightarrow> valid m"

locale echo_wrapped = lawful_msg valid proto_round M
  for valid :: "'m \<Rightarrow> bool" and proto_round :: "'m \<Rightarrow> u16" and M :: "('rm, 'm) round_msg" +
  assumes valid_bound: "valid p \<Longrightarrow> proto_round p < 32768"
begin

lemma ROUND_bound: "ROUND M < 32768"
  using valid_bound [OF valid_to] by (simp add: round_to)

lemma main_lawful:
  "lawful_msg (echo_valid valid) (echo_msg_round proto_round)
     (main_round_msg M :: ('rm sub_main, ('d, 'm) echo_msg) round_msg)"
proof
  fix p :: "('d, 'm) echo_msg"
  assume p: "echo_valid valid p" "echo_msg_round proto_round p = ROUND (main_round_msg M)"
  show "is_ok (from_protocol_msg (main_round_msg M) p)"
  proof (cases p)
    case (Echo r h)
    then show ?thesis
      using p even_odd_disjoint(2) [of r "ROUND M"] ROUND_bound by (simp add: main_round_msg_def)
  next
    case (MainMsg m)
    then show ?thesis
      using p from_own [of m] double_inj [of "proto_round m" "ROUND M"] valid_bound ROUND_bound
      by (simp add: main_round_msg_def)
  qed
next
  fix p :: "('d, 'm) echo_msg"
  assume p: "echo_valid valid p" "echo_msg_round proto_round p \<noteq> ROUND (main_round_msg M)"
  show "from_protocol_msg (main_round_msg M) p = Err p"
  proof (cases p)
    case (MainMsg m)
    then have "proto_round m \<noteq> ROUND M" "valid m" using p by (auto simp: main_round_msg_def)
    then show ?thesis using MainMsg from_other by (simp add: main_round_msg_def)
  qed (simp add: main_round_msg_def)
qed (simp_all add: main_round_msg_def valid_to round_to from_to)

lemma echo_lawful:
  "lawful_msg (echo_valid valid) (echo_msg_round proto_round)
     (echo_round_msg M :: ('d sub_echo, ('d, 'm) echo_msg) round_msg)"
proof
  fix p :: "('d, 'm) echo_msg"
  assume p: "echo_valid valid p" "echo_msg_round proto_round p = ROUND (echo_round_msg M)"
  show "is_ok (from_protocol_msg (echo_round_msg M) p)"
  proof (cases p)
    case (Echo r h)
    then show ?thesis
      using p double_inj [of r "ROUND M"] ROUND_bound by (simp add: echo_round_msg_def)
  next
    case (MainMsg m)
    then show ?thesis
      using p even_odd_disjoint(1) [of "proto_round m" "ROUND M"] valid_bound ROUND_bound
      by (simp add: echo_round_msg_def)
  qed
next
  fix p :: "('d, 'm) echo_msg"
  assume p: "echo_valid valid p" "echo_msg_round proto_round p \<noteq> ROUND (echo_round_msg M)"
  then show "from_protocol_msg (echo_round_msg M) p = Err p"
    by (cases p) (auto simp: echo_round_msg_def)
qed (simp_all add: echo_round_msg_def ROUND_bound)

end

sublocale echo_wrapped \<subseteq> main: lawful_msg "echo_valid valid" "echo_msg_round proto_round" "main_round_msg M"
  by (rule main_lawful)

sublocale echo_wrapped \<subseteq> echo: lawful_msg "echo_valid valid" "echo_msg_round proto_round" "echo_round_msg M"
  by (rule echo_lawful)

end
