(* ===== verification/Echo_Store.thy ===== *)
theory Echo_Store
  imports Echo_Msg Rounds_Router
begin

section \<open>Stores of the echo broadcast\<close>

text \<open>
  \<open>round-based/src/echo_broadcast/error.rs\<close> and \<open>store.rs\<close>. A round that requires reliable
  broadcast is replaced by two: \<open>MainRound\<close>, which collects the messages in the wrapped store and
  keeps a copy of each, and \<open>EchoRound\<close>, which collects the hashes that the others computed over
  their copies. The hash, \<open>udigest::hash\<close> with a \<open>Digest\<close> of the user's choice over the messages, the
  round and the number of parties, is a parameter.
\<close>

subsection \<open>Errors\<close>

datatype echo_reason =
  StoreReceivedTwoMsgsFromSameParty
| ReceivedMainMsgWhenRoundOver
| UnknownSender u16 nat
| OwnIndexOutOfBounds u16 nat
| MainRoundFinishedButStoreDoesntOutput
| HandleEcho round_input_error
| MismatchedHash
| StateGone
| UnexpectedMainRoundState
| RoundMsgClone
| SendTwice
| SentMsgFromProto
| SentNonReliableMsgInReliableRound message_destination u16
| SentReliableMsgInNonReliableRound u16

datatype echo_error = EchoError echo_reason

fun reliability_check_failed :: "echo_error \<Rightarrow> bool" where
  "reliability_check_failed (EchoError r) \<longleftrightarrow> r = MismatchedHash"

datatype 'e with_echo_error = ErrMain 'e | ErrEcho echo_error

definition from_Reason :: "echo_reason \<Rightarrow> 'e with_echo_error" where
  "from_Reason r = ErrEcho (EchoError r)"

datatype ('ce, 'se) echo_complete_error = CompleteRound 'ce | SendErr 'se | EchoErr echo_error

subsection \<open>The main round\<close>

datatype ('s, 'o) main_round_state = Ongoing 's | MR_Output 'o | MR_Finished | MR_Gone

record round_params =
  par_i :: u16
  par_n :: u16

record ('s, 'o, 'm) main_round =
  mr_params :: round_params
  mr_state :: "('s, 'o) main_round_state"
  mr_received_msgs :: "'m option list"

definition clone_round_msg :: "('rm, 'm) round_msg \<Rightarrow> 'rm \<Rightarrow> ('rm \<times> 'rm) option" where
  "clone_round_msg M round_msg =
     (let proto_msg = to_protocol_msg M round_msg in
      case from_protocol_msg M proto_msg of
        Err _ \<Rightarrow> None
      | Ok round_msg1 \<Rightarrow>
          (case from_protocol_msg M proto_msg of
             Err _ \<Rightarrow> None
           | Ok round_msg2 \<Rightarrow> Some (round_msg1, round_msg2)))"

definition clone_incoming_round_msg ::
  "('rm, 'm) round_msg \<Rightarrow> 'rm incoming \<Rightarrow> ('rm incoming \<times> 'rm incoming) option" where
  "clone_incoming_round_msg M m =
     (case clone_round_msg M (inc_msg m) of
        None \<Rightarrow> None
      | Some (msg1, msg2) \<Rightarrow> Some (Incoming_map (\<lambda>_. msg1) m, Incoming_map (\<lambda>_. msg2) m))"

text \<open>The first part of \<open>add_message\<close>, which answers whether the store wants more messages.\<close>

definition MainRound_save_message ::
  "('s, 'rm, 'o, 'e, 'u) round_store \<Rightarrow> ('rm, 'm) round_msg \<Rightarrow> ('s, 'o, 'm) main_round
     \<Rightarrow> 'rm incoming \<Rightarrow> ('s, 'o, 'm) main_round \<times> ('e with_echo_error + bool)" where
  "MainRound_save_message S M self m =
     (case mr_state self of
        Ongoing store \<Rightarrow>
          (case clone_incoming_round_msg M (m\<lparr>inc_msg_type := Broadcast True\<rparr>) of
             None \<Rightarrow> (self, Err (from_Reason RoundMsgClone))
           | Some (incoming1, incoming2) \<Rightarrow>
               (case rs_add_message S store incoming1 of
                  (store', Err e) \<Rightarrow> (self\<lparr>mr_state := Ongoing store'\<rparr>, Err (ErrMain e))
                | (store', Ok _) \<Rightarrow>
                    (let self' = self\<lparr>mr_state := Ongoing store'\<rparr>;
                         received = mr_received_msgs self in
                     case get_slot received (unat (inc_sender incoming2)) of
                       None \<Rightarrow> (self', Err (from_Reason
                                  (UnknownSender (inc_sender incoming2) (length received))))
                     | Some (Some _) \<Rightarrow> (self', Err (from_Reason StoreReceivedTwoMsgsFromSameParty))
                     | Some None \<Rightarrow>
                         (self'\<lparr>mr_received_msgs := received[unat (inc_sender incoming2) :=
                              Some (to_protocol_msg M (inc_msg incoming2))]\<rparr>,
                          Ok (rs_wants_more S store')))))
      | MR_Gone \<Rightarrow> (self, Err (from_Reason StateGone))
      | MR_Output _ \<Rightarrow> (self, Err (from_Reason ReceivedMainMsgWhenRoundOver))
      | MR_Finished \<Rightarrow> (self, Err (from_Reason ReceivedMainMsgWhenRoundOver)))"

definition MainRound_add_message ::
  "('s, 'rm, 'o, 'e, 'u) round_store \<Rightarrow> ('rm, 'm) round_msg \<Rightarrow> ('s, 'o, 'm) main_round
     \<Rightarrow> 'rm incoming \<Rightarrow> ('s, 'o, 'm) main_round \<times> ('e with_echo_error + unit)" where
  "MainRound_add_message S M self m =
     (case MainRound_save_message S M self m of
        (self', Err e) \<Rightarrow> (self', Err e)
      | (self', Ok wants_more) \<Rightarrow>
          if \<not> wants_more then
            (case mr_state self' of
               Ongoing store \<Rightarrow>
                 (case rs_output S store of
                    Err _ \<Rightarrow> (self'\<lparr>mr_state := MR_Finished\<rparr>,
                              Err (from_Reason MainRoundFinishedButStoreDoesntOutput))
                  | Ok out \<Rightarrow> (self'\<lparr>mr_state := MR_Output out\<rparr>, Ok ()))
             | _ \<Rightarrow> (self'\<lparr>mr_state := MR_Gone\<rparr>, Err (from_Reason UnexpectedMainRoundState)))
          else (self', Ok ()))"

definition MainRound_wants_more :: "('s, 'o, 'm) main_round \<Rightarrow> bool" where
  "MainRound_wants_more self = (case mr_state self of Ongoing _ \<Rightarrow> True | _ \<Rightarrow> False)"

record ('o, 'm) needs_own_msg =
  no_params :: round_params
  no_main_round_output :: 'o
  no_received_msgs :: "'m option list"

definition MainRound_output ::
  "('s, 'o, 'm) main_round \<Rightarrow> ('s, 'o, 'm) main_round + ('o, 'm) needs_own_msg" where
  "MainRound_output self =
     (case mr_state self of
        MR_Output out \<Rightarrow> Ok \<lparr>no_params = mr_params self, no_main_round_output = out,
                             no_received_msgs = mr_received_msgs self\<rparr>
      | state \<Rightarrow> Err \<lparr>mr_params = mr_params self, mr_state = state,
                      mr_received_msgs = mr_received_msgs self\<rparr>)"

definition MainRound_store ::
  "('s, 'rm, 'o, 'e, 'u) round_store \<Rightarrow> ('rm, 'm) round_msg
     \<Rightarrow> (('s, 'o, 'm) main_round, 'rm, ('o, 'm) needs_own_msg, 'e with_echo_error, 'u) round_store" where
  "MainRound_store S M =
     \<lparr>rs_add_message = MainRound_add_message S M, rs_wants_more = MainRound_wants_more,
      rs_output = MainRound_output, rs_read_any_prop = default_read_any_prop\<rparr>"

subsection \<open>The hash and the reliability check\<close>

record ('d, 'o) reliability_check =
  rc_expected_hash :: 'd
  rc_main_round_output :: 'o

definition with_my_msg ::
  "('m option list \<Rightarrow> u16 \<Rightarrow> u16 \<Rightarrow> 'd) \<Rightarrow> ('rm, 'm) round_msg \<Rightarrow> ('o, 'm) needs_own_msg
     \<Rightarrow> 'rm option \<Rightarrow> echo_error + ('d, 'o) reliability_check \<times> 'd" where
  "with_my_msg hash M self msg =
     (let n = length (no_received_msgs self); i = par_i (no_params self) in
      if unat i < n then
        (let received = (no_received_msgs self)[unat i := map_option (to_protocol_msg M) msg];
             h = hash received (ROUND M) (par_n (no_params self))
         in Ok (\<lparr>rc_expected_hash = h, rc_main_round_output = no_main_round_output self\<rparr>, h))
      else Err (EchoError (OwnIndexOutOfBounds i n)))"

definition with_echo_output ::
  "('d, 'o) reliability_check \<Rightarrow> 'd round_msgs \<Rightarrow> echo_error + 'o" where
  "with_echo_output self received_echoes =
     (if list_ex (\<lambda>h. h \<noteq> rc_expected_hash self) (RoundMsgs_iter received_echoes)
      then Err (EchoError MismatchedHash)
      else Ok (rc_main_round_output self))"

subsection \<open>The echo round\<close>

record 'd echo_round =
  er_echo_round :: "'d round_input"

definition EchoRound_add_message ::
  "'d echo_round \<Rightarrow> 'd sub_echo incoming \<Rightarrow> 'd echo_round \<times> (echo_error + unit)" where
  "EchoRound_add_message self m =
     (case RoundInput_add_message (er_echo_round self) (Incoming_map echo_hash m) of
        (s, r) \<Rightarrow> (self\<lparr>er_echo_round := s\<rparr>, map_err (\<lambda>e. EchoError (HandleEcho e)) r))"

definition EchoRound_wants_more :: "'d echo_round \<Rightarrow> bool" where
  "EchoRound_wants_more self = RoundInput_wants_more (er_echo_round self)"

definition EchoRound_output :: "'d echo_round \<Rightarrow> 'd echo_round + 'd round_msgs" where
  "EchoRound_output self =
     map_err (\<lambda>s. \<lparr>er_echo_round = s\<rparr>) (RoundInput_output (er_echo_round self))"

definition EchoRound_store ::
  "('d echo_round, 'd sub_echo, 'd round_msgs, echo_error, 'u) round_store" where
  "EchoRound_store =
     \<lparr>rs_add_message = EchoRound_add_message, rs_wants_more = EchoRound_wants_more,
      rs_output = EchoRound_output, rs_read_any_prop = default_read_any_prop\<rparr>"

text \<open>\<open>store::new\<close>. Constructing the echo round panics if the indexes are wrong.\<close>

definition echo_store_new ::
  "('s, 'rm, 'o, 'e, 'u) round_store \<Rightarrow> u16 \<Rightarrow> u16 \<Rightarrow> 's
     \<Rightarrow> (('s, 'o, 'm) main_round \<times> 'd echo_round) or_panic" where
  "echo_store_new S i n main_round =
     (let state = (case rs_output S main_round of
                     Ok out \<Rightarrow> MR_Output out | Err store \<Rightarrow> Ongoing store)
      in case RoundInput_broadcast i n of
           Panic \<Rightarrow> Panic
         | Ret r \<Rightarrow> Ret (\<lparr>mr_params = \<lparr>par_i = i, par_n = n\<rparr>, mr_state = state,
                        mr_received_msgs = replicate (unat n) None\<rparr>, \<lparr>er_echo_round = r\<rparr>))"

subsection \<open>Wrappers\<close>

definition WithMainMsg_store ::
  "('s, 'rm, 'o, 'e, 'u) round_store \<Rightarrow> ('s, 'rm sub_main, 'o, 'e, 'u) round_store" where
  "WithMainMsg_store S =
     \<lparr>rs_add_message = (\<lambda>s m. rs_add_message S s (Incoming_map main_msg m)),
      rs_wants_more = rs_wants_more S, rs_output = rs_output S,
      rs_read_any_prop = default_read_any_prop\<rparr>"

definition WithError_store ::
  "('s, 'rm, 'o, 'e, 'u) round_store \<Rightarrow> ('s, 'rm, 'o, 'e with_echo_error, 'u) round_store" where
  "WithError_store S =
     \<lparr>rs_add_message = (\<lambda>s m. map_prod id (map_err ErrMain) (rs_add_message S s m)),
      rs_wants_more = rs_wants_more S, rs_output = rs_output S,
      rs_read_any_prop = default_read_any_prop\<rparr>"

definition WithEchoError_store ::
  "('s, 'rm, 'o, echo_error, 'u) round_store \<Rightarrow> ('s, 'rm, 'o, 'e with_echo_error, 'u) round_store" where
  "WithEchoError_store S =
     \<lparr>rs_add_message = (\<lambda>s m. map_prod id (map_err ErrEcho) (rs_add_message S s m)),
      rs_wants_more = rs_wants_more S, rs_output = rs_output S,
      rs_read_any_prop = default_read_any_prop\<rparr>"

lemmas echo_store_defs [echo_defs] =
  MainRound_store_def EchoRound_store_def WithMainMsg_store_def WithError_store_def
  WithEchoError_store_def MainRound_output_def MainRound_wants_more_def EchoRound_add_message_def
  EchoRound_wants_more_def EchoRound_output_def

subsection \<open>The stores keep the contract of the trait\<close>

lemma proper_wrapper:
  assumes "proper_round_store S I"
    and "\<And>s m s'. rs_add_message T s m = (s', Ok ()) \<Longrightarrow> \<exists>m'. rs_add_message S s m' = (s', Ok ())"
    and "rs_wants_more T = rs_wants_more S" and "rs_output T = rs_output S"
  shows "proper_round_store T I"
proof -
  note P = assms(1) [unfolded proper_round_store_def]
  show ?thesis
    unfolding proper_round_store_def assms(3,4)
    using proper_store.inv_add [OF P] proper_store.output_ready [OF P]
      proper_store.output_not_ready [OF P] assms(2)
    by unfold_locales blast+
qed

lemma WithMainMsg_proper: "proper_round_store S I \<Longrightarrow> proper_round_store (WithMainMsg_store S) I"
  by (erule proper_wrapper) (auto simp: WithMainMsg_store_def)

lemma WithError_proper: "proper_round_store S I \<Longrightarrow> proper_round_store (WithError_store S) I"
  by (erule proper_wrapper) (auto simp: WithError_store_def map_prod_def split: prod.splits)

lemma WithEchoError_proper: "proper_round_store S I \<Longrightarrow> proper_round_store (WithEchoError_store S) I"
  by (erule proper_wrapper) (auto simp: WithEchoError_store_def map_prod_def split: prod.splits)

interpretation echo_round: proper_store EchoRound_add_message EchoRound_wants_more EchoRound_output
  "\<lambda>s. RoundInput_wf (er_echo_round s)"
proof
  fix s :: "'d echo_round" and m s'
  assume "RoundInput_wf (er_echo_round s)" "EchoRound_add_message s m = (s', Ok ())"
  then show "RoundInput_wf (er_echo_round s')"
    using RoundInput_add_message_wf [of "er_echo_round s" "Incoming_map echo_hash m"]
    by (auto simp: EchoRound_add_message_def split: prod.splits)
next
  fix s :: "'d echo_round"
  assume "RoundInput_wf (er_echo_round s)" "\<not> EchoRound_wants_more s"
  then show "is_ok (EchoRound_output s)"
    using round_input.output_ready [of "er_echo_round s"] by (simp add: echo_defs)
next
  fix s :: "'d echo_round"
  assume "RoundInput_wf (er_echo_round s)" "EchoRound_wants_more s"
  then show "EchoRound_output s = Err s"
    using round_input.output_not_ready [of "er_echo_round s"] by (simp add: echo_defs)
qed

lemma EchoRound_proper: "proper_round_store EchoRound_store (\<lambda>s. RoundInput_wf (er_echo_round s))"
  unfolding proper_round_store_def
  by (simp add: EchoRound_store_def echo_round.proper_store_axioms)

definition main_inv :: "('s \<Rightarrow> bool) \<Rightarrow> ('s, 'o, 'm) main_round \<Rightarrow> bool" where
  "main_inv I self \<longleftrightarrow>
     (case mr_state self of Ongoing s \<Rightarrow> I s | MR_Output _ \<Rightarrow> True | _ \<Rightarrow> False)"

text \<open>What an accepted message does to the main round.\<close>

lemma MainRound_add_ok:
  assumes "MainRound_add_message S M self m = (self', Ok ())"
  obtains store store' m1 m2 where
    "mr_state self = Ongoing store"
    "clone_round_msg M (inc_msg m) = Some (m1, m2)"
    "rs_add_message S store (Incoming_map (\<lambda>_. m1) (m\<lparr>inc_msg_type := Broadcast True\<rparr>)) = (store', Ok ())"
    "get_slot (mr_received_msgs self) (unat (inc_sender m)) = Some None"
    "mr_received_msgs self' = (mr_received_msgs self)[unat (inc_sender m) := Some (to_protocol_msg M m2)]"
    "mr_params self' = mr_params self"
    "(rs_wants_more S store' \<and> mr_state self' = Ongoing store') \<or>
     (\<not> rs_wants_more S store' \<and> (\<exists>out. rs_output S store' = Ok out \<and> mr_state self' = MR_Output out))"
  using assms
  by (auto simp: MainRound_add_message_def MainRound_save_message_def clone_incoming_round_msg_def
                 from_Reason_def Let_def
           split: main_round_state.splits option.splits prod.splits sum.splits if_splits)

lemma MainRound_proper:
  assumes "proper_round_store S I"
  shows "proper_round_store (MainRound_store S M) (main_inv I)"
proof -
  note P = assms [unfolded proper_round_store_def]
  show ?thesis
    unfolding proper_round_store_def
  proof
    fix s m s'
    assume I: "main_inv I s" and add: "rs_add_message (MainRound_store S M) s m = (s', Ok ())"
    then have "MainRound_add_message S M s m = (s', Ok ())" by (simp add: MainRound_store_def)
    then show "main_inv I s'"
      by (rule MainRound_add_ok) (use I proper_store.inv_add [OF P] in \<open>auto simp: main_inv_def\<close>)
  next
    fix s :: "('a, 'c, 'f) main_round"
    assume "main_inv I s" "\<not> rs_wants_more (MainRound_store S M) s"
    then show "is_ok (rs_output (MainRound_store S M) s)"
      by (auto simp: main_inv_def echo_defs split: main_round_state.splits)
  next
    fix s :: "('a, 'c, 'f) main_round"
    assume "main_inv I s" "rs_wants_more (MainRound_store S M) s"
    then show "rs_output (MainRound_store S M) s = Err s"
      by (auto simp: echo_defs split: main_round_state.splits)
  qed
qed

subsection \<open>What the main round hashes\<close>

lemma output_view_nth:
  assumes wf: "RoundInput_wf s" and out: "RoundInput_output s = Ok r" and k: "k < ri_n s"
  shows "iter_including_me r x ! unat k =
           (if k = ri_i s then x else snd (the (received_from s k)))"
    and "k \<noteq> ri_i s \<Longrightarrow> received_from s k \<noteq> None"
proof -
  have more: "\<not> RoundInput_wants_more s"
    using out round_input.output_ok_iff [OF wf] by (metis is_ok_iff)
  note r = RoundInput_output_wf [OF wf out] RoundInput_output_ready [OF wf more]
  have "rm_messages r ! msg_index (ri_i s) k = snd (the (received_from s k))" if "k \<noteq> ri_i s"
  proof -
    have "msg_index (ri_i s) k < unat (ri_n s) - Suc 0"
      using wf k that by (simp add: RoundInput_wf_def msg_index_less_iff)
    then show ?thesis
      using r(3) out that by (auto simp: nth_others)
  qed
  then show "iter_including_me r x ! unat k =
           (if k = ri_i s then x else snd (the (received_from s k)))"
    using iter_including_me_nth [OF r(1) k, of x] r(2) by simp
  show "k \<noteq> ri_i s \<Longrightarrow> received_from s k \<noteq> None"
    using more k unfolding wants_more_iff [OF wf] by auto
qed

lemma add_message_received:
  assumes wf: "RoundInput_wf s" and add: "RoundInput_add_message s m = (s', Ok ())"
  shows "received_from s' =
      (if inc_sender m = ri_i s then received_from s
       else (received_from s)(inc_sender m \<mapsto> (inc_id m, inc_msg m)))"
    and "inc_sender m \<noteq> ri_i s \<Longrightarrow> received_from s (inc_sender m) = None \<and> inc_sender m < ri_n s"
    and "ri_i s' = ri_i s" "ri_n s' = ri_n s" "RoundInput_wf s'"
proof -
  have c: "collector_add (collector_of s) m = (collector_of s', Ok ())"
    using add_message_refines_collector [OF wf, of m] add by simp
  then show "received_from s' =
      (if inc_sender m = ri_i s then received_from s
       else (received_from s)(inc_sender m \<mapsto> (inc_id m, inc_msg m)))"
    and "inc_sender m \<noteq> ri_i s \<Longrightarrow> received_from s (inc_sender m) = None \<and> inc_sender m < ri_n s"
    by (auto simp: collector_add_def collector_of_def Let_def split: if_splits option.splits)
  show "ri_i s' = ri_i s" "ri_n s' = ri_n s"
    using RoundInput_add_message_frame [of s m] add by simp_all
  show "RoundInput_wf s'" using RoundInput_add_message_wf [OF wf, of m] add by simp
qed

text \<open>The copies that the main round keeps agree with the wrapped \<open>RoundInput\<close>.\<close>

definition copies_agree ::
  "('rm, 'm) round_msg \<Rightarrow> 'm option list \<Rightarrow> 'rm round_input \<Rightarrow> bool" where
  "copies_agree M received s \<longleftrightarrow> RoundInput_wf s \<and> length received = unat (ri_n s) \<and>
     (\<forall>k. k < ri_n s \<longrightarrow> k \<noteq> ri_i s \<longrightarrow>
        received ! unat k = map_option (\<lambda>x. to_protocol_msg M (snd x)) (received_from s k))"

definition main_collects ::
  "('rm, 'm) round_msg \<Rightarrow> u16 \<Rightarrow> u16 \<Rightarrow> ('rm round_input, 'rm round_msgs, 'm) main_round \<Rightarrow> bool" where
  "main_collects M i n self \<longleftrightarrow> mr_params self = \<lparr>par_i = i, par_n = n\<rparr> \<and>
     (\<exists>s. ri_i s = i \<and> ri_n s = n \<and> copies_agree M (mr_received_msgs self) s \<and>
        (mr_state self = Ongoing s \<or>
         (\<exists>out. RoundInput_output s = Ok out \<and> mr_state self = MR_Output out)))"

lemma copies_agree_add:
  assumes copies: "copies_agree M received s" and add: "RoundInput_add_message s m = (s', Ok ())"
  shows "copies_agree M (received[unat (inc_sender m) := Some (to_protocol_msg M (inc_msg m))]) s'"
proof -
  have wf: "RoundInput_wf s" using copies by (simp add: copies_agree_def)
  note got = add_message_received [OF wf add]
  have "received[unat (inc_sender m) := Some (to_protocol_msg M (inc_msg m))] ! unat k =
      map_option (\<lambda>x. to_protocol_msg M (snd x)) (received_from s' k)"
    if "k < ri_n s" "k \<noteq> ri_i s" for k
    using copies that got(1,2)
    by (cases "k = inc_sender m") (auto simp: copies_agree_def nth_list_update unat_less_iff word_unat_eq_iff)
  then show ?thesis using copies got(3-5) by (simp add: copies_agree_def)
qed

lemma main_collects_add:
  assumes from_to: "\<And>x. from_protocol_msg M (to_protocol_msg M x) = Ok x"
    and self: "main_collects M i n self"
    and add: "MainRound_add_message RoundInput_store M self m = (self', Ok ())"
  shows "main_collects M i n self'"
  using add
proof (rule MainRound_add_ok)
  fix store store' m1 m2
  assume st: "mr_state self = Ongoing store"
    and clone: "clone_round_msg M (inc_msg m) = Some (m1, m2)"
    and add': "rs_add_message RoundInput_store store
          (Incoming_map (\<lambda>_. m1) (m\<lparr>inc_msg_type := Broadcast True\<rparr>)) = (store', Ok ())"
    and recv: "mr_received_msgs self' =
          (mr_received_msgs self)[unat (inc_sender m) := Some (to_protocol_msg M m2)]"
    and par: "mr_params self' = mr_params self"
    and st': "rs_wants_more RoundInput_store store' \<and> mr_state self' = Ongoing store' \<or>
      \<not> rs_wants_more RoundInput_store store' \<and>
      (\<exists>out. rs_output RoundInput_store store' = Ok out \<and> mr_state self' = MR_Output out)"
  let ?m = "Incoming_map (\<lambda>_. m1) (m\<lparr>inc_msg_type := Broadcast True\<rparr>)"
  have m12: "m1 = inc_msg m" "m2 = inc_msg m"
    using clone from_to by (auto simp: clone_round_msg_def)
  have copies: "copies_agree M (mr_received_msgs self) store" "ri_i store = i" "ri_n store = n"
    and wf: "RoundInput_wf store"
    using self st by (auto simp: main_collects_def copies_agree_def)
  have add'': "RoundInput_add_message store ?m = (store', Ok ())"
    using add' by (simp add: RoundInput_store_def)
  have "copies_agree M (mr_received_msgs self') store'"
    using copies_agree_add [OF copies(1) add''] recv m12 by (simp add: Incoming_map_def)
  moreover have "ri_i store' = i" "ri_n store' = n"
    using add_message_received(3,4) [OF wf add''] copies by simp_all
  ultimately show ?thesis
    using self par st' unfolding main_collects_def by (auto simp: RoundInput_store_def)
qed

lemma main_collects_feed:
  assumes "\<And>x. from_protocol_msg M (to_protocol_msg M x) = Ok x"
  shows "main_collects M i n self \<Longrightarrow>
    store_feed (MainRound_add_message RoundInput_store M) self ms = (self', Ok ()) \<Longrightarrow>
    main_collects M i n self'"
  by (induction ms arbitrary: self)
    (auto split: prod.splits sum.splits dest: main_collects_add [OF assms])

lemma main_collects_new:
  assumes "RoundInput_reliable_broadcast i n = Ret s"
    and "echo_store_new RoundInput_store i n s = Ret (self, er)"
  shows "main_collects M i n self"
proof -
  have s: "RoundInput_new i n (Broadcast True) = Ret s"
    using assms(1) by (simp add: RoundInput_reliable_broadcast_def)
  have "RoundInput_wf s" by (rule RoundInput_new_wf [OF s])
  moreover have "received_from s = Map.empty" "ri_i s = i" "ri_n s = n"
    using collector_of_new [OF s] by (simp_all add: collector_of_def)
  ultimately have "copies_agree M (replicate (unat n) None) s"
    by (simp add: copies_agree_def unat_less_iff)
  moreover have "RoundInput_output s = Err s"
    by (rule round_input.output_not_ready [OF \<open>RoundInput_wf s\<close> RoundInput_new_wants_more [OF s]])
  ultimately show ?thesis
    using assms(2) \<open>ri_i s = i\<close> \<open>ri_n s = n\<close>
    by (auto simp: echo_store_new_def main_collects_def RoundInput_store_def split: or_panic.splits)
qed

lemma hashed_copies:
  assumes self: "main_collects M i n self" and out: "MainRound_output self = Ok nm"
  shows "no_params nm = \<lparr>par_i = i, par_n = n\<rparr>" and "unat i < length (no_received_msgs nm)"
    and "(no_received_msgs nm)[unat i := Some (to_protocol_msg M mine)] =
      map (\<lambda>x. Some (to_protocol_msg M x)) (iter_including_me (no_main_round_output nm) mine)"
proof -
  obtain s where s: "ri_i s = i" "ri_n s = n" "copies_agree M (mr_received_msgs self) s"
    and r: "RoundInput_output s = Ok (no_main_round_output nm)"
    and nm: "no_received_msgs nm = mr_received_msgs self" "no_params nm = \<lparr>par_i = i, par_n = n\<rparr>"
    using assms by (auto simp: main_collects_def MainRound_output_def)
  have wf: "RoundInput_wf s" and len: "length (no_received_msgs nm) = unat n"
    using s nm by (simp_all add: copies_agree_def)
  have i: "i < n" using wf s by (simp add: RoundInput_wf_def)
  show "no_params nm = \<lparr>par_i = i, par_n = n\<rparr>" by (rule nm(2))
  show "unat i < length (no_received_msgs nm)" using i len by (simp add: unat_less_iff)
  show "(no_received_msgs nm)[unat i := Some (to_protocol_msg M mine)] =
      map (\<lambda>x. Some (to_protocol_msg M x)) (iter_including_me (no_main_round_output nm) mine)"
  proof (rule nth_equalityI)
    show "length ((no_received_msgs nm)[unat i := Some (to_protocol_msg M mine)]) =
        length (map (\<lambda>x. Some (to_protocol_msg M x)) (iter_including_me (no_main_round_output nm) mine))"
      using len length_iter_including_me [OF RoundInput_output_wf(1) [OF wf r]] s(2) by simp
  next
    fix k assume "k < length ((no_received_msgs nm)[unat i := Some (to_protocol_msg M mine)])"
    then have k: "k < unat n" using len by simp
    define j :: u16 where "j = of_nat k"
    have jk: "unat j = k"
      using k unat_u16_bound [of n] by (simp add: j_def unat_of_nat_u16)
    have j: "j < ri_n s" using k jk s(2) by (simp add: unat_less_iff)
    show "(no_received_msgs nm)[unat i := Some (to_protocol_msg M mine)] ! k =
        map (\<lambda>x. Some (to_protocol_msg M x)) (iter_including_me (no_main_round_output nm) mine) ! k"
      using s len k nm(1) j output_view_nth(1) [OF wf r j, of mine] output_view_nth(2) [OF wf r j]
        length_iter_including_me [OF RoundInput_output_wf(1) [OF wf r], of mine]
      unfolding jk [symmetric]
      by (cases "j = i") (auto simp: copies_agree_def nth_list_update word_unat_eq_iff)
  qed
qed

lemma feed_received:
  assumes "RoundInput_wf s" and "store_feed RoundInput_add_message s ms = (s', Ok ())"
    and "m \<in> set ms \<and> inc_sender m \<noteq> ri_i s \<and> x = (inc_id m, inc_msg m) \<or>
         received_from s (inc_sender m) = Some x"
  shows "received_from s' (inc_sender m) = Some x \<and> ri_i s' = ri_i s \<and> ri_n s' = ri_n s \<and> RoundInput_wf s'"
  using assms
proof (induction ms arbitrary: s)
  case (Cons m0 ms)
  obtain s1 where s1: "RoundInput_add_message s m0 = (s1, Ok ())"
    and feed: "store_feed RoundInput_add_message s1 ms = (s', Ok ())"
    using Cons.prems(2) by (auto split: prod.splits sum.splits)
  note got = add_message_received [OF Cons.prems(1) s1]
  have "m \<in> set ms \<and> inc_sender m \<noteq> ri_i s1 \<and> x = (inc_id m, inc_msg m) \<or>
      received_from s1 (inc_sender m) = Some x"
    using Cons.prems(3) got(1-3) by (auto split: if_splits)
  from Cons.IH [OF got(5) feed this] show ?case using got(3,4) by simp
qed simp

subsection \<open>Rounds with a reliability check\<close>

text \<open>
  The main round of party \<open>i\<close>, over a \<open>RoundInput\<close> for reliable broadcast, took the messages \<open>ms\<close> and
  output \<open>nm\<close>; its echo round took \<open>es\<close> and output \<open>echoes\<close>.
\<close>

abbreviation plain_input ::
  "('m round_input, 'm, 'm round_msgs, round_input_error, unit) round_store" where
  "plain_input \<equiv> RoundInput_store"

definition main_round_result ::
  "('rm, 'm) round_msg \<Rightarrow> u16 \<Rightarrow> u16 \<Rightarrow> 'rm incoming list \<Rightarrow> ('rm round_msgs, 'm) needs_own_msg \<Rightarrow> bool"
where
  "main_round_result M i n ms nm \<longleftrightarrow>
     (\<exists>s self (er :: nat echo_round) self'. RoundInput_reliable_broadcast i n = Ret s \<and>
        echo_store_new plain_input i n s = Ret (self, er) \<and>
        store_feed (MainRound_add_message plain_input M) self ms = (self', Ok ()) \<and>
        MainRound_output self' = Ok nm)"

definition echo_round_result :: "u16 \<Rightarrow> u16 \<Rightarrow> 'd sub_echo incoming list \<Rightarrow> 'd round_msgs \<Rightarrow> bool" where
  "echo_round_result i n es echoes \<longleftrightarrow>
     (\<exists>r er. RoundInput_broadcast i n = Ret r \<and>
        store_feed EchoRound_add_message \<lparr>er_echo_round = r\<rparr> es = (er, Ok ()) \<and>
        EchoRound_output er = Ok echoes)"

lemma echo_feed:
  "store_feed EchoRound_add_message er es = (er', Ok ()) \<Longrightarrow>
   store_feed RoundInput_add_message (er_echo_round er) (map (Incoming_map echo_hash) es) =
     (er_echo_round er', Ok ())"
proof (induction es arbitrary: er)
  case (Cons m es)
  obtain s1 where s1: "RoundInput_add_message (er_echo_round er) (Incoming_map echo_hash m) = (s1, Ok ())"
    and feed: "store_feed EchoRound_add_message (er\<lparr>er_echo_round := s1\<rparr>) es = (er', Ok ())"
    using Cons.prems by (auto simp: EchoRound_add_message_def [of er m] split: prod.splits sum.splits)
  from Cons.IH [OF feed] s1 show ?case by simp
qed simp

lemma received_from_range:
  assumes "RoundInput_wf s" and "received_from s k = Some x"
  shows "k \<noteq> ri_i s" "k < ri_n s"
proof -
  show k: "k \<noteq> ri_i s" using assms(2) by (auto simp: received_from_def)
  show "k < ri_n s"
    using slot_out_of_range [OF assms(1) k] assms(2)
    by (auto simp: received_from_def split: option.splits if_splits)
qed

lemma echo_is_checked:
  assumes "echo_round_result i n es echoes" and "m \<in> set es" and "inc_sender m \<noteq> i"
  shows "echo_hash (inc_msg m) \<in> set (RoundMsgs_iter echoes)"
proof -
  obtain r s where r: "RoundInput_broadcast i n = Ret r" and out: "RoundInput_output s = Ok echoes"
    and feed: "store_feed RoundInput_add_message r (map (Incoming_map echo_hash) es) = (s, Ok ())"
  proof -
    obtain r er where "RoundInput_broadcast i n = Ret r" "EchoRound_output er = Ok echoes"
      and f: "store_feed EchoRound_add_message \<lparr>er_echo_round = r\<rparr> es = (er, Ok ())"
      using assms(1) unfolding echo_round_result_def by blast
    then show thesis using that [of r "er_echo_round er"] echo_feed [OF f] by (simp add: EchoRound_output_def)
  qed
  let ?m = "Incoming_map echo_hash m" 
  have new: "RoundInput_new i n (Broadcast False) = Ret r" using r by (simp add: RoundInput_broadcast_def)
  have ri: "ri_i r = i" using new by (simp add: RoundInput_new_ret)
  have "received_from s (inc_sender ?m) = Some (inc_id ?m, inc_msg ?m) \<and> ri_i s = ri_i r \<and>
      ri_n s = ri_n r \<and> RoundInput_wf s"
    using assms(2,3) ri by (intro feed_received [OF RoundInput_new_wf [OF new] feed])
      (auto simp: Incoming_map_def)
  then have got: "received_from s (inc_sender m) = Some (inc_id m, echo_hash (inc_msg m))"
    and wf: "RoundInput_wf s"
    by (simp_all add: Incoming_map_def)
  have "\<not> RoundInput_wants_more s" using out round_input.output_ok_iff [OF wf] by (metis is_ok_iff)
  from RoundInput_output_ready [OF wf this] out
  have "rm_messages echoes = map (\<lambda>k. snd (the (received_from s k))) (others (ri_i s) (ri_n s))" by simp
  moreover have "inc_sender m \<in> set (others (ri_i s) (ri_n s))"
    using received_from_range [OF wf got] wf by (simp add: set_others RoundInput_wf_def)
  ultimately show ?thesis using got by (force simp: RoundMsgs_iter_def)
qed

lemma main_round_result_collects:
  assumes "\<And>x. from_protocol_msg M (to_protocol_msg M x) = Ok x"
    and "main_round_result M i n ms nm"
  obtains self' where "main_collects M i n self'" and "MainRound_output self' = Ok nm"
proof -
  obtain s self self' and er :: "nat echo_round" where "RoundInput_reliable_broadcast i n = Ret s"
    "echo_store_new plain_input i n s = Ret (self, er)"
    and feed: "store_feed (MainRound_add_message plain_input M) self ms = (self', Ok ())"
    and out: "MainRound_output self' = Ok nm"
    using assms(2) unfolding main_round_result_def by blast
  then have "main_collects M i n self" by (intro main_collects_new)
  then have "main_collects M i n self'" by (rule main_collects_feed [OF assms(1) _ feed])
  with out show thesis by (rule that [rotated])
qed

lemma main_round_result_wf:
  assumes "\<And>x. from_protocol_msg M (to_protocol_msg M x) = Ok x"
    and "main_round_result M i n ms nm"
  shows "RoundMsgs_wf (no_main_round_output nm) n" "rm_i (no_main_round_output nm) = i"
proof -
  obtain self' where "main_collects M i n self'" "MainRound_output self' = Ok nm"
    using main_round_result_collects [OF assms] .
  then obtain s where "ri_i s = i" "ri_n s = n" "RoundInput_wf s"
    "RoundInput_output s = Ok (no_main_round_output nm)"
    by (auto simp: main_collects_def copies_agree_def MainRound_output_def)
  then show "RoundMsgs_wf (no_main_round_output nm) n" "rm_i (no_main_round_output nm) = i"
    using RoundInput_output_wf by blast+
qed

text \<open>The hash that a party sends is that of the messages it lists, its own included.\<close>

lemma hash_of_result:
  assumes "\<And>x. from_protocol_msg M (to_protocol_msg M x) = Ok x"
    and "main_round_result M i n ms nm"
  shows "with_my_msg hash M nm (Some mine) =
    (let h = hash (map (\<lambda>x. Some (to_protocol_msg M x)) (iter_including_me (no_main_round_output nm) mine))
               (ROUND M) n
     in Ok (\<lparr>rc_expected_hash = h, rc_main_round_output = no_main_round_output nm\<rparr>, h))"
proof -
  obtain self' where self': "main_collects M i n self'" "MainRound_output self' = Ok nm"
    using main_round_result_collects [OF assms] .
  note copies = hashed_copies [OF self']
  show ?thesis using copies(1,2) copies(3) [of mine] by (simp add: with_my_msg_def Let_def)
qed

subsection \<open>Honest rounds\<close>

lemma main_round_accepts:
  assumes from_to: "\<And>x. from_protocol_msg M (to_protocol_msg M x) = Ok x"
    and self: "main_collects M i n self" and st: "mr_state self = Ongoing s"
    and add: "RoundInput_add_message s (m\<lparr>inc_msg_type := Broadcast True\<rparr>) = (s', Ok ())"
    and other: "inc_sender m \<noteq> i"
  shows "\<exists>self'. MainRound_add_message RoundInput_store M self m = (self', Ok ()) \<and>
    main_collects M i n self' \<and>
    (if RoundInput_wants_more s' then mr_state self' = Ongoing s'
     else \<exists>out. RoundInput_output s' = Ok out \<and> mr_state self' = MR_Output out)"
proof -
  let ?m = "m\<lparr>inc_msg_type := Broadcast True\<rparr>"
  have copies: "copies_agree M (mr_received_msgs self) s" "ri_i s = i" "ri_n s = n"
    using self st by (auto simp: main_collects_def)
  then have wf: "RoundInput_wf s" by (simp add: copies_agree_def)
  note got = add_message_received [OF wf add]
  have slot: "get_slot (mr_received_msgs self) (unat (inc_sender m)) = Some None"
    using got(2) other copies by (auto simp: copies_agree_def get_slot_def unat_less_iff)
  have clone: "clone_incoming_round_msg M ?m = Some (?m, ?m)"
    by (simp add: clone_incoming_round_msg_def clone_round_msg_def from_to Incoming_map_def)
  have out: "\<exists>out. RoundInput_output s' = Ok out" if "\<not> RoundInput_wants_more s'"
    using round_input.output_ready [OF got(5) that] by (simp add: is_ok_iff)
  have "\<exists>self'. MainRound_add_message RoundInput_store M self m = (self', Ok ()) \<and>
    (if RoundInput_wants_more s' then mr_state self' = Ongoing s'
     else \<exists>out. RoundInput_output s' = Ok out \<and> mr_state self' = MR_Output out)"
    using out st clone add slot
    by (auto simp: MainRound_add_message_def MainRound_save_message_def RoundInput_store_def Let_def)
  then show ?thesis using main_collects_add [OF from_to self] by blast
qed

lemma main_round_feed:
  assumes from_to: "\<And>x. from_protocol_msg M (to_protocol_msg M x) = Ok x"
    and "main_collects M i n self" and "mr_state self = Ongoing s" and "ms \<noteq> []"
    and "\<forall>m \<in> set ms. inc_sender m \<noteq> i"
    and "store_feed RoundInput_add_message s (map (\<lambda>m. m\<lparr>inc_msg_type := Broadcast True\<rparr>) ms) = (s', Ok ())"
    and "\<And>k. k < length ms \<Longrightarrow> RoundInput_wants_more (fst (store_feed RoundInput_add_message s
            (take k (map (\<lambda>m. m\<lparr>inc_msg_type := Broadcast True\<rparr>) ms))))"
    and "RoundInput_output s' = Ok out"
  shows "\<exists>self'. store_feed (MainRound_add_message plain_input M) self ms = (self', Ok ()) \<and>
    mr_state self' = MR_Output out"
  using assms(2-8)
proof (induction ms arbitrary: self s)
  case (Cons m ms)
  let ?f = "\<lambda>m :: 'a incoming. m\<lparr>inc_msg_type := Broadcast True\<rparr>"
  obtain s1 where s1: "RoundInput_add_message s (?f m) = (s1, Ok ())"
    and feed: "store_feed RoundInput_add_message s1 (map ?f ms) = (s', Ok ())"
    using Cons.prems(5) by (auto split: prod.splits sum.splits)
  obtain self1 where add: "MainRound_add_message plain_input M self m = (self1, Ok ())"
    and self1: "main_collects M i n self1"
    "if RoundInput_wants_more s1 then mr_state self1 = Ongoing s1
     else \<exists>out. RoundInput_output s1 = Ok out \<and> mr_state self1 = MR_Output out"
    using main_round_accepts [OF from_to Cons.prems(1,2) s1] Cons.prems(4) by auto
  have want: "RoundInput_wants_more (fst (store_feed RoundInput_add_message s1 (take k (map ?f ms))))"
    if "k < length ms" for k
    using Cons.prems(6) [of "Suc k"] that s1 by simp
  show ?case
  proof (cases "ms = []")
    case True
    then have "s1 = s'" using feed by simp
    moreover have "RoundInput_wf s1"
      using add_message_received(5) [OF _ s1] Cons.prems(1,2) by (auto simp: main_collects_def copies_agree_def)
    ultimately have "\<not> RoundInput_wants_more s1"
      using Cons.prems(7) round_input.output_ok_iff by (metis is_ok_iff)
    then show ?thesis using True add self1 Cons.prems(7) \<open>s1 = s'\<close> by auto
  next
    case False
    then have "mr_state self1 = Ongoing s1" using self1(2) want [of 0] by simp
    from Cons.IH [OF self1(1) this False _ feed want Cons.prems(7)] add Cons.prems(4)
    show ?thesis by auto
  qed
qed simp

lemma honest_main_round:
  fixes M :: "('rm, 'm) round_msg"
  assumes from_to: "\<And>x. from_protocol_msg M (to_protocol_msg M x) = Ok x"
    and idx: "2 \<le> n" "i < n"
    and senders: "distinct (map inc_sender ms)" "set (map inc_sender ms) = {s. s \<noteq> i \<and> s < n}"
  shows "\<exists>nm. main_round_result M i n ms nm \<and>
    (\<forall>m \<in> set ms. \<forall>mine. iter_including_me (no_main_round_output nm) mine ! unat (inc_sender m) = inc_msg m) \<and>
    (\<forall>mine. iter_including_me (no_main_round_output nm) mine ! unat i = mine \<and>
       length (iter_including_me (no_main_round_output nm) mine) = unat n)"
proof -
  let ?f = "\<lambda>m :: 'rm incoming. m\<lparr>inc_msg_type := Broadcast True\<rparr>"
  obtain s :: "'rm round_input" where s: "RoundInput_new i n (Broadcast True) = Ret s"
    using idx by (auto simp: RoundInput_new_ret)
  obtain b :: "nat round_input" where b: "RoundInput_broadcast i n = Ret b"
    using idx by (auto simp: RoundInput_broadcast_def RoundInput_new_ret)
  have each: "one_each i n (Broadcast True) (map ?f ms)"
    using senders by (simp add: one_each_def list_all_iff comp_def)
  obtain s' where s': "store_feed RoundInput_add_message s (map ?f ms) = (s', Ok ())"
    "RoundInput_wf s'" "ri_i s' = i" "ri_n s' = n" "received_from s' = by_sender (map ?f ms)"
    using feed_one_each [OF s each] .
  obtain out where out: "RoundInput_output s' = Ok out"
    using one_each_completes [OF s each] s'(1) by auto
  have empty: "RoundInput_output s = Err s"
    by (rule round_input.output_not_ready [OF RoundInput_new_wf [OF s] RoundInput_new_wants_more [OF s]])
  obtain self and er :: "nat echo_round" where new: "echo_store_new plain_input i n s = Ret (self, er)"
    and st: "mr_state (self :: ('rm round_input, 'rm round_msgs, 'm) main_round) = Ongoing s"
    using b empty by (simp add: echo_store_new_def RoundInput_store_def)
  have rel: "RoundInput_reliable_broadcast i n = Ret s"
    using s by (simp add: RoundInput_reliable_broadcast_def)
  have ne: "ms \<noteq> []"
  proof
    assume "ms = []"
    then have "set (others i n) = {}" using senders(2) set_others [OF idx(2)] by simp
    then show False using idx(1) length_others [of i n] by (simp add: unat_le_iff)
  qed
  obtain self' where feed: "store_feed (MainRound_add_message plain_input M) self ms = (self', Ok ())"
    and st': "mr_state self' = MR_Output out"
    using main_round_feed [OF from_to main_collects_new [OF rel new] st ne _ s'(1) _ out]
      prefix_wants_more [OF s each] senders(2) by auto
  then obtain nm where nm: "MainRound_output self' = Ok nm" "no_main_round_output nm = out"
    by (simp add: MainRound_output_def)
  have res: "main_round_result M i n ms nm"
    using rel new feed nm(1) unfolding main_round_result_def by blast
  have view: "iter_including_me out mine ! unat (inc_sender m) = inc_msg m" if "m \<in> set ms" for m mine
  proof -
    have "by_sender (map ?f ms) (inc_sender (?f m)) = Some (inc_id (?f m), inc_msg (?f m))"
      using that by (intro by_sender_member [OF each]) simp
    moreover have "inc_sender m \<noteq> i" "inc_sender m < n" using senders(2) that by auto
    ultimately show ?thesis
      using output_view_nth(1) [OF s'(2) out, of "inc_sender m" mine] s'(3-5) by simp
  qed
  have "iter_including_me out mine ! unat i = mine" "length (iter_including_me out mine) = unat n" for mine
    using output_view_nth(1) [OF s'(2) out, of i mine] s'(3,4) idx(2)
      length_iter_including_me [OF RoundInput_output_wf(1) [OF s'(2) out], of mine] by simp_all
  then show ?thesis using res view nm(2) by blast
qed

lemma honest_reliable_round:
  assumes law: "lawful_round_msg valid rnd M" and idx: "2 \<le> n" "i < n" "length xs = unat n"
    and senders: "distinct (map inc_sender ms)" "set (map inc_sender ms) = {s. s \<noteq> i \<and> s < n}"
    and sent: "\<forall>m \<in> set ms. inc_msg m = xs ! unat (inc_sender m)"
    and h: "h = hash (map (\<lambda>x. Some (to_protocol_msg M x)) xs) (ROUND M) n"
    and echoes: "\<forall>e \<in> set (RoundMsgs_iter echoes). e = h"
  shows "\<exists>nm check out. main_round_result M i n ms nm \<and>
    with_my_msg hash M nm (Some (xs ! unat i)) = Ok (check, h) \<and>
    with_echo_output check echoes = Ok out \<and> iter_including_me out (xs ! unat i) = xs"
proof -
  have from_to: "\<And>x. from_protocol_msg M (to_protocol_msg M x) = Ok x"
    using lawful_msg.from_to [OF law [unfolded lawful_round_msg_def]] .
  obtain nm where nm: "main_round_result M i n ms nm"
    and got: "\<forall>m \<in> set ms. \<forall>mine. iter_including_me (no_main_round_output nm) mine ! unat (inc_sender m) = inc_msg m"
    and mine: "\<forall>mine. iter_including_me (no_main_round_output nm) mine ! unat i = mine \<and>
       length (iter_including_me (no_main_round_output nm) mine) = unat n"
    using honest_main_round [where M = M, OF from_to idx(1,2) senders] by blast
  have view: "iter_including_me (no_main_round_output nm) (xs ! unat i) = xs"
  proof (rule nth_equalityI)
    show "length (iter_including_me (no_main_round_output nm) (xs ! unat i)) = length xs"
      using mine idx(3) by simp
    fix k assume "k < length (iter_including_me (no_main_round_output nm) (xs ! unat i))"
    then have k: "k < unat n" using mine by simp
    define j :: u16 where "j = of_nat k"
    have jk: "unat j = k" using k unat_u16_bound [of n] by (simp add: j_def unat_of_nat_u16)
    show "iter_including_me (no_main_round_output nm) (xs ! unat i) ! k = xs ! k"
    proof (cases "j = i")
      case True
      then show ?thesis using mine jk by auto
    next
      case False
      then have "j \<in> set (map inc_sender ms)" using senders(2) k jk by (simp add: unat_less_iff)
      then obtain m where "m \<in> set ms" "inc_sender m = j" by auto
      then show ?thesis using got sent jk by force
    qed
  qed
  have "with_echo_output \<lparr>rc_expected_hash = h, rc_main_round_output = no_main_round_output nm\<rparr> echoes =
      Ok (no_main_round_output nm)"
    using echoes by (auto simp: with_echo_output_def list_ex_iff)
  then show ?thesis
    using nm hash_of_result [OF from_to nm, of hash "xs ! unat i"] view h by (auto simp: Let_def)
qed

lemma echo_agrees:
  assumes collision_free: "\<And>xs ys. hash xs (ROUND M) n = hash ys (ROUND M) n \<Longrightarrow> xs = ys"
    and law: "lawful_round_msg valid rnd M"
    and party_i: "main_round_result M i n ms_i nm_i"
      "with_my_msg hash M nm_i (Some mine_i) = Ok (check_i, hash_i)"
    and party_j: "main_round_result M j n ms_j nm_j"
      "with_my_msg hash M nm_j (Some mine_j) = Ok (check_j, hash_j)"
    and echo: "echo_round_result i n es echoes" "m \<in> set es" "inc_sender m = j" "j \<noteq> i"
      "inc_msg m = EchoMsg hash_j"
    and passed: "with_echo_output check_i echoes = Ok out_i"
  shows "iter_including_me out_i mine_i = iter_including_me (no_main_round_output nm_j) mine_j"
proof -
  note L = law [unfolded lawful_round_msg_def]
  have from_to: "\<And>x. from_protocol_msg M (to_protocol_msg M x) = Ok x"
    by (rule lawful_msg.from_to [OF L])
  have "hash_j \<in> set (RoundMsgs_iter echoes)"
    using echo_is_checked [OF echo(1,2)] echo(3-5) by simp
  then have "hash_j = rc_expected_hash check_i" and out: "out_i = rc_main_round_output check_i"
    using passed by (auto simp: with_echo_output_def list_ex_iff split: if_splits)
  then have "map (\<lambda>x. Some (to_protocol_msg M x)) (iter_including_me (no_main_round_output nm_j) mine_j) =
      map (\<lambda>x. Some (to_protocol_msg M x)) (iter_including_me (no_main_round_output nm_i) mine_i)"
    using party_i(2) party_j(2) hash_of_result [OF from_to party_i(1), of hash mine_i]
      hash_of_result [OF from_to party_j(1), of hash mine_j]
    by (intro collision_free) (auto simp: Let_def)
  moreover have "inj (\<lambda>x. Some (to_protocol_msg M x))"
    using lawful_msg.to_inj [OF L] by (intro injI) simp
  ultimately have "iter_including_me (no_main_round_output nm_j) mine_j =
      iter_including_me (no_main_round_output nm_i) mine_i"
    by (rule map_injective)
  moreover have "out_i = no_main_round_output nm_i"
    using out party_i(2) hash_of_result [OF from_to party_i(1), of hash mine_i] by (auto simp: Let_def)
  ultimately show ?thesis by simp
qed

subsection \<open>Properties\<close>

text \<open>C4: Echo broadcast gives agreement. Let two parties \<open>i\<close> and \<open>j\<close> complete the main round of a
  reliable broadcast round, whatever messages the other parties sent to each of them, and let \<open>i\<close>
  receive in its echo round the hash that \<open>j\<close> computed. If the hash is collision free and the
  reliability check of \<open>i\<close> passes, then both parties have the same message of every one of the \<open>n\<close>
  parties, their own messages included.\<close>

theorem echo_agreement:
  assumes collision_free: "\<And>xs ys. hash xs (ROUND M) n = hash ys (ROUND M) n \<Longrightarrow> xs = ys"
    and law: "lawful_round_msg valid rnd M"
    and party_i: "main_round_result M i n ms_i nm_i"
      "with_my_msg hash M nm_i (Some mine_i) = Ok (check_i, hash_i)"
    and party_j: "main_round_result M j n ms_j nm_j"
      "with_my_msg hash M nm_j (Some mine_j) = Ok (check_j, hash_j)"
    and echo: "echo_round_result i n es echoes" "m \<in> set es" "inc_sender m = j" "j \<noteq> i"
      "inc_msg m = EchoMsg hash_j"
    and passed: "with_echo_output check_i echoes = Ok out_i"
  shows "iter_including_me out_i mine_i = iter_including_me (no_main_round_output nm_j) mine_j"
  using collision_free law party_i party_j echo passed by (rule echo_agrees)

lemma u16_less_2: "(s :: u16) < 2 \<longleftrightarrow> s = 0 \<or> s = 1"
proof -
  have "s < 2 \<longleftrightarrow> unat s = 0 \<or> unat s = 1" by (auto simp: unat_less_iff)
  then show ?thesis by (simp add: word_unat_eq_iff)
qed

abbreviation sample_hash :: "nat option list \<Rightarrow> u16 \<Rightarrow> u16 \<Rightarrow> nat option list" where
  "sample_hash xs r n \<equiv> xs"

text \<open>Parties \<open>0\<close> and \<open>1\<close> of two, which send \<open>x\<close> and \<open>y\<close>.\<close>

lemma two_party_main_round:
  assumes from_to: "\<And>x. from_protocol_msg M (to_protocol_msg M x) = Ok x"
    and ij: "i = 0 \<and> j = 1 \<or> i = 1 \<and> j = 0"
  shows "\<exists>nm. main_round_result M i 2 [sample_incoming d j t y] nm \<and>
     iter_including_me (no_main_round_output nm) x = (if i = 0 then [x, y] else [y, x])"
proof -
  have others: "{s. s \<noteq> i \<and> s < (2 :: u16)} = {j}" and i: "i < 2" using ij by (auto simp: u16_less_2)
  have "\<exists>nm. main_round_result M i 2 [sample_incoming d j t y] nm \<and>
    (\<forall>m \<in> set [sample_incoming d j t y]. \<forall>mine.
       iter_including_me (no_main_round_output nm) mine ! unat (inc_sender m) = inc_msg m) \<and>
    (\<forall>mine. iter_including_me (no_main_round_output nm) mine ! unat i = mine \<and>
       length (iter_including_me (no_main_round_output nm) mine) = unat (2 :: u16))"
    by (rule honest_main_round [OF from_to _ i]) (simp_all add: others sample_incoming_def)
  then obtain nm where "main_round_result M i 2 [sample_incoming d j t y] nm"
    "iter_including_me (no_main_round_output nm) x ! unat j = y"
    "iter_including_me (no_main_round_output nm) x ! unat i = x"
    "length (iter_including_me (no_main_round_output nm) x) = Suc (Suc 0)"
    by (auto simp: sample_incoming_def)
  then show ?thesis
    using ij by (intro exI [of _ nm]) (auto simp: length_Suc_conv)
qed

lemma sample_main_rounds:
  "\<exists>nm. main_round_result sample_round_msg 0 2 [sample_incoming 1 1 P2P 8] nm \<and>
     iter_including_me (no_main_round_output nm) 7 = [7, 8]"
  "\<exists>nm. main_round_result sample_round_msg 1 2 [sample_incoming 2 0 (Broadcast False) 7] nm \<and>
     iter_including_me (no_main_round_output nm) 8 = [7, 8]"
  using two_party_main_round [OF sample_msg.from_to, of 0 1 1 P2P 8 7]
    two_party_main_round [OF sample_msg.from_to, of 1 0 2 "Broadcast False" 7 8] by simp_all

lemma sample_echo_round:
  "echo_round_result 0 2 [sample_incoming 5 1 (Broadcast False) (EchoMsg h)]
     \<lparr>rm_i = 0, rm_ids = [5], rm_messages = [h]\<rparr>"
  by (simp add: echo_round_result_def echo_defs RoundInput_broadcast_def RoundInput_new_def
        RoundInput_add_message_def RoundInput_output_def sample_incoming_def Incoming_map_def
        msg_index_def get_slot_def Let_def)

theorem echo_agreement_witness:
  "\<exists>nm_i nm_j out. main_round_result sample_round_msg 0 2 [sample_incoming 1 1 P2P 8] nm_i \<and>
     main_round_result sample_round_msg 1 2 [sample_incoming 2 0 (Broadcast False) 7] nm_j \<and>
     out = no_main_round_output nm_i \<and>
     iter_including_me out 7 = iter_including_me (no_main_round_output nm_j) 8"
proof -
  obtain nm_i where i: "main_round_result sample_round_msg 0 2 [sample_incoming 1 1 P2P 8] nm_i"
    "iter_including_me (no_main_round_output nm_i) 7 = [7, 8]" using sample_main_rounds(1) by blast
  obtain nm_j where j: "main_round_result sample_round_msg 1 2 [sample_incoming 2 0 (Broadcast False) 7] nm_j"
    "iter_including_me (no_main_round_output nm_j) 8 = [7, 8]" using sample_main_rounds(2) by blast
  have from_to: "from_protocol_msg sample_round_msg (to_protocol_msg sample_round_msg x) = Ok x" for x
    by (simp add: sample_round_msg_def)
  let ?h = "map (\<lambda>x. Some (to_protocol_msg sample_round_msg x)) [7, 8]"
  let ?ci = "\<lparr>rc_expected_hash = ?h, rc_main_round_output = no_main_round_output nm_i\<rparr>"
  let ?cj = "\<lparr>rc_expected_hash = ?h, rc_main_round_output = no_main_round_output nm_j\<rparr>"
  have wi: "with_my_msg sample_hash sample_round_msg nm_i (Some 7) = Ok (?ci, ?h)"
    using hash_of_result [OF from_to i(1), of sample_hash 7] i(2) by (simp add: Let_def)
  have wj: "with_my_msg sample_hash sample_round_msg nm_j (Some 8) = Ok (?cj, ?h)"
    using hash_of_result [OF from_to j(1), of sample_hash 8] j(2) by (simp add: Let_def)
  have "iter_including_me (no_main_round_output nm_i) 7 = iter_including_me (no_main_round_output nm_j) 8"
    by (rule echo_agreement [where m = "sample_incoming 5 1 (Broadcast False) (EchoMsg ?h)",
          OF _ sample_lawful i(1) wi j(1) wj sample_echo_round [of ?h]])
      (simp_all add: sample_incoming_def with_echo_output_def RoundMsgs_iter_def)
  then show ?thesis using i(1) j(1) by blast
qed

text \<open>C31: Honest parties pass. If a party receives, in any order and marked with any message type,
  exactly one message of each other party, where party \<open>k\<close> sent \<open>xs ! k\<close>, then its main round
  completes, the hash it sends is the hash of all \<open>n\<close> messages and so does not depend on the
  party, and if every echo it receives is that hash, its reliability check returns an output
  that lists \<open>xs\<close>.\<close>

theorem echo_honest_completes:
  assumes law: "lawful_round_msg valid rnd M" and idx: "2 \<le> n" "i < n" "length xs = unat n"
    and senders: "distinct (map inc_sender ms)" "set (map inc_sender ms) = {s. s \<noteq> i \<and> s < n}"
    and sent: "\<forall>m \<in> set ms. inc_msg m = xs ! unat (inc_sender m)"
    and h: "h = hash (map (\<lambda>x. Some (to_protocol_msg M x)) xs) (ROUND M) n"
    and echoes: "\<forall>e \<in> set (RoundMsgs_iter echoes). e = h"
  shows "\<exists>nm check out. main_round_result M i n ms nm \<and>
    with_my_msg hash M nm (Some (xs ! unat i)) = Ok (check, h) \<and>
    with_echo_output check echoes = Ok out \<and> iter_including_me out (xs ! unat i) = xs"
  by (rule honest_reliable_round [where hash = hash, OF assms])

theorem echo_honest_completes_witness:
  "\<exists>nm check out. main_round_result sample_round_msg 0 2 [sample_incoming 1 1 P2P 8] nm \<and>
    with_my_msg sample_hash sample_round_msg nm (Some 7) = Ok (check, [Some 7, Some 8]) \<and>
    with_echo_output check \<lparr>rm_i = 0, rm_ids = [5], rm_messages = [[Some 7, Some 8]]\<rparr> = Ok out \<and>
    iter_including_me out 7 = [7, 8]"
proof -
  have "{s. s \<noteq> 0 \<and> s < (2 :: u16)} = {1}" by (auto simp: u16_less_2)
  then show ?thesis
    using echo_honest_completes [OF sample_lawful, of 2 0 "[7, 8]" "[sample_incoming 1 1 P2P 8]"
        "[Some 7, Some 8]" sample_hash "\<lparr>rm_i = 0, rm_ids = [5], rm_messages = [[Some 7, Some 8]]\<rparr>"]
    by (simp add: sample_incoming_def sample_round_msg_def RoundMsgs_iter_def)
qed

end
