(* ===== verification/Echo_Broadcast.thy ===== *)
theory Echo_Broadcast
  imports Echo_Store Mpc_Party
begin

section \<open>An engine with echo broadcast\<close>

text \<open>
  \<open>round-based/src/echo_broadcast/mod.rs\<close>, the type \<open>WithEchoBroadcast\<close>. It is generic in the engine
  that it wraps: a dictionary of the methods of \<open>Mpc\<close>, \<open>MpcExecution\<close> and \<open>SendMany\<close>, where the generic
  methods \<open>add_round\<close> and \<open>complete\<close> have one entry for each kind of round they are used at: plain
  rounds (\<open>WithError<WithMainMsg<R>>\<close>), main rounds (\<open>WithMainMsg<MainRound>\<close>) and echo rounds
  (\<open>WithEchoError<EchoRound>\<close>). Witnesses of registered rounds have types of their own.
\<close>

record ('p, 'rp, 'rmain, 're, 's, 'o, 'm, 'd, 'ce, 'se) engine_ops =
  eng_add_plain :: "'p \<Rightarrow> 's \<Rightarrow> ('p \<times> 'rp) or_panic"
  eng_add_main :: "'p \<Rightarrow> ('s, 'o, 'm) main_round \<Rightarrow> ('p \<times> 'rmain) or_panic"
  eng_add_echo :: "'p \<Rightarrow> 'd echo_round \<Rightarrow> ('p \<times> 're) or_panic"
  eng_complete_plain :: "'p \<Rightarrow> 'rp \<Rightarrow> 'p \<times> ('ce + 'o) poll"
  eng_complete_main :: "'p \<Rightarrow> 'rmain \<Rightarrow> 'p \<times> ('ce + ('o, 'm) needs_own_msg) poll"
  eng_complete_echo :: "'p \<Rightarrow> 're \<Rightarrow> 'p \<times> ('ce + 'd round_msgs) poll"
  eng_send :: "'p \<Rightarrow> ('d, 'm) echo_msg outgoing \<Rightarrow> 'p \<times> ('se + unit)"

record ('p, 'm) with_echo_broadcast =
  we_party :: 'p
  we_i :: u16
  we_n :: u16
  sent_reliable_msgs :: "u16 \<rightharpoonup> 'm option"

definition echo_wrap :: "'p \<Rightarrow> u16 \<Rightarrow> u16 \<Rightarrow> ('p, 'm) with_echo_broadcast" where
  "echo_wrap party i n =
     \<lparr>we_party = party, we_i = i, we_n = n, sent_reliable_msgs = Map.empty\<rparr>"

definition map_party ::
  "('p \<Rightarrow> 'q) \<Rightarrow> ('p, 'm) with_echo_broadcast \<Rightarrow> ('q, 'm) with_echo_broadcast" where
  "map_party f self =
     \<lparr>we_party = f (we_party self), we_i = we_i self, we_n = we_n self,
      sent_reliable_msgs = sent_reliable_msgs self\<rparr>"

datatype ('rp, 'rmain, 're) echo_witness =
  Unmodified 'rp
| WithReliabilityCheck 'rmain 're

subsection \<open>Registering rounds\<close>

definition echo_add_round ::
  "('p, 'rp, 'rmain, 're, 's, 'o, 'm, 'd, 'ce, 'se) engine_ops \<Rightarrow> ('s, 'rm, 'o, 'e, 'u) round_store
     \<Rightarrow> ('rm, 'm) round_msg \<Rightarrow> ('p, 'm) with_echo_broadcast \<Rightarrow> 's
     \<Rightarrow> (('p, 'm) with_echo_broadcast \<times> ('rp, 'rmain, 're) echo_witness) or_panic" where
  "echo_add_round E S M self round =
     (if read_prop S round RequiresReliableBroadcast_t = Some (RequiresReliableBroadcast True) then
        (case echo_store_new S (we_i self) (we_n self) round of
           Panic \<Rightarrow> Panic
         | Ret (main_round, echo_round) \<Rightarrow>
             (case eng_add_main E (we_party self) main_round of
                Panic \<Rightarrow> Panic
              | Ret (p, main_w) \<Rightarrow>
                  (case eng_add_echo E p echo_round of
                     Panic \<Rightarrow> Panic
                   | Ret (p', echo_w) \<Rightarrow>
                       Ret (self\<lparr>we_party := p',
                              sent_reliable_msgs := (sent_reliable_msgs self)(ROUND M \<mapsto> None)\<rparr>,
                            WithReliabilityCheck main_w echo_w))))
      else
        (case eng_add_plain E (we_party self) round of
           Panic \<Rightarrow> Panic
         | Ret (p, w) \<Rightarrow> Ret (self\<lparr>we_party := p\<rparr>, Unmodified w)))"

subsection \<open>Sending\<close>

definition on_send ::
  "('m \<Rightarrow> u16) \<Rightarrow> ('p, 'm) with_echo_broadcast \<Rightarrow> 'm outgoing
     \<Rightarrow> ('p, 'm) with_echo_broadcast \<times> (echo_error + 'm outgoing)" where
  "on_send rnd self outgoing =
     (let r = rnd (out_msg outgoing) in
      case sent_reliable_msgs self r of
        Some slot \<Rightarrow>
          if \<not> MessageDestination_is_reliable_broadcast (out_recipient outgoing) then
            (self, Err (EchoError (SentNonReliableMsgInReliableRound (out_recipient outgoing) r)))
          else if slot \<noteq> None then (self, Err (EchoError SendTwice))
          else
            (self\<lparr>sent_reliable_msgs := (sent_reliable_msgs self)(r \<mapsto> Some (out_msg outgoing))\<rparr>,
             Ok (outgoing\<lparr>out_recipient := AllParties False\<rparr>))
      | None \<Rightarrow>
          if MessageDestination_is_reliable_broadcast (out_recipient outgoing) then
            (self, Err (EchoError (SentReliableMsgInNonReliableRound r)))
          else (self, Ok outgoing))"

definition echo_send ::
  "('p \<Rightarrow> ('d, 'm) echo_msg outgoing \<Rightarrow> 'p \<times> ('se + unit)) \<Rightarrow> ('m \<Rightarrow> u16)
     \<Rightarrow> ('p, 'm) with_echo_broadcast \<Rightarrow> 'm outgoing
     \<Rightarrow> ('p, 'm) with_echo_broadcast \<times> ('se with_echo_error + unit)" where
  "echo_send send rnd self outgoing =
     (case on_send rnd self outgoing of
        (self', Err e) \<Rightarrow> (self', Err (ErrEcho e))
      | (self', Ok outgoing') \<Rightarrow>
          (case send (we_party self') (Outgoing_map MainMsg outgoing') of
             (p, r) \<Rightarrow> (self'\<lparr>we_party := p\<rparr>, map_err ErrMain r)))"

text \<open>\<open>send_many\<close> and \<open>finish_setup\<close> map the wrapped engine; \<open>flush\<close> gives it back. In between, \<open>send\<close> is the
  one of \<open>SendMany\<close>, over the wrapped engine's, an argument here.\<close>

definition echo_finish_setup :: "('p \<Rightarrow> 'q) \<Rightarrow> ('p, 'm) with_echo_broadcast \<Rightarrow> ('q, 'm) with_echo_broadcast" where
  "echo_finish_setup finish_setup self = map_party finish_setup self"

definition echo_send_many :: "('p \<Rightarrow> 'q) \<Rightarrow> ('p, 'm) with_echo_broadcast \<Rightarrow> ('q, 'm) with_echo_broadcast" where
  "echo_send_many send_many self = map_party send_many self"

definition echo_many_send ::
  "('q \<Rightarrow> ('d, 'm) echo_msg outgoing \<Rightarrow> 'q \<times> ('se + unit)) \<Rightarrow> ('m \<Rightarrow> u16)
     \<Rightarrow> ('q, 'm) with_echo_broadcast \<Rightarrow> 'm outgoing
     \<Rightarrow> ('q, 'm) with_echo_broadcast \<times> ('se with_echo_error + unit)" where
  "echo_many_send send rnd self outgoing =
     (case on_send rnd self outgoing of
        (self', Err e) \<Rightarrow> (self', Err (ErrEcho e))
      | (self', Ok outgoing') \<Rightarrow>
          (case send (we_party self') (Outgoing_map MainMsg outgoing') of
             (p, r) \<Rightarrow> (self'\<lparr>we_party := p\<rparr>, map_err ErrMain r)))"

definition echo_flush ::
  "('q \<Rightarrow> 'se + 'p) \<Rightarrow> ('q, 'm) with_echo_broadcast
     \<Rightarrow> 'se with_echo_error + ('p, 'm) with_echo_broadcast" where
  "echo_flush flush self =
     (case flush (we_party self) of
        Err e \<Rightarrow> Err (ErrMain e)
      | Ok party \<Rightarrow> Ok \<lparr>we_party = party, we_i = we_i self, we_n = we_n self,
                       sent_reliable_msgs = sent_reliable_msgs self\<rparr>)"

subsection \<open>Completing a round\<close>

text \<open>
  The future of \<open>complete\<close> is suspended at one of its awaits: at the completion of the plain or the
  main round, or, after the echo was sent, at the completion of the echo round.
\<close>

datatype ('rp, 'rmain, 're, 'd, 'o) echo_future =
  AwaitRound "('rp, 'rmain, 're) echo_witness"
| AwaitEchoes "('d, 'o) reliability_check" 're

definition poll_echoes ::
  "('p, 'rp, 'rmain, 're, 's, 'o, 'm, 'd, 'ce, 'se) engine_ops \<Rightarrow> ('p, 'm) with_echo_broadcast
     \<Rightarrow> ('d, 'o) reliability_check \<Rightarrow> 're
     \<Rightarrow> ('p, 'm) with_echo_broadcast \<times> ('rp, 'rmain, 're, 'd, 'o) echo_future \<times>
        (('ce, 'se) echo_complete_error + 'o) poll" where
  "poll_echoes E self check echo_w =
     (case eng_complete_echo E (we_party self) echo_w of
        (p, r) \<Rightarrow>
          (self\<lparr>we_party := p\<rparr>, AwaitEchoes check echo_w,
           case r of
             Pending \<Rightarrow> Pending
           | Ready (Err e) \<Rightarrow> Ready (Err (CompleteRound e))
           | Ready (Ok echoes) \<Rightarrow> Ready (map_err EchoErr (with_echo_output check echoes))))"

text \<open>The message that the party sent in the round, taken from the table.\<close>

definition take_sent_msg ::
  "('rm, 'm) round_msg \<Rightarrow> ('p, 'm) with_echo_broadcast
     \<Rightarrow> ('p, 'm) with_echo_broadcast \<times> (echo_reason + 'rm option)" where
  "take_sent_msg M self =
     (self\<lparr>sent_reliable_msgs := (sent_reliable_msgs self)(ROUND M := None)\<rparr>,
      case sent_reliable_msgs self (ROUND M) of
        Some (Some msg) \<Rightarrow>
          (case from_protocol_msg M msg of Err _ \<Rightarrow> Err SentMsgFromProto | Ok m \<Rightarrow> Ok (Some m))
      | _ \<Rightarrow> Ok None)"

definition poll_complete ::
  "('m option list \<Rightarrow> u16 \<Rightarrow> u16 \<Rightarrow> 'd)
     \<Rightarrow> ('p, 'rp, 'rmain, 're, 's, 'o, 'm, 'd, 'ce, 'se) engine_ops \<Rightarrow> ('rm, 'm) round_msg
     \<Rightarrow> ('p, 'm) with_echo_broadcast \<Rightarrow> ('rp, 'rmain, 're, 'd, 'o) echo_future
     \<Rightarrow> ('p, 'm) with_echo_broadcast \<times> ('rp, 'rmain, 're, 'd, 'o) echo_future \<times>
        (('ce, 'se) echo_complete_error + 'o) poll" where
  "poll_complete hash E M self fut =
     (case fut of
        AwaitRound (Unmodified w) \<Rightarrow>
          (case eng_complete_plain E (we_party self) w of
             (p, r) \<Rightarrow>
               (self\<lparr>we_party := p\<rparr>, fut,
                case r of
                  Pending \<Rightarrow> Pending
                | Ready res \<Rightarrow> Ready (map_err CompleteRound res)))
      | AwaitRound (WithReliabilityCheck main_w echo_w) \<Rightarrow>
          (case eng_complete_main E (we_party self) main_w of
             (p, Pending) \<Rightarrow> (self\<lparr>we_party := p\<rparr>, fut, Pending)
           | (p, Ready (Err e)) \<Rightarrow> (self\<lparr>we_party := p\<rparr>, fut, Ready (Err (CompleteRound e)))
           | (p, Ready (Ok main_output)) \<Rightarrow>
               (case take_sent_msg M (self\<lparr>we_party := p\<rparr>) of
                  (self1, Err e) \<Rightarrow> (self1, fut, Ready (Err (EchoErr (EchoError e))))
                | (self1, Ok sent_msg) \<Rightarrow>
                    (case with_my_msg hash M main_output sent_msg of
                       Err e \<Rightarrow> (self1, fut, Ready (Err (EchoErr e)))
                     | Ok (check, h) \<Rightarrow>
                         (case send_to_all (eng_send E) (we_party self1) (Echo (ROUND M) h) of
                            (p', Err e) \<Rightarrow>
                              (self1\<lparr>we_party := p'\<rparr>, fut, Ready (Err (SendErr e)))
                          | (p', Ok _) \<Rightarrow> poll_echoes E (self1\<lparr>we_party := p'\<rparr>) check echo_w))))
      | AwaitEchoes check echo_w \<Rightarrow> poll_echoes E self check echo_w)"

lemmas echo_broadcast_defs [echo_defs] =
  echo_wrap_def on_send_def echo_send_def poll_echoes_def take_sent_msg_def

subsection \<open>Sequences of sends\<close>

text \<open>The messages that \<open>on_send\<close> lets through, as they are handed to the wrapped engine.\<close>

primrec sends_through ::
  "('m \<Rightarrow> u16) \<Rightarrow> ('p, 'm) with_echo_broadcast \<Rightarrow> 'm outgoing list
     \<Rightarrow> ('p, 'm) with_echo_broadcast \<times> 'm outgoing list" where
  "sends_through rnd self [] = (self, [])"
| "sends_through rnd self (x # xs) =
     (case on_send rnd self x of (self', r) \<Rightarrow>
        (case sends_through rnd self' xs of (self'', ys) \<Rightarrow>
           (self'', (case r of Ok y \<Rightarrow> [y] | Err _ \<Rightarrow> []) @ ys)))"

definition in_round :: "('m \<Rightarrow> u16) \<Rightarrow> u16 \<Rightarrow> 'm outgoing list \<Rightarrow> 'm outgoing list" where
  "in_round rnd r ys = filter (\<lambda>y. rnd (out_msg y) = r) ys"

lemma in_round_append [simp]: "in_round rnd r (xs @ ys) = in_round rnd r xs @ in_round rnd r ys"
  by (simp add: in_round_def)

lemma in_round_Cons: "in_round rnd r (y # ys) = in_round rnd r [y] @ in_round rnd r ys"
  by (simp add: in_round_def)

lemma on_send_table:
  assumes "on_send rnd self x = (self', r)"
  shows "sent_reliable_msgs self' k =
      (case r of
         Ok y \<Rightarrow> if rnd (out_msg x) = k \<and> sent_reliable_msgs self k \<noteq> None then Some (Some (out_msg x))
                 else sent_reliable_msgs self k
       | Err _ \<Rightarrow> sent_reliable_msgs self k)"
    and "r = Ok y \<Longrightarrow> out_msg y = out_msg x \<and> \<not> MessageDestination_is_reliable_broadcast (out_recipient y)"
    and "r = Ok y \<Longrightarrow> rnd (out_msg x) = k \<Longrightarrow> sent_reliable_msgs self k = None \<or>
      sent_reliable_msgs self k = Some None \<and> out_recipient y = AllParties False"
  using assms
  by (auto simp: on_send_def Let_def split: option.splits if_splits)

lemma sends_through_round:
  assumes "sends_through rnd self xs = (self', ys)" and "sent_reliable_msgs self k = Some slot"
  shows "(in_round rnd k ys = [] \<and> sent_reliable_msgs self' k = Some slot) \<or>
    (slot = None \<and> (\<exists>x. in_round rnd k ys = [\<lparr>out_recipient = AllParties False, out_msg = x\<rparr>] \<and>
       sent_reliable_msgs self' k = Some (Some x)))"
  using assms
proof (induction xs arbitrary: self slot ys)
  case Nil
  then show ?case by (simp add: in_round_def)
next
  case (Cons x xs)
  obtain self1 r ys1 where x: "on_send rnd self x = (self1, r)"
    and xs: "sends_through rnd self1 xs = (self', ys1)"
    and ys: "ys = (case r of Ok y \<Rightarrow> [y] | Err _ \<Rightarrow> []) @ ys1"
    using Cons.prems(1) by (auto split: prod.splits)
  show ?case
  proof (cases r)
    case (Inl e)
    then have "sent_reliable_msgs self1 k = Some slot" using on_send_table(1) [OF x, of k] Cons.prems(2) by simp
    then show ?thesis using Cons.IH [OF xs] ys Inl by simp
  next
    case (Inr y)
    show ?thesis
    proof (cases "rnd (out_msg x) = k")
      case True
      have "slot = None" "out_recipient y = AllParties False" "out_msg y = out_msg x"
        "sent_reliable_msgs self1 k = Some (Some (out_msg x))"
        using on_send_table(1) [OF x, of k] on_send_table(2,3) [OF x Inr] True Cons.prems(2) Inr by auto
      moreover have "in_round rnd k [y] = [\<lparr>out_recipient = AllParties False, out_msg = out_msg x\<rparr>]"
        using calculation(2,3) True by (cases y) (simp add: in_round_def)
      ultimately show ?thesis
        using Cons.IH [OF xs, of "Some (out_msg x)"] ys Inr by (simp add: in_round_Cons [of rnd k y ys1])
    next
      case False
      then have "sent_reliable_msgs self1 k = Some slot" "in_round rnd k [y] = []"
        using on_send_table(1) [OF x, of k] on_send_table(2) [OF x Inr] Cons.prems(2) Inr
        by (auto simp: in_round_def)
      then show ?thesis using Cons.IH [OF xs] ys Inr by (simp add: in_round_Cons [of rnd k y ys1])
    qed
  qed
qed

lemma sends_through_unreliable:
  "sends_through rnd self xs = (self', ys) \<Longrightarrow>
   \<forall>y \<in> set ys. \<not> MessageDestination_is_reliable_broadcast (out_recipient y)"
proof (induction xs arbitrary: self ys)
  case (Cons x xs)
  obtain self1 r ys1 where x: "on_send rnd self x = (self1, r)"
    and xs: "sends_through rnd self1 xs = (self', ys1)"
    and ys: "ys = (case r of Ok y \<Rightarrow> [y] | Err _ \<Rightarrow> []) @ ys1"
    using Cons.prems by (auto split: prod.splits)
  then show ?case using Cons.IH [OF xs] on_send_table(2) [OF x] by (auto split: sum.splits)
qed simp

subsection \<open>Properties\<close>

text \<open>C32: In a round with a reliability check, a party sends at most one message, and the one it
  sent is the one it will hash. After any sequence of sends, either nothing was let through in
  the round and the table says so, or exactly one message was, as an ordinary broadcast to all
  parties, and the table holds it; and no message handed to the wrapped engine, of any round,
  asks it for reliable broadcast.\<close>

theorem reliable_round_sends_once:
  assumes "sends_through rnd self xs = (self', ys)" and "sent_reliable_msgs self k = Some None"
  shows "((in_round rnd k ys = [] \<and> sent_reliable_msgs self' k = Some None) \<or>
    (\<exists>x. in_round rnd k ys = [\<lparr>out_recipient = AllParties False, out_msg = x\<rparr>] \<and>
       sent_reliable_msgs self' k = Some (Some x))) \<and>
    (\<forall>y \<in> set ys. \<not> MessageDestination_is_reliable_broadcast (out_recipient y))"
  using sends_through_round [OF assms] sends_through_unreliable [OF assms(1)] by blast

definition sample_echo_party :: "(unit, nat) with_echo_broadcast" where
  "sample_echo_party = (echo_wrap () 0 2)\<lparr>sent_reliable_msgs := [3 \<mapsto> None]\<rparr>"

theorem reliable_round_sends_once_witness:
  "\<exists>self'. sends_through (\<lambda>_. 3) sample_echo_party
       [Outgoing_reliable_broadcast 7, Outgoing_reliable_broadcast 8, Outgoing_p2p 1 9] =
       (self', [Outgoing_all_parties 7]) \<and> sent_reliable_msgs self' 3 = Some (Some 7)"
proof -
  obtain self' ys where run: "sends_through (\<lambda>_. 3) sample_echo_party
       [Outgoing_reliable_broadcast 7, Outgoing_reliable_broadcast 8, Outgoing_p2p 1 9] = (self', ys)"
    by fastforce
  then have "ys = [Outgoing_all_parties 7]"
    by (auto simp: sample_echo_party_def echo_defs Let_def Outgoing_reliable_broadcast_def
                   Outgoing_p2p_def Outgoing_all_parties_def)
  then show ?thesis
    using reliable_round_sends_once [OF run, of 3] run
    by (auto simp: sample_echo_party_def in_round_def Outgoing_all_parties_def)
qed

text \<open>C35: An echo message can claim a round number that wraps around to the number of another
  round. If the party awaits the echoes of a round, a message \<open>Echo\<close> whose round is \<open>2 ^ 15\<close> more is
  routed to that echo round, cannot be converted, and makes the round fail with a router error
  that blames a bug of the router - an error that a sender can provoke.\<close>

theorem echo_round_number_wraps:
  assumes "rounds rt (ROUND (rt_msg R)) = Some (Some \<lparr>br_type = R, br_state = InProgress s\<rparr>)"
    and "rt_msg R = echo_round_msg M"
    and "inc_msg m = Echo (ROUND M + 32768) h"
  shows "received_msg (echo_msg_round rnd) rt m =
      (rt\<lparr>rounds := (rounds rt)(ROUND (rt_msg R) \<mapsto> Some \<lparr>br_type = R, br_state = Completed (Err (from_Bug
         (MessageFromAnotherRound (ROUND (rt_msg R)) (ROUND (rt_msg R)))))\<rparr>)\<rparr>, Ok ()) \<and>
    snd (complete_round (fst (received_msg (echo_msg_round rnd) rt m)) R) =
      Ok (Err (from_Bug (MessageFromAnotherRound (ROUND (rt_msg R)) (ROUND (rt_msg R)))))"
proof -
  have wrap: "2 * (ROUND M + 32768) + 1 = 2 * ROUND M + (1 :: u16)" by (simp add: distrib_left)
  then have k: "echo_msg_round rnd (inc_msg m) = ROUND (rt_msg R)"
    using assms(2,3) by (simp add: echo_round_msg_def)
  have "from_protocol_msg (rt_msg R) (inc_msg m) = Err (inc_msg m)"
    using assms(2,3) by (simp add: echo_round_msg_def)
  then have "process_message (echo_msg_round rnd) R (InProgress s) m =
      Completed (Err (from_Bug (MessageFromAnotherRound (ROUND (rt_msg R)) (ROUND (rt_msg R)))))"
    using k by (simp add: process_message_def process_message_in_store_def Incoming_try_map_def)
  then have rcv: "received_msg (echo_msg_round rnd) rt m =
      (rt\<lparr>rounds := (rounds rt)(ROUND (rt_msg R) \<mapsto> Some \<lparr>br_type = R, br_state = Completed (Err (from_Bug
         (MessageFromAnotherRound (ROUND (rt_msg R)) (ROUND (rt_msg R)))))\<rparr>)\<rparr>, Ok ())"
    using assms(1) k by (simp add: received_msg_def Let_def del: needs_more_messages.simps)
  then show ?thesis
    using complete_round_finished [of "fst (received_msg (echo_msg_round rnd) rt m)" R] by simp
qed

definition sample_echo_type ::
  "(nat echo_round, nat sub_echo, (nat, nat) echo_msg, nat round_msgs, echo_error, unit) round_type" where
  "sample_echo_type =
     \<lparr>rt_store = EchoRound_store, rt_msg = echo_round_msg sample_round_msg, rt_output_type = 0,
      rt_error_type = 1\<rparr>"

theorem echo_round_number_wraps_witness:
  "\<exists>rt. snd (complete_round (fst (received_msg (echo_msg_round (\<lambda>_. 0))
        \<lparr>rounds = [1 \<mapsto> Some \<lparr>br_type = sample_echo_type, br_state = InProgress \<lparr>er_echo_round = sample_store\<rparr>\<rparr>]\<rparr>
        (sample_incoming 9 1 (Broadcast False) (Echo 32768 5)))) sample_echo_type) =
      Ok (Err (from_Bug (MessageFromAnotherRound 1 1))) \<and>
    received_msg (echo_msg_round (\<lambda>_. 0))
        \<lparr>rounds = [1 \<mapsto> Some \<lparr>br_type = sample_echo_type, br_state = InProgress \<lparr>er_echo_round = sample_store\<rparr>\<rparr>]\<rparr>
        (sample_incoming 9 1 (Broadcast False) (Echo 32768 5)) = (rt, Ok ())"
proof -
  have type: "rt_msg sample_echo_type = echo_round_msg sample_round_msg"
    "ROUND (echo_round_msg sample_round_msg :: (nat sub_echo, (nat, nat) echo_msg) round_msg) = 1"
    by (simp_all add: sample_echo_type_def echo_round_msg_def)
  show ?thesis
    using echo_round_number_wraps [of "\<lparr>rounds = [1 \<mapsto> Some \<lparr>br_type = sample_echo_type,
        br_state = InProgress \<lparr>er_echo_round = sample_store\<rparr>\<rparr>]\<rparr>" sample_echo_type
        "\<lparr>er_echo_round = sample_store\<rparr>" sample_round_msg
        "sample_incoming 9 1 (Broadcast False) (Echo 32768 5)" 5 "\<lambda>_. 0"]
    by (auto simp: type sample_incoming_def)
qed

text \<open>C33: Wrapping keeps messages apart. For a protocol whose round numbers are below \<open>2 ^ 15\<close>, the
  messages of the wrapped protocol satisfy the laws of \<open>RoundMsg\<close> for the main and for the echo part
  of every round: they convert to the wrapped message type and back, and no message of one part is
  taken for a message of the other, nor for one of another round.\<close>

theorem echo_messages_lawful:
  assumes "lawful_round_msg valid rnd M" and "\<And>p. valid p \<Longrightarrow> rnd p < 32768"
    and "lawful_round_msg valid rnd M'"
  shows "lawful_round_msg (echo_valid valid) (echo_msg_round rnd)
       (main_round_msg M :: ('rm sub_main, ('d, 'm) echo_msg) round_msg) \<and>
     lawful_round_msg (echo_valid valid) (echo_msg_round rnd)
       (echo_round_msg M :: ('d sub_echo, ('d, 'm) echo_msg) round_msg) \<and>
     ROUND (main_round_msg M :: ('rm sub_main, ('d, 'm) echo_msg) round_msg) \<noteq>
       ROUND (echo_round_msg M' :: ('d sub_echo, ('d, 'm) echo_msg) round_msg) \<and>
     (ROUND (main_round_msg M :: ('rm sub_main, ('d, 'm) echo_msg) round_msg) =
        ROUND (main_round_msg M' :: ('rm2 sub_main, ('d, 'm) echo_msg) round_msg) \<longleftrightarrow> ROUND M = ROUND M')"
proof -
  have M: "echo_wrapped valid rnd M" and M': "echo_wrapped valid rnd M'"
    using assms by (simp_all add: echo_wrapped_def echo_wrapped_axioms_def lawful_round_msg_def)
  note bound = echo_wrapped.ROUND_bound [OF M] echo_wrapped.ROUND_bound [OF M']
  show ?thesis
    using echo_wrapped.main_lawful [OF M] echo_wrapped.echo_lawful [OF M]
      even_odd_disjoint(1) [OF bound] double_inj [OF bound]
    by (simp add: lawful_round_msg_def main_round_msg_def echo_round_msg_def)
qed

theorem echo_messages_lawful_witness:
  "lawful_round_msg (echo_valid (\<lambda>_. True)) (echo_msg_round (\<lambda>_. 0))
     (echo_round_msg sample_round_msg :: (nat sub_echo, (nat, nat) echo_msg) round_msg)"
  using echo_messages_lawful [where 'd = nat, OF sample_lawful _ sample_lawful] by simp

text \<open>C17: What completing a round with echo broadcast does, over any engine. Once the engine completed
  the main round with messages collected from the other parties, and the party sent \<open>mine\<close> in the
  round, the party sends to all the hash of the \<open>n\<close> messages of the round, its own included, and
  waits for the echoes; the round then completes with the collected messages if every echo is that
  hash, and with a failed reliability check otherwise. The record of the sent message is gone.\<close>

theorem echo_complete_checks_echoes:
  assumes law: "lawful_round_msg valid rnd M" and round: "main_round_result M i n ms nm"
    and main: "eng_complete_main E (we_party self) main_w = (p, Ready (Ok nm))"
    and sent: "sent_reliable_msgs self (ROUND M) = Some (Some (to_protocol_msg M mine))"
    and h: "h = hash (map (\<lambda>x. Some (to_protocol_msg M x))
                 (iter_including_me (no_main_round_output nm) mine)) (ROUND M) n"
    and send: "eng_send E p (Outgoing_all_parties (Echo (ROUND M) h)) = (p', Ok ())"
    and echo: "eng_complete_echo E p' echo_w = (p'', Ready (Ok echoes))"
  shows "\<exists>self' fut. poll_complete hash E M self (AwaitRound (WithReliabilityCheck main_w echo_w)) =
      (self', fut,
       if \<forall>e \<in> set (RoundMsgs_iter echoes). e = h then Ready (Ok (no_main_round_output nm))
       else Ready (Err (EchoErr (EchoError MismatchedHash)))) \<and>
    we_party self' = p'' \<and> sent_reliable_msgs self' (ROUND M) = None"
proof -
  have from_to: "\<And>x. from_protocol_msg M (to_protocol_msg M x) = Ok x"
    using lawful_msg.from_to [OF law [unfolded lawful_round_msg_def]] .
  have check: "with_my_msg hash M nm (Some mine) =
      Ok (\<lparr>rc_expected_hash = h, rc_main_round_output = no_main_round_output nm\<rparr>, h)"
    using hash_of_result [OF from_to round, of hash mine] h by (simp add: Let_def)
  show ?thesis
    using main sent check send echo from_to
    by (auto simp: poll_complete_def take_sent_msg_def poll_echoes_def send_to_all_def
          with_echo_output_def list_ex_iff)
qed

text \<open>An engine that has both rounds complete and accepts what is sent.\<close>

definition sample_engine ::
  "(nat round_msgs, nat) needs_own_msg \<Rightarrow> nat option list round_msgs
     \<Rightarrow> (unit, unit, unit, unit, nat round_input, nat round_msgs, nat, nat option list, unit, unit) engine_ops" where
  "sample_engine nm echoes =
     \<lparr>eng_add_plain = (\<lambda>_ _. Ret ((), ())), eng_add_main = (\<lambda>_ _. Ret ((), ())),
      eng_add_echo = (\<lambda>_ _. Ret ((), ())), eng_complete_plain = (\<lambda>_ _. ((), Pending)),
      eng_complete_main = (\<lambda>_ _. ((), Ready (Ok nm))), eng_complete_echo = (\<lambda>_ _. ((), Ready (Ok echoes))),
      eng_send = (\<lambda>_ _. ((), Ok ()))\<rparr>"

theorem echo_complete_checks_echoes_witness:
  "\<exists>nm self' fut. main_round_result sample_round_msg 0 2 [sample_incoming 1 1 P2P 8] nm \<and>
     poll_complete sample_hash
       (sample_engine nm \<lparr>rm_i = 0, rm_ids = [5], rm_messages = [[Some 7, Some 8]]\<rparr>) sample_round_msg
       \<lparr>we_party = (), we_i = 0, we_n = 2, sent_reliable_msgs = [0 \<mapsto> Some 7]\<rparr>
       (AwaitRound (WithReliabilityCheck () ())) =
     (self', fut, Ready (Ok (no_main_round_output nm)))"
proof -
  obtain nm where nm: "main_round_result sample_round_msg 0 2 [sample_incoming 1 1 P2P 8] nm"
    "iter_including_me (no_main_round_output nm) 7 = [7, 8]" using sample_main_rounds(1) by blast
  have "\<exists>self' fut. poll_complete sample_hash
       (sample_engine nm \<lparr>rm_i = 0, rm_ids = [5], rm_messages = [[Some 7, Some 8]]\<rparr>) sample_round_msg
       \<lparr>we_party = (), we_i = 0, we_n = 2, sent_reliable_msgs = [0 \<mapsto> Some 7]\<rparr>
       (AwaitRound (WithReliabilityCheck () ())) =
      (self', fut, if \<forall>e \<in> set (RoundMsgs_iter
          \<lparr>rm_i = 0, rm_ids = [5], rm_messages = [[Some 7, Some (8 :: nat)]]\<rparr>). e = [Some 7, Some 8]
       then Ready (Ok (no_main_round_output nm)) else Ready (Err (EchoErr (EchoError MismatchedHash)))) \<and>
      we_party self' = () \<and> sent_reliable_msgs self' (ROUND sample_round_msg) = None"
    by (rule echo_complete_checks_echoes [where mine = 7 and n = 2, OF sample_lawful nm(1)])
      (simp_all add: sample_engine_def sample_round_msg_def nm(2))
  then show ?thesis using nm(1) by (auto simp: RoundMsgs_iter_def)
qed

end
