(* ===== verification/Random_Generation.thy ===== *)
theory Random_Generation
  imports Derive_Msg Echo_Broadcast "HOL-Library.Multiset"
begin

section \<open>The randomness generation protocol\<close>

text \<open>
  \<open>examples/random-generation-protocol/src/lib.rs\<close>: \<open>n\<close> parties commit to local randomness in a
  round of reliable broadcast, open it in a second round, and output the xor of all of it. The
  protocol is generic in the engine (\<open>mpc_ops\<close>); the hash function and the random number generator
  are parameters. The structs \<open>CommitMsg\<close> and \<open>DecommitMsg\<close> have one field of 32 bytes each, so the
  messages of both rounds are byte lists.
\<close>

unbundle bit_operations_syntax

type_synonym u8 = "8 word"
type_synonym bytes = "u8 list"

subsection \<open>Messages\<close>

datatype rg_msg = CommitMsg (commitment: bytes) | DecommitMsg (randomness: bytes)

text \<open>What \<open>derive(ProtocolMsg)\<close> generates for \<open>Msg\<close>.\<close>

fun rg_round :: "rg_msg \<Rightarrow> u16" where
  "rg_round (CommitMsg _) = 0"
| "rg_round (DecommitMsg _) = 1"

definition commit_msg :: "(bytes, rg_msg) round_msg" where
  "commit_msg =
     \<lparr>ROUND = 0, to_protocol_msg = CommitMsg,
      from_protocol_msg = (\<lambda>p. case p of CommitMsg m \<Rightarrow> Ok m | _ \<Rightarrow> Err p)\<rparr>"

definition decommit_msg :: "(bytes, rg_msg) round_msg" where
  "decommit_msg =
     \<lparr>ROUND = 1, to_protocol_msg = DecommitMsg,
      from_protocol_msg = (\<lambda>p. case p of DecommitMsg m \<Rightarrow> Ok m | _ \<Rightarrow> Err p)\<rparr>"

lemma rg_msg_simps [simp]:
  "ROUND commit_msg = 0" "ROUND decommit_msg = 1"
  "to_protocol_msg commit_msg = CommitMsg" "to_protocol_msg decommit_msg = DecommitMsg"
  "from_protocol_msg commit_msg (CommitMsg x) = Ok x"
  "from_protocol_msg commit_msg (DecommitMsg x) = Err (DecommitMsg x)"
  "from_protocol_msg decommit_msg (DecommitMsg x) = Ok x"
  "from_protocol_msg decommit_msg (CommitMsg x) = Err (CommitMsg x)"
  by (simp_all add: commit_msg_def decommit_msg_def)

interpretation commit: echo_wrapped "\<lambda>_. True" rg_round commit_msg
proof
  fix p
  show "rg_round p = ROUND commit_msg \<Longrightarrow> is_ok (from_protocol_msg commit_msg p)"
    "rg_round p \<noteq> ROUND commit_msg \<Longrightarrow> from_protocol_msg commit_msg p = Err p"
    "rg_round p < 32768"
    by (cases p; simp)+
qed simp_all

interpretation decommit: echo_wrapped "\<lambda>_. True" rg_round decommit_msg
proof
  fix p
  show "rg_round p = ROUND decommit_msg \<Longrightarrow> is_ok (from_protocol_msg decommit_msg p)"
    "rg_round p \<noteq> ROUND decommit_msg \<Longrightarrow> from_protocol_msg decommit_msg p = Err p"
    "rg_round p < 32768"
    by (cases p; simp)+
qed simp_all

lemma rg_lawful:
  "lawful_round_msg (\<lambda>_. True) rg_round commit_msg" "lawful_round_msg (\<lambda>_. True) rg_round decommit_msg"
  by (simp_all add: lawful_round_msg_def commit.lawful_msg_axioms decommit.lawful_msg_axioms)

text \<open>These are the implementations that the derive macro emits.\<close>

fun enum_value_of :: "rg_msg \<Rightarrow> bytes enum_value" where
  "enum_value_of (CommitMsg x) = \<lparr>ev_variant = ''CommitMsg'', ev_field = x\<rparr>"
| "enum_value_of (DecommitMsg x) = \<lparr>ev_variant = ''DecommitMsg'', ev_field = x\<rparr>"

subsection \<open>Errors\<close>

record blame =
  guilty_party :: u16
  commitment_msg :: msg_id
  decommitment_msg :: msg_id

datatype ('re, 'se) rg_error =
  Round1Send 'se
| Round1Receive 're
| Round2Send 'se
| Round2Receive 're
| PartiesOpenedRandomnessDoesntMatchCommitment "blame list"

subsection \<open>Opening the commitments\<close>

text \<open>\<open>output.iter_mut().zip(randomness).for_each(|(x, r)| *x ^= r)\<close>\<close>

fun xor_into :: "bytes \<Rightarrow> bytes \<Rightarrow> bytes" where
  "xor_into (x # xs) (r # rs) = (x XOR r) # xor_into xs rs"
| "xor_into xs [] = xs"
| "xor_into [] rs = []"

type_synonym indexed = "party_index \<times> msg_id \<times> bytes"

fun open_loop :: "(bytes \<Rightarrow> bytes) \<Rightarrow> blame list \<Rightarrow> bytes \<Rightarrow> (indexed \<times> indexed) list \<Rightarrow> blame list \<times> bytes" where
  "open_loop digest guilty out [] = (guilty, out)"
| "open_loop digest guilty out (((party_i, com_msg_id, commit), (_, decom_msg_id, decommit)) # rest) =
     (if commit \<noteq> digest decommit then
        open_loop digest (guilty @ [\<lparr>guilty_party = party_i, commitment_msg = com_msg_id,
                                    decommitment_msg = decom_msg_id\<rparr>]) out rest
      else open_loop digest guilty (xor_into out decommit) rest)"

definition open_commitments ::
  "(bytes \<Rightarrow> bytes) \<Rightarrow> bytes \<Rightarrow> bytes round_msgs \<Rightarrow> bytes round_msgs \<Rightarrow> ('re, 'se) rg_error + bytes" where
  "open_commitments digest local_randomness commitments openings =
     (case open_loop digest [] local_randomness
             (zip (into_iter_indexed commitments) (into_iter_indexed openings)) of
        (guilty, out) \<Rightarrow>
          if guilty \<noteq> [] then Err (PartiesOpenedRandomnessDoesntMatchCommitment guilty) else Ok out)"

subsection \<open>The protocol\<close>

text \<open>The future of the protocol, suspended in \<open>complete\<close> of the first or of the second round.\<close>

datatype 'w rg_future =
  AwaitCommitments 'w 'w bytes
| AwaitDecommitments 'w bytes "bytes round_msgs"

type_synonym ('p, 'x, 'w, 'ce, 'se) rg_engine =
  "('p, 'x, 'w, bytes round_input, bytes, rg_msg, bytes round_msgs, 'ce, 'se) mpc_ops"

text \<open>The definition of the rounds, up to the first await that can suspend.\<close>

definition define_rounds ::
  "('p, 'x, 'w, 'ce, 'se) rg_engine \<Rightarrow> 'p \<Rightarrow> u16 \<Rightarrow> u16 \<Rightarrow> ('x \<times> 'w \<times> 'w) or_panic" where
  "define_rounds E mpc i n =
     (case round_reliable_broadcast i n of
        Panic \<Rightarrow> Panic
      | Ret s1 \<Rightarrow>
          (case op_add_round E mpc commit_msg s1 of
             Panic \<Rightarrow> Panic
           | Ret (mpc1, round1) \<Rightarrow>
               (case round_broadcast i n of
                  Panic \<Rightarrow> Panic
                | Ret s2 \<Rightarrow>
                    (case op_add_round E mpc1 decommit_msg s2 of
                       Panic \<Rightarrow> Panic
                     | Ret (mpc2, round2) \<Rightarrow> Ret (op_finish_setup E mpc2, round1, round2)))))"

definition rg_start ::
  "('p, 'x, 'w, 'ce, 'se) rg_engine \<Rightarrow> (bytes \<Rightarrow> bytes) \<Rightarrow> ('g \<Rightarrow> bytes \<Rightarrow> 'g \<times> bytes)
     \<Rightarrow> 'p \<Rightarrow> u16 \<Rightarrow> u16 \<Rightarrow> 'g \<Rightarrow> ('x \<times> 'g \<times> (('ce, 'se) rg_error + 'w rg_future)) or_panic" where
  "rg_start E digest fill_bytes mpc i n rng =
     (case define_rounds E mpc i n of
        Panic \<Rightarrow> Panic
      | Ret (mpc1, round1, round2) \<Rightarrow>
          (let (rng', local_randomness) = fill_bytes rng (replicate 32 0);
               (mpc2, r) = reliably_broadcast (op_send E) mpc1 (CommitMsg (digest local_randomness))
           in Ret (mpc2, rng',
                case r of
                  Err e \<Rightarrow> Err (Round1Send e)
                | Ok _ \<Rightarrow> Ok (AwaitCommitments round1 round2 local_randomness))))"

definition poll_round2 ::
  "('p, 'x, 'w, 'ce, 'se) rg_engine \<Rightarrow> (bytes \<Rightarrow> bytes) \<Rightarrow> 'x \<Rightarrow> 'w \<Rightarrow> bytes \<Rightarrow> bytes round_msgs
     \<Rightarrow> 'x \<times> 'w rg_future \<times> (('ce, 'se) rg_error + bytes) poll" where
  "poll_round2 E digest mpc round2 local_randomness commitments =
     (case op_complete E mpc round2 of
        (mpc', round2', r) \<Rightarrow>
          (mpc', AwaitDecommitments round2' local_randomness commitments,
           case r of
             Pending \<Rightarrow> Pending
           | Ready (Err e) \<Rightarrow> Ready (Err (Round2Receive e))
           | Ready (Ok openings) \<Rightarrow>
               Ready (open_commitments digest local_randomness commitments openings)))"

definition rg_poll ::
  "('p, 'x, 'w, 'ce, 'se) rg_engine \<Rightarrow> (bytes \<Rightarrow> bytes) \<Rightarrow> 'x \<Rightarrow> 'w rg_future
     \<Rightarrow> 'x \<times> 'w rg_future \<times> (('ce, 'se) rg_error + bytes) poll" where
  "rg_poll E digest mpc fut =
     (case fut of
        AwaitCommitments round1 round2 local_randomness \<Rightarrow>
          (case op_complete E mpc round1 of
             (mpc1, round1', Pending) \<Rightarrow> (mpc1, AwaitCommitments round1' round2 local_randomness, Pending)
           | (mpc1, round1', Ready (Err e)) \<Rightarrow> (mpc1, fut, Ready (Err (Round1Receive e)))
           | (mpc1, round1', Ready (Ok commitments)) \<Rightarrow>
               (case send_to_all (op_send E) mpc1 (DecommitMsg local_randomness) of
                  (mpc2, Err e) \<Rightarrow> (mpc2, fut, Ready (Err (Round2Send e)))
                | (mpc2, Ok _) \<Rightarrow> poll_round2 E digest mpc2 round2 local_randomness commitments))
      | AwaitDecommitments round2 local_randomness commitments \<Rightarrow>
          poll_round2 E digest mpc round2 local_randomness commitments)"

subsection \<open>Xor of byte strings\<close>

lemma length_xor_into [simp]: "length (xor_into a b) = length a"
  by (induction a b rule: xor_into.induct) auto

lemma nth_xor_into:
  "k < length a \<Longrightarrow> xor_into a b ! k = (if k < length b then a ! k XOR b ! k else a ! k)"
  by (induction a b arbitrary: k rule: xor_into.induct) (auto simp: nth_Cons split: nat.splits)

lemma xor_into_commutes: "xor_into (xor_into a b) c = xor_into (xor_into a c) b"
  by (rule nth_equalityI) (auto simp: nth_xor_into ac_simps)

lemma xor_into_zeros: "xor_into (replicate (length a) 0) a = a"
  by (rule nth_equalityI) (auto simp: nth_xor_into)

text \<open>The xor of the randomness of all parties.\<close>

definition xor_all :: "bytes list \<Rightarrow> bytes" where
  "xor_all xs = foldl xor_into (replicate 32 0) xs"

lemma foldl_xor_mset:
  assumes "mset xs = mset ys"
  shows "foldl xor_into a xs = foldl xor_into a ys"
proof -
  have "fold (\<lambda>r a. xor_into a r) xs = fold (\<lambda>r a. xor_into a r) ys"
    using assms by (intro fold_multiset_equiv) (auto simp: fun_eq_iff xor_into_commutes)
  then show ?thesis by (simp add: foldl_conv_fold)
qed

lemma xor_all_including_me:
  assumes "length own = 32"
  shows "xor_all (iter_including_me r own) = foldl xor_into own (rm_messages r)"
proof -
  let ?k = "unat (rm_i r)"
  have "mset (take ?k (rm_messages r)) + mset (drop ?k (rm_messages r)) = mset (rm_messages r)"
    by (metis append_take_drop_id mset_append)
  then have "mset (iter_including_me r own) = mset (own # rm_messages r)"
    by (simp add: iter_including_me_def)
  from foldl_xor_mset [OF this] show ?thesis
    using xor_into_zeros [of own] assms by (simp add: xor_all_def)
qed

subsection \<open>The loop over the openings\<close>

definition blame_of :: "indexed \<times> indexed \<Rightarrow> blame" where
  "blame_of z = \<lparr>guilty_party = fst (fst z), commitment_msg = fst (snd (fst z)),
                 decommitment_msg = fst (snd (snd z))\<rparr>"

definition opens :: "(bytes \<Rightarrow> bytes) \<Rightarrow> indexed \<times> indexed \<Rightarrow> bool" where
  "opens digest z \<longleftrightarrow> snd (snd (fst z)) = digest (snd (snd (snd z)))"

lemma open_loop_eq:
  "open_loop digest guilty out zs =
     (guilty @ map blame_of (filter (\<lambda>z. \<not> opens digest z) zs),
      foldl xor_into out (map (\<lambda>z. snd (snd (snd z))) (filter (opens digest) zs)))"
  by (induction digest guilty out zs rule: open_loop.induct) (simp_all add: blame_of_def opens_def)

text \<open>The pairs that the loop goes through, by party.\<close>

definition opening_of :: "bytes round_msgs \<Rightarrow> bytes round_msgs \<Rightarrow> party_index \<Rightarrow> indexed \<times> indexed" where
  "opening_of c d j =
     (let k = msg_index (rm_i c) j
      in ((j, rm_ids c ! k, rm_messages c ! k), (j, rm_ids d ! k, rm_messages d ! k)))"

lemma openings_by_party:
  assumes "RoundMsgs_wf c n" and "RoundMsgs_wf d n" and "rm_i d = rm_i c"
  shows "zip (into_iter_indexed c) (into_iter_indexed d) = map (opening_of c d) (others (rm_i c) n)"
    (is "?l = ?r")
proof (rule nth_equalityI)
  note lens = assms(1,2) [unfolded RoundMsgs_wf_def]
  show "length ?l = length ?r"
    using lens by (simp add: into_iter_indexed_eq [OF assms(1)] into_iter_indexed_eq [OF assms(2)] length_others)
  fix k assume "k < length ?l"
  then have k: "k < unat n - Suc 0"
    using lens by (simp add: into_iter_indexed_eq [OF assms(1)] length_others)
  have "msg_index (rm_i c) (others (rm_i c) n ! k) = k"
    using of_nat_sender_at(3) [of "rm_i c" n k] lens k by (simp add: others_def)
  then show "?l ! k = ?r ! k"
    using lens k assms(3)
    by (simp add: into_iter_indexed_eq [OF assms(1)] into_iter_indexed_eq [OF assms(2)] length_others
                  opening_of_def Let_def)
qed

lemma messages_by_party:
  assumes "RoundMsgs_wf d n"
  shows "map (\<lambda>j. rm_messages d ! msg_index (rm_i d) j) (others (rm_i d) n) = rm_messages d"
proof (rule nth_equalityI)
  show "length (map (\<lambda>j. rm_messages d ! msg_index (rm_i d) j) (others (rm_i d) n)) = length (rm_messages d)"
    using assms by (simp add: length_others RoundMsgs_wf_def)
  fix k assume "k < length (map (\<lambda>j. rm_messages d ! msg_index (rm_i d) j) (others (rm_i d) n))"
  then show "map (\<lambda>j. rm_messages d ! msg_index (rm_i d) j) (others (rm_i d) n) ! k = rm_messages d ! k"
    using assms of_nat_sender_at(3) [of "rm_i d" n k]
    by (simp add: length_others RoundMsgs_wf_def others_def)
qed

text \<open>The parties whose opening does not match what they committed to.\<close>

definition cheaters ::
  "(bytes \<Rightarrow> bytes) \<Rightarrow> u16 \<Rightarrow> bytes round_msgs \<Rightarrow> bytes round_msgs \<Rightarrow> party_index list" where
  "cheaters digest n c d =
     filter (\<lambda>j. rm_messages c ! msg_index (rm_i c) j \<noteq> digest (rm_messages d ! msg_index (rm_i c) j))
       (others (rm_i c) n)"

lemma set_cheaters:
  assumes "RoundMsgs_wf c n" and "RoundMsgs_wf d n" and "rm_i d = rm_i c"
  shows "set (cheaters digest n c d) =
      {j. j < n \<and> iter_including_me c (digest own) ! unat j \<noteq> digest (iter_including_me d own ! unat j)}"
proof -
  have me: "rm_i c < n" using assms(1) by (simp add: RoundMsgs_wf_def)
  show ?thesis
    using iter_including_me_nth [OF assms(1), of _ "digest own"] iter_including_me_nth [OF assms(2), of _ own]
      assms(3) by (auto simp: cheaters_def set_others [OF me] split: if_splits)
qed

lemma cheaters_empty_iff:
  assumes "RoundMsgs_wf c n" and "RoundMsgs_wf d n" and "rm_i d = rm_i c"
  shows "cheaters digest n c d = [] \<longleftrightarrow>
      (\<forall>j. j < n \<longrightarrow> iter_including_me c (digest own) ! unat j = digest (iter_including_me d own ! unat j))"
  using set_cheaters [OF assms, of digest own] by (metis (mono_tags, lifting) Collect_empty_eq set_empty)

lemma open_commitments_eq:
  assumes "RoundMsgs_wf c n" and "RoundMsgs_wf d n" and "rm_i d = rm_i c" and "length own = 32"
  shows "open_commitments digest own c d =
    (if cheaters digest n c d = [] then Ok (xor_all (iter_including_me d own))
     else Err (PartiesOpenedRandomnessDoesntMatchCommitment
            (map (\<lambda>j. blame_of (opening_of c d j)) (cheaters digest n c d))))"
proof -
  let ?js = "others (rm_i c) n"
  have bad: "filter (\<lambda>z. \<not> opens digest z) (map (opening_of c d) ?js) =
      map (opening_of c d) (cheaters digest n c d)"
    by (simp add: filter_map comp_def opens_def opening_of_def cheaters_def Let_def)
  have "foldl xor_into own (map (\<lambda>z. snd (snd (snd z))) (filter (opens digest) (map (opening_of c d) ?js))) =
      xor_all (iter_including_me d own)" if "cheaters digest n c d = []"
  proof -
    have "filter (opens digest) (map (opening_of c d) ?js) = map (opening_of c d) ?js"
      using that by (auto simp: cheaters_def filter_empty_conv opens_def opening_of_def Let_def
          intro!: filter_True)
    moreover have "map (\<lambda>z. snd (snd (snd z))) (map (opening_of c d) ?js) = rm_messages d"
      using messages_by_party [OF assms(2)] assms(3) by (simp add: comp_def opening_of_def Let_def)
    ultimately show ?thesis using xor_all_including_me [OF assms(4)] by simp
  qed
  then show ?thesis
    unfolding open_commitments_def openings_by_party [OF assms(1-3)] open_loop_eq bad by simp
qed

lemma open_commitments_ok:
  assumes "RoundMsgs_wf c n" and "RoundMsgs_wf d n" and "rm_i d = rm_i c" and "length own = 32"
  shows "open_commitments digest own c d = Ok out \<longleftrightarrow>
     cheaters digest n c d = [] \<and> out = xor_all (iter_including_me d own)"
  by (auto simp: open_commitments_eq [OF assms])

lemma opened_commitments:
  assumes "RoundMsgs_wf c n" and "RoundMsgs_wf d n" and "rm_i d = rm_i c"
    and "cheaters digest n c d = []"
  shows "iter_including_me c (digest own) = map digest (iter_including_me d own)"
proof -
  have "rm_messages c = map digest (rm_messages d)"
  proof -
    have "map (\<lambda>j. rm_messages c ! msg_index (rm_i c) j) (others (rm_i c) n) =
        map digest (map (\<lambda>j. rm_messages d ! msg_index (rm_i d) j) (others (rm_i d) n))"
      using assms(3,4) by (simp add: cheaters_def filter_empty_conv)
    then show ?thesis by (simp only: messages_by_party [OF assms(1)] messages_by_party [OF assms(2)])
  qed
  then show ?thesis using assms(3) by (simp add: iter_including_me_def take_map drop_map)
qed

subsection \<open>Properties of the opening\<close>

text \<open>C34: Cheaters are blamed, and only they. Over complete rounds, the protocol ends with the xor of
  the randomness of all \<open>n\<close> parties exactly if every other party opened what it committed to;
  otherwise it fails and names, in ascending order, exactly the parties whose opening does not
  hash to their commitment, with the ids of their two messages.\<close>

theorem cheaters_are_blamed:
  assumes "RoundMsgs_wf c n" and "RoundMsgs_wf d n" and "rm_i d = rm_i c" and "length own = 32"
  shows "(open_commitments digest own c d :: ('re, 'se) rg_error + bytes) =
    (if \<forall>j. j < n \<longrightarrow> iter_including_me c (digest own) ! unat j = digest (iter_including_me d own ! unat j)
     then Ok (xor_all (iter_including_me d own))
     else Err (PartiesOpenedRandomnessDoesntMatchCommitment
            (map (\<lambda>j. blame_of (opening_of c d j)) (cheaters digest n c d)))) \<and>
    set (cheaters digest n c d) =
      {j. j < n \<and> iter_including_me c (digest own) ! unat j \<noteq> digest (iter_including_me d own ! unat j)}"
  unfolding cheaters_empty_iff [OF assms(1-3), symmetric] open_commitments_eq [OF assms]
  using set_cheaters [OF assms(1-3)] by simp

text \<open>Two parties, of which one commits to zeros and opens ones.\<close>

abbreviation sample_rounds :: "bytes \<Rightarrow> bytes round_msgs" where
  "sample_rounds x \<equiv> \<lparr>rm_i = 0, rm_ids = [3], rm_messages = [x]\<rparr>"

theorem cheaters_are_blamed_witness:
  "set (cheaters id 2 (sample_rounds (replicate 32 0)) (sample_rounds (replicate 32 1))) =
     {j. j < 2 \<and> iter_including_me (sample_rounds (replicate 32 0)) (replicate 32 5) ! unat j \<noteq>
        iter_including_me (sample_rounds (replicate 32 1)) (replicate 32 5) ! unat j}"
proof -
  have "RoundMsgs_wf (sample_rounds x) 2" for x by (simp add: RoundMsgs_wf_def)
  then show ?thesis
    using cheaters_are_blamed [where 're = nat and 'se = nat, of "sample_rounds (replicate 32 0)" 2 "sample_rounds (replicate 32 1)"
        "replicate 32 5" id] by simp
qed

lemma opened_lists_agree:
  assumes inj: "\<And>x y. digest x = digest y \<Longrightarrow> x = y"
    and i: "RoundMsgs_wf c_i n" "RoundMsgs_wf d_i n" "rm_i d_i = rm_i c_i"
      "open_commitments digest own_i c_i d_i = Ok out_i" "length own_i = 32"
    and j: "RoundMsgs_wf c_j n" "RoundMsgs_wf d_j n" "rm_i d_j = rm_i c_j"
      "open_commitments digest own_j c_j d_j = Ok out_j" "length own_j = 32"
    and agree: "iter_including_me c_i (digest own_i) = iter_including_me c_j (digest own_j)"
  shows "iter_including_me d_i own_i = iter_including_me d_j own_j" "out_i = out_j"
proof -
  have ok: "cheaters digest n c_i d_i = []" "cheaters digest n c_j d_j = []"
    "out_i = xor_all (iter_including_me d_i own_i)" "out_j = xor_all (iter_including_me d_j own_j)"
    using i(4) j(4) unfolding open_commitments_ok [OF i(1-3,5)] open_commitments_ok [OF j(1-3,5)] by auto
  have "map digest (iter_including_me d_i own_i) = map digest (iter_including_me d_j own_j)"
    using agree opened_commitments [OF i(1-3) ok(1)] opened_commitments [OF j(1-3) ok(2)] by simp
  then show "iter_including_me d_i own_i = iter_including_me d_j own_j"
    using inj by (metis injI list.inj_map_strong)
  then show "out_i = out_j" using ok(3,4) by simp
qed

text \<open>With echo broadcast, parties agree on the randomness even if others cheat. Let two parties
  complete the commitment round over echo broadcast, whatever the other parties send to each of
  them, and let one of them receive the echo of the other and pass its reliability check. If the
  two hash functions are collision free and both parties complete the protocol, from whatever
  openings they received, then their outputs are equal.\<close>

lemma random_generation_agreement:
  assumes collision_free: "\<And>xs ys. hash xs (ROUND commit_msg) n = hash ys (ROUND commit_msg) n \<Longrightarrow> xs = ys"
      "\<And>x y. digest x = digest y \<Longrightarrow> x = y"
    and party_i: "main_round_result commit_msg i n ms_i nm_i"
      "with_my_msg hash commit_msg nm_i (Some (digest own_i)) = Ok (check_i, hash_i)"
    and party_j: "main_round_result commit_msg j n ms_j nm_j"
      "with_my_msg hash commit_msg nm_j (Some (digest own_j)) = Ok (check_j, hash_j)"
    and echo: "echo_round_result i n es echoes" "m \<in> set es" "inc_sender m = j" "j \<noteq> i"
      "inc_msg m = EchoMsg hash_j"
    and passed: "with_echo_output check_i echoes = Ok c_i"
    and openings: "RoundMsgs_wf d_i n" "rm_i d_i = i" "RoundMsgs_wf d_j n" "rm_i d_j = j"
      "length own_i = 32" "length own_j = 32"
    and outputs: "open_commitments digest own_i c_i d_i = Ok out_i"
      "open_commitments digest own_j (no_main_round_output nm_j) d_j = Ok out_j"
  shows "out_i = out_j"
proof -
  note wf_i = main_round_result_wf [OF commit.from_to party_i(1)]
  note wf_j = main_round_result_wf [OF commit.from_to party_j(1)]
  have c_i: "c_i = no_main_round_output nm_i"
    using passed party_i(2) hash_of_result [OF commit.from_to party_i(1), of hash "digest own_i"]
    by (auto simp: with_echo_output_def Let_def split: if_splits)
  have "iter_including_me c_i (digest own_i) =
      iter_including_me (no_main_round_output nm_j) (digest own_j)"
    by (rule echo_agrees [OF collision_free(1) rg_lawful(1) party_i party_j echo passed])
  then show ?thesis
    using opened_lists_agree(2) [OF collision_free(2) _ openings(1) _ outputs(1) openings(5) wf_j(1)
        openings(3) _ outputs(2) openings(6)] wf_i wf_j(2) c_i openings(2,4) by simp
qed

text \<open>Both parties of two commit and open honestly.\<close>

subsection \<open>Running over the engine\<close>

abbreviation party_engine where
  "party_engine K ot et \<equiv> MpcParty_ops rg_round K RoundInput_store ot et"

text \<open>The messages of a round among those received.\<close>

definition of_round :: "(bytes, rg_msg) round_msg \<Rightarrow> rg_msg incoming list \<Rightarrow> bytes incoming list" where
  "of_round M ms = map (extract_msg M) (filter (\<lambda>m. rg_round (inc_msg m) = ROUND M) ms)"

lemma define_rounds_party:
  fixes p :: "(bytes round_input, bytes, rg_msg, bytes round_msgs, round_input_error, 'u, 'ioe, 'k, 'r) mpc_party"
  assumes "2 \<le> n" and "i < n" and "mp_router p = RoundsRouter_new"
  obtains s1 s2 p' where
    "define_rounds (party_engine K ot et) p i n =
       Ret (p', round_type_of RoundInput_store ot et commit_msg, round_type_of RoundInput_store ot et decommit_msg)"
    "RoundInput_new i n (Broadcast True) = Ret s1" "RoundInput_new i n (Broadcast False) = Ret s2"
    "mp_io p' = mp_io p"
    "rounds (mp_router p') =
       [0 \<mapsto> Some \<lparr>br_type = round_type_of RoundInput_store ot et commit_msg, br_state = InProgress s1\<rparr>,
        1 \<mapsto> Some \<lparr>br_type = round_type_of RoundInput_store ot et decommit_msg, br_state = InProgress s2\<rparr>]"
proof -
  obtain s1 s2 :: "bytes round_input" where s: "RoundInput_new i n (Broadcast True) = Ret s1"
    "RoundInput_new i n (Broadcast False) = Ret s2"
    using assms(1,2) by (auto simp: RoundInput_new_ret)
  have new: "ProcessRoundMessageImpl_new (round_type_of
      (RoundInput_store :: (bytes round_input, bytes, bytes round_msgs, round_input_error, 'u) round_store) ot et M) s =
      InProgress s" if "s \<in> {s1, s2}" for s and M :: "(bytes, rg_msg) round_msg"
    using that RoundInput_new_wants_more [OF s(1)] RoundInput_new_wants_more [OF s(2)]
    by (auto simp: ProcessRoundMessageImpl_new_def RoundInput_store_def)
  have "define_rounds (party_engine K ot et) p i n = Ret (p\<lparr>mp_router := \<lparr>rounds =
       [0 \<mapsto> Some \<lparr>br_type = round_type_of RoundInput_store ot et commit_msg, br_state = InProgress s1\<rparr>,
        1 \<mapsto> Some \<lparr>br_type = round_type_of RoundInput_store ot et decommit_msg, br_state = InProgress s2\<rparr>]\<rparr>\<rparr>,
      round_type_of RoundInput_store ot et commit_msg, round_type_of RoundInput_store ot et decommit_msg)"
    using s new assms(3)
    by (cases p) (simp add: define_rounds_def round_reliable_broadcast_def round_broadcast_def
          RoundInput_reliable_broadcast_def RoundInput_broadcast_def MpcParty_add_round_def add_round_def
          RoundsRouter_new_def MpcParty_finish_setup_def Let_def)
  then show thesis by (rule that [OF _ s]) simp_all
qed

text \<open>The two messages that a party sends.\<close>

definition sent_by_party ::
  "('k, rg_msg, 'ioe) sink \<Rightarrow> (bytes \<Rightarrow> bytes) \<Rightarrow> bytes \<Rightarrow> 'k \<Rightarrow> 'k" where
  "sent_by_party K digest own k =
     (let k1 = fst (sink_send K k (Outgoing_reliable_broadcast (CommitMsg (digest own))))
      in fst (sink_send K k1 (Outgoing_all_parties (DecommitMsg own))))"

lemma rounds_complete_in_engine:
  fixes p :: "(bytes round_input, bytes, rg_msg, bytes round_msgs, round_input_error, 'u, 'ioe, 'k, 'r) mpc_party"
  assumes s: "RoundInput_new i n (Broadcast True) = Ret s1" "RoundInput_new i n (Broadcast False) = Ret s2"
    and rounds: "rounds (mp_router p) =
       [0 \<mapsto> Some \<lparr>br_type = round_type_of RoundInput_store ot et commit_msg, br_state = InProgress s1\<rparr>,
        1 \<mapsto> Some \<lparr>br_type = round_type_of RoundInput_store ot et decommit_msg, br_state = InProgress s2\<rparr>]"
    and commits: "one_each i n (Broadcast True) (of_round commit_msg ms)"
    and decommits: "one_each i n (Broadcast False) (of_round decommit_msg ms)"
  shows "rounds (received_all rg_round (mp_router p) ms) 0 = Some (Some
       \<lparr>br_type = round_type_of RoundInput_store ot et commit_msg,
        br_state = Completed (Ok (round_output i n (of_round commit_msg ms)))\<rparr>)"
    and "rounds (received_all rg_round (mp_router p) ms) 1 = Some (Some
       \<lparr>br_type = round_type_of RoundInput_store ot et decommit_msg,
        br_state = Completed (Ok (round_output i n (of_round decommit_msg ms)))\<rparr>)"
  using round_completes_through_router [where rt = "mp_router p" and ms = ms and rest = "[]", OF _ _ _ s(1) commits,
      of "round_type_of RoundInput_store ot et commit_msg" "\<lambda>_. True" rg_round]
    round_completes_through_router [where rt = "mp_router p" and ms = ms and rest = "[]", OF _ _ _ s(2) decommits,
      of "round_type_of RoundInput_store ot et decommit_msg" "\<lambda>_. True" rg_round]
  by (simp_all add: rounds rg_lawful of_round_def)

lemma poll_after_setup:
  fixes p :: "(bytes round_input, bytes, rg_msg, bytes round_msgs, round_input_error, 'u, 'ioe, 'k, 'r) mpc_party"
  assumes items: "incomings (mp_io p) = \<lparr>st_items = map Ok ms @ tail, st_closed = closed\<rparr>"
    and s: "RoundInput_new i n (Broadcast True) = Ret s1" "RoundInput_new i n (Broadcast False) = Ret s2"
    and rounds: "rounds (mp_router p) =
       [0 \<mapsto> Some \<lparr>br_type = round_type_of RoundInput_store ot et commit_msg, br_state = InProgress s1\<rparr>,
        1 \<mapsto> Some \<lparr>br_type = round_type_of RoundInput_store ot et decommit_msg, br_state = InProgress s2\<rparr>]"
    and commits: "one_each i n (Broadcast True) (of_round commit_msg ms)"
    and decommits: "one_each i n (Broadcast False) (of_round decommit_msg ms)"
    and sink: "\<And>k m. snd (sink_send K k m) = Ok ()"
  shows "\<exists>p' fut. rg_poll (party_engine K ot et) digest p (AwaitCommitments
       (round_type_of RoundInput_store ot et commit_msg) (round_type_of RoundInput_store ot et decommit_msg) own) =
     (p', fut, Ready (open_commitments digest own (round_output i n (of_round commit_msg ms))
        (round_output i n (of_round decommit_msg ms)))) \<and>
     outgoings (mp_io p') = fst (sink_send K (outgoings (mp_io p)) (Outgoing_all_parties (DecommitMsg own)))"
proof -
  let ?R1 = "round_type_of RoundInput_store ot et commit_msg ::
      (bytes round_input, bytes, rg_msg, bytes round_msgs, round_input_error, 'u) round_type"
  let ?R2 = "round_type_of RoundInput_store ot et decommit_msg ::
      (bytes round_input, bytes, rg_msg, bytes round_msgs, round_input_error, 'u) round_type"
  let ?cs = "round_output i n (of_round commit_msg ms)" and ?ds = "round_output i n (of_round decommit_msg ms)"
  note fin = rounds_complete_in_engine [OF s rounds commits decommits]
  have dom: "rg_round x \<in> dom (rounds (mp_router p))" for x
    by (cases x) (simp_all add: rounds)
  obtain p1 suf where p1: "MpcParty_complete rg_round p ?R1 = (p1, Ready (Ok ?cs))"
    "incomings (mp_io p1) = \<lparr>st_items = map Ok suf @ tail, st_closed = closed\<rparr>"
    "outgoings (mp_io p1) = outgoings (mp_io p)" "dom (rounds (mp_router p1)) = dom (rounds (mp_router p))"
    "rounds (received_all rg_round (mp_router p1) suf) 1 = rounds (received_all rg_round (mp_router p) ms) 1"
    using complete_among_rounds [where R = ?R1, OF items, of rg_round "Ok ?cs"] dom fin(1) by auto
  obtain p2 where p2: "MpcParty_send K p1 (Outgoing_all_parties (DecommitMsg own)) = (p2, Ok ())"
    "mp_router p2 = mp_router p1" "incomings (mp_io p2) = incomings (mp_io p1)"
    "outgoings (mp_io p2) = fst (sink_send K (outgoings (mp_io p)) (Outgoing_all_parties (DecommitMsg own)))"
    using MpcParty_send_ok [where K = K and p = p1, OF sink] p1(3) by metis
  obtain p3 where p3: "MpcParty_complete rg_round p2 ?R2 = (p3, Ready (Ok ?ds))"
    "outgoings (mp_io p3) = outgoings (mp_io p2)"
    using complete_among_rounds [where R = ?R2 and p = p2 and ms = suf and tail = tail and closed = closed,
        of rg_round "Ok ?ds"] dom fin(2) p1(2,4,5) p2(2,3) by auto
  show ?thesis
    using p1(1) p2(1,4) p3 by (simp add: rg_poll_def poll_round2_def send_to_all_def)
qed

lemma rg_run:
  fixes p :: "(bytes round_input, bytes, rg_msg, bytes round_msgs, round_input_error, 'u, 'ioe, 'k, 'r) mpc_party"
  assumes idx: "2 \<le> n" "i < n" and new: "mp_router p = RoundsRouter_new"
    and items: "incomings (mp_io p) = \<lparr>st_items = map Ok ms @ tail, st_closed = closed\<rparr>"
    and commits: "one_each i n (Broadcast True) (of_round commit_msg ms)"
    and decommits: "one_each i n (Broadcast False) (of_round decommit_msg ms)"
    and sink: "\<And>k m. snd (sink_send K k m) = Ok ()"
    and rng: "fill_bytes rng (replicate 32 0) = (rng', own)"
  shows "\<exists>x fut x' fut'. rg_start (party_engine K ot et) digest fill_bytes p i n rng = Ret (x, rng', Ok fut) \<and>
     rg_poll (party_engine K ot et) digest x fut =
       (x', fut', Ready (open_commitments digest own (round_output i n (of_round commit_msg ms))
          (round_output i n (of_round decommit_msg ms)))) \<and>
     outgoings (mp_io x') = sent_by_party K digest own (outgoings (mp_io p))"
proof -
  obtain s1 s2 p1 where p1: "define_rounds (party_engine K ot et) p i n =
       Ret (p1, round_type_of RoundInput_store ot et commit_msg, round_type_of RoundInput_store ot et decommit_msg)"
    and s: "RoundInput_new i n (Broadcast True) = Ret s1" "RoundInput_new i n (Broadcast False) = Ret s2"
    and io: "mp_io p1 = mp_io p" and rounds: "rounds (mp_router p1) =
       [0 \<mapsto> Some \<lparr>br_type = round_type_of RoundInput_store ot et commit_msg, br_state = InProgress s1\<rparr>,
        1 \<mapsto> Some \<lparr>br_type = round_type_of RoundInput_store ot et decommit_msg, br_state = InProgress s2\<rparr>]"
    using define_rounds_party [OF idx new] .
  obtain p2 where p2: "MpcParty_send K p1 (Outgoing_reliable_broadcast (CommitMsg (digest own))) = (p2, Ok ())"
    "mp_router p2 = mp_router p1" "incomings (mp_io p2) = incomings (mp_io p)"
    "outgoings (mp_io p2) = fst (sink_send K (outgoings (mp_io p)) (Outgoing_reliable_broadcast (CommitMsg (digest own))))"
    using MpcParty_send_ok [where K = K and p = p1, OF sink] io by metis
  have start: "rg_start (party_engine K ot et) digest fill_bytes p i n rng =
      Ret (p2, rng', Ok (AwaitCommitments (round_type_of RoundInput_store ot et commit_msg)
        (round_type_of RoundInput_store ot et decommit_msg) own))"
    using p1 p2(1) rng by (simp add: rg_start_def reliably_broadcast_def)
  show ?thesis
    using poll_after_setup [OF _ s _ commits decommits sink, of p2 tail closed ot et digest own] start
      items rounds p2(2-4) by (auto simp: sent_by_party_def Let_def)
qed

lemma of_round_content:
  assumes "\<forall>m \<in> set ms. inc_msg m = CommitMsg (digest (xs ! unat (inc_sender m))) \<or>
      inc_msg m = DecommitMsg (xs ! unat (inc_sender m))"
  shows "\<forall>m \<in> set (of_round commit_msg ms). inc_msg m = digest (xs ! unat (inc_sender m))"
    and "\<forall>m \<in> set (of_round decommit_msg ms). inc_msg m = id (xs ! unat (inc_sender m))"
  using assms by (force simp: of_round_def extract_msg_def Incoming_map_def)+

lemma honest_openings:
  assumes idx: "i < n" "length xs = unat n"
    and commits: "one_each i n (Broadcast True) (of_round commit_msg ms)"
    and decommits: "one_each i n (Broadcast False) (of_round decommit_msg ms)"
    and honest: "\<forall>m \<in> set ms. inc_msg m = CommitMsg (digest (xs ! unat (inc_sender m))) \<or>
      inc_msg m = DecommitMsg (xs ! unat (inc_sender m))"
    and own: "length (xs ! unat i) = 32"
  shows "open_commitments digest (xs ! unat i) (round_output i n (of_round commit_msg ms))
      (round_output i n (of_round decommit_msg ms)) = Ok (xor_all xs)"
proof -
  let ?c = "round_output i n (of_round commit_msg ms)" and ?d = "round_output i n (of_round decommit_msg ms)"
  note c = round_output_lists [OF idx(1) commits idx(2) of_round_content(1) [OF honest]]
  note d = round_output_lists [OF idx(1) decommits idx(2) of_round_content(2) [OF honest]]
  have me: "rm_i ?d = rm_i ?c" by (simp add: round_output_def)
  have "cheaters digest n ?c ?d = []"
    using c(2) d(2) idx(2) cheaters_empty_iff [OF c(1) d(1) me, of digest "xs ! unat i"]
    by (simp add: unat_less_iff)
  then show ?thesis
    using d(2) by (simp add: open_commitments_ok [OF c(1) d(1) me own])
qed

subsection \<open>Properties of the protocol\<close>

text \<open>C13: Honest parties generate the xor of their randomness. Party \<open>i\<close> of \<open>n\<close> runs the protocol over
  \<open>MpcParty\<close> with a sink that accepts messages. If its stream delivers the commitment and the opening
  of each other party, in any order and any interleaving of the two rounds, where party \<open>k\<close> drew
  \<open>xs ! k\<close>, then the party sends its commitment and its opening and ends with the xor of all the
  \<open>xs\<close> - the same value for every party.\<close>

theorem honest_random_generation:
  fixes p :: "(bytes round_input, bytes, rg_msg, bytes round_msgs, round_input_error, 'u, 'ioe, 'k, 'r) mpc_party"
  assumes idx: "2 \<le> n" "i < n" "length xs = unat n" and new: "mp_router p = RoundsRouter_new"
    and items: "incomings (mp_io p) = \<lparr>st_items = map Ok ms @ tail, st_closed = closed\<rparr>"
    and commits: "one_each i n (Broadcast True) (of_round commit_msg ms)"
    and decommits: "one_each i n (Broadcast False) (of_round decommit_msg ms)"
    and honest: "\<forall>m \<in> set ms. inc_msg m = CommitMsg (digest (xs ! unat (inc_sender m))) \<or>
      inc_msg m = DecommitMsg (xs ! unat (inc_sender m))"
    and sink: "\<And>k m. snd (sink_send K k m) = Ok ()"
    and rng: "fill_bytes rng (replicate 32 0) = (rng', xs ! unat i)" "length (xs ! unat i) = 32"
  shows "\<exists>x fut x' fut'. rg_start (party_engine K ot et) digest fill_bytes p i n rng = Ret (x, rng', Ok fut) \<and>
     rg_poll (party_engine K ot et) digest x fut = (x', fut', Ready (Ok (xor_all xs))) \<and>
     outgoings (mp_io x') = sent_by_party K digest (xs ! unat i) (outgoings (mp_io p))"
proof -
  have "(open_commitments digest (xs ! unat i) (round_output i n (of_round commit_msg ms))
      (round_output i n (of_round decommit_msg ms)) ::
      ((round_input_error, 'ioe) complete_round_error, 'ioe) rg_error + bytes) = Ok (xor_all xs)"
    by (rule honest_openings [OF idx(2,3) commits decommits honest rng(2)])
  then show ?thesis
    using rg_run [where fill_bytes = fill_bytes, OF idx(1,2) new items commits decommits sink rng(1), of ot et digest] by simp
qed

text \<open>Party \<open>0\<close> of two; the opening of party \<open>1\<close> overtakes its commitment. The sink records.\<close>

definition recording_sink :: "('m outgoing list, 'm, nat) sink" where
  "recording_sink =
     \<lparr>sink_send = (\<lambda>k m. (k @ [m], Ok ())), sink_feed = (\<lambda>k m. (k @ [m], Ok ())), sink_flush = (\<lambda>k. (k, Ok ()))\<rparr>"

abbreviation sample_rg_party ::
  "(bytes round_input, bytes, rg_msg, bytes round_msgs, round_input_error, unit, nat, rg_msg outgoing list, unit) mpc_party" where
  "sample_rg_party \<equiv> MpcParty_connected_halves ()
     \<lparr>st_items = map Ok [sample_incoming 1 1 (Broadcast False) (DecommitMsg (replicate 32 8)),
                        sample_incoming 2 1 (Broadcast True) (CommitMsg (replicate 32 9))], st_closed = False\<rparr> []"

theorem honest_random_generation_witness:
  "\<exists>x fut x' fut'. rg_start (party_engine recording_sink unat unat) (map (\<lambda>b. b + 1)) (\<lambda>_ _. ((), replicate 32 7))
       sample_rg_party 0 2 () = Ret (x, (), Ok fut) \<and>
     rg_poll (party_engine recording_sink unat unat) (map (\<lambda>b. b + 1)) x fut =
       (x', fut', Ready (Ok (xor_all [replicate 32 7, replicate 32 8]))) \<and>
     outgoings (mp_io x') = [Outgoing_reliable_broadcast (CommitMsg (replicate 32 8)),
                             Outgoing_all_parties (DecommitMsg (replicate 32 7))]"
proof -
  have others: "{s. s \<noteq> 0 \<and> s < (2 :: u16)} = {1}" by (auto simp: u16_less_2)
  have "\<exists>x fut x' fut'. rg_start (party_engine recording_sink unat unat) (map (\<lambda>b. b + 1)) (\<lambda>_ _. ((), replicate 32 7))
       sample_rg_party 0 2 () = Ret (x, (), Ok fut) \<and>
     rg_poll (party_engine recording_sink unat unat) (map (\<lambda>b. b + 1)) x fut =
       (x', fut', Ready (Ok (xor_all [replicate 32 7, replicate 32 8]))) \<and>
     outgoings (mp_io x') = sent_by_party recording_sink (map (\<lambda>b. b + 1)) ([replicate 32 7, replicate 32 8] ! unat (0 :: u16))
       (outgoings (mp_io sample_rg_party))"
    by (rule honest_random_generation [where tail = "[]" and closed = False and
          ms = "[sample_incoming 1 1 (Broadcast False) (DecommitMsg (replicate 32 8)),
                 sample_incoming 2 1 (Broadcast True) (CommitMsg (replicate 32 9))]"])
      (simp_all add: others MpcParty_connected_halves_def MpcParty_connected_def Halves_new_def
        recording_sink_def one_each_def of_round_def sample_incoming_def
        extract_msg_def Incoming_map_def)
  then show ?thesis
    by (simp add: sent_by_party_def recording_sink_def MpcParty_connected_halves_def
          MpcParty_connected_def Halves_new_def Let_def)
qed

text \<open>The messages of the example are what the derive macro says. For the declaration of the
  example's messages the macro emits exactly the round numbers and conversions of the model.\<close>

lemma derived_example_messages:
  "case protocol_msg parse Msg_declaration of
     Expansion root name body [im1, im2] \<Rightarrow>
       emitted_round body (enum_value_of m) = Some (rg_round m) \<and>
       ROUND (emitted_round_msg im1 :: (bytes, bytes enum_value) round_msg) = ROUND commit_msg \<and>
       ROUND (emitted_round_msg im2 :: (bytes, bytes enum_value) round_msg) = ROUND decommit_msg \<and>
       to_protocol_msg (emitted_round_msg im1) x = enum_value_of (to_protocol_msg commit_msg x) \<and>
       to_protocol_msg (emitted_round_msg im2) x = enum_value_of (to_protocol_msg decommit_msg x) \<and>
       from_protocol_msg (emitted_round_msg im1) (enum_value_of m) =
         map_err enum_value_of (from_protocol_msg commit_msg m) \<and>
       from_protocol_msg (emitted_round_msg im2) (enum_value_of m) =
         map_err enum_value_of (from_protocol_msg decommit_msg m)
   | _ \<Rightarrow> False"
  unfolding Msg_expansion by (cases m) (simp_all add: emitted_round_def emitted_round_msg_def)

end
