(* ===== verification/Simulated_Party.thy ===== *)
theory Simulated_Party
  imports Sim_Traces Random_Generation
begin

section \<open>A protocol over the engine in a state machine\<close>

text \<open>
  A party of the simulation: \<open>state_machine::MpcParty\<close> (\<open>round-based/src/state_machine/mod.rs\<close>) is the
  engine of \<open>round-based/src/mpc/party/mod.rs\<close> whose delivery is the shared state of a state machine.
  The randomness generation protocol over it does what it does over any stream and sink.
\<close>

subsection \<open>The engine over the delivery of the state machine\<close>

text \<open>
  How a party's future ends. \<open>OutOfFuel\<close> is no outcome of the code: the loop of \<open>complete\<close> has no bound
  on the messages it waits for, and the model bounds them by \<open>fuel\<close>.
\<close>

datatype 'a fut_end = Returned 'a | Panicked | OutOfFuel

text \<open>
  \<open>complete\<close>, with what follows it as a continuation of the router and the result. Each turn of the loop
  awaits a message, which suspends the future while there is none.
\<close>

primrec party_complete_loop ::
  "('m \<Rightarrow> u16) \<Rightarrow> ('s, 'rm, 'm, 'o, 'e, 'u) round_type
     \<Rightarrow> (('s, 'rm, 'm, 'o, 'e, 'u) rounds_router \<Rightarrow> ('e, delivery_err) complete_round_error + 'o \<Rightarrow> ('m, 'a fut_end) fut)
     \<Rightarrow> nat \<Rightarrow> ('s, 'rm, 'm, 'o, 'e, 'u) rounds_router \<Rightarrow> ('m, 'a fut_end) fut" where
  "party_complete_loop rnd R cont 0 rt = FDone OutOfFuel"
| "party_complete_loop rnd R cont (Suc fuel) rt =
     FRecv (\<lambda>x. case x of
         None \<Rightarrow> cont rt (Err UnexpectedEof)
       | Some (Err e) \<Rightarrow> cont rt (Err (Io e))
       | Some (Ok incoming) \<Rightarrow>
           (case received_msg rnd rt incoming of
              (rt', Err u) \<Rightarrow> cont rt' (Err (from_UnregisteredRound u))
            | (rt', Ok _) \<Rightarrow>
                (case complete_round rt' R of
                   (rt'', Ok res) \<Rightarrow> cont rt'' (map_err (map_io_err match_never) res)
                 | (rt'', Err w) \<Rightarrow> party_complete_loop rnd R cont fuel rt'')))"

definition party_complete ::
  "('m \<Rightarrow> u16) \<Rightarrow> ('s, 'rm, 'm, 'o, 'e, 'u) round_type
     \<Rightarrow> (('s, 'rm, 'm, 'o, 'e, 'u) rounds_router \<Rightarrow> ('e, delivery_err) complete_round_error + 'o \<Rightarrow> ('m, 'a fut_end) fut)
     \<Rightarrow> nat \<Rightarrow> ('s, 'rm, 'm, 'o, 'e, 'u) rounds_router \<Rightarrow> ('m, 'a fut_end) fut" where
  "party_complete rnd R cont fuel rt =
     (case complete_round rt R of
        (rt', Ok res) \<Rightarrow> cont rt' (map_err (map_io_err match_never) res)
      | (rt', Err w) \<Rightarrow> party_complete_loop rnd R cont fuel rt')"

text \<open>It does what \<open>complete\<close> of the engine does with the same messages in its stream.\<close>

lemma party_complete_loop_after:
  assumes "complete_loop rnd R False (map Ok ms) rt = (rt', ys, res)" and "length ms < fuel"
  shows "case res of
      Pending \<Rightarrow> \<exists>k. fut_after (party_complete_loop rnd R cont fuel rt) ms = ([], FRecv k)
    | Ready c \<Rightarrow> \<exists>suf. ys = map Ok suf \<and> length suf \<le> length ms \<and>
        fut_after (party_complete_loop rnd R cont fuel rt) ms = fut_after (cont rt' c) suf"
  using assms
proof (induction ms arbitrary: rt fuel)
  case Nil
  then obtain f where "fuel = Suc f" by (cases fuel) auto
  then show ?case using Nil by auto
next
  case (Cons m ms)
  then obtain f where f: "fuel = Suc f" "length ms < f" by (cases fuel) auto
  obtain rt1 r where rcv: "received_msg rnd rt m = (rt1, r)" by fastforce
  show ?case
  proof (cases r)
    case (Inl u)
    then show ?thesis using Cons.prems f rcv by auto
  next
    case (Inr u)
    obtain rt2 c where c: "complete_round rt1 R = (rt2, c)" by fastforce
    show ?thesis
    proof (cases c)
      case (Inl w)
      have "complete_loop rnd R False (map Ok ms) rt2 = (rt', ys, res)"
        using Cons.prems(1) rcv Inr c Inl by simp
      from Cons.IH [OF this f(2)] show ?thesis
        using rcv Inr c Inl f(1) by (auto split: poll.splits)
    next
      case 2: (Inr x)
      then show ?thesis using Cons.prems f rcv Inr c by auto
    qed
  qed
qed

lemma party_complete_after:
  assumes "MpcParty_complete rnd p R = (p', res)"
    and "incomings (mp_io p) = \<lparr>st_items = map Ok ms, st_closed = False\<rparr>" and "length ms < fuel"
  shows "case res of
      Pending \<Rightarrow> \<exists>k. fut_after (party_complete rnd R cont fuel (mp_router p)) ms = ([], FRecv k)
    | Ready c \<Rightarrow> \<exists>suf. incomings (mp_io p') = \<lparr>st_items = map Ok suf, st_closed = False\<rparr> \<and>
        length suf \<le> length ms \<and>
        fut_after (party_complete rnd R cont fuel (mp_router p)) ms = fut_after (cont (mp_router p') c) suf"
proof -
  obtain rt c where c: "complete_round (mp_router p) R = (rt, c)" by fastforce
  show ?thesis
  proof (cases c)
    case (Inl w)
    obtain rt' ys r where loop: "complete_loop rnd R False (map Ok ms :: (delivery_err + _) list) rt = (rt', ys, r)"
      using prod_cases3 by blast
    show ?thesis
      using party_complete_loop_after [OF loop assms(3), of cont] assms(1,2) c Inl loop
      by (auto simp: MpcParty_complete_def party_complete_def split: poll.splits)
  next
    case (Inr x)
    then show ?thesis
      using assms(1,2) c by (auto simp: MpcParty_complete_def party_complete_def intro!: exI [of _ ms])
  qed
qed

subsection \<open>The randomness generation protocol as a party of the simulation\<close>

type_synonym rg_outcome =
  "((round_input_error, delivery_err) complete_round_error, delivery_err) rg_error + bytes"

abbreviation recorded_engine where
  "recorded_engine ot et \<equiv> MpcParty_ops rg_round recorder
     (RoundInput_store :: (bytes round_input, bytes, bytes round_msgs, round_input_error, unit) round_store) ot et"

definition party_over ::
  "rg_msg incoming list \<Rightarrow> (bytes round_input, bytes, rg_msg, bytes round_msgs, round_input_error, unit,
     delivery_err, rg_msg outgoing list, unit) mpc_party" where
  "party_over ms = MpcParty_connected () (Halves_new \<lparr>st_items = map Ok ms, st_closed = False\<rparr> [])"

type_synonym rg_router =
  "(bytes round_input, bytes, rg_msg, bytes round_msgs, round_input_error, unit) rounds_router"

type_synonym rg_round_type =
  "(bytes round_input, bytes, rg_msg, bytes round_msgs, round_input_error, unit) round_type"

text \<open>What follows the second and the first \<open>complete\<close>.\<close>

definition rg_after_round2 ::
  "(bytes \<Rightarrow> bytes) \<Rightarrow> bytes \<Rightarrow> bytes round_msgs \<Rightarrow> rg_router
     \<Rightarrow> (round_input_error, delivery_err) complete_round_error + bytes round_msgs
     \<Rightarrow> (rg_msg, rg_outcome fut_end) fut" where
  "rg_after_round2 digest local_randomness commitments rt c =
     (case c of
        Err e \<Rightarrow> FDone (Returned (Err (Round2Receive e)))
      | Ok openings \<Rightarrow> FDone (Returned (open_commitments digest local_randomness commitments openings)))"

definition rg_after_round1 ::
  "(bytes \<Rightarrow> bytes) \<Rightarrow> bytes \<Rightarrow> rg_round_type \<Rightarrow> nat \<Rightarrow> rg_router
     \<Rightarrow> (round_input_error, delivery_err) complete_round_error + bytes round_msgs
     \<Rightarrow> (rg_msg, rg_outcome fut_end) fut" where
  "rg_after_round1 digest local_randomness round2 fuel rt c =
     (case c of
        Err e \<Rightarrow> FDone (Returned (Err (Round1Receive e)))
      | Ok commitments \<Rightarrow>
          FSend (Outgoing_all_parties (DecommitMsg local_randomness)) (\<lambda>r. case r of
              Err e \<Rightarrow> FDone (Returned (Err (Round2Send e)))
            | Ok _ \<Rightarrow> party_complete rg_round round2
                (rg_after_round2 digest local_randomness commitments) fuel rt))"

definition rg_party ::
  "(u16 \<Rightarrow> nat) \<Rightarrow> (u16 \<Rightarrow> nat) \<Rightarrow> nat \<Rightarrow> (bytes \<Rightarrow> bytes) \<Rightarrow> ('g \<Rightarrow> bytes \<Rightarrow> 'g \<times> bytes)
     \<Rightarrow> u16 \<Rightarrow> u16 \<Rightarrow> 'g \<Rightarrow> (rg_msg, rg_outcome fut_end) fut" where
  "rg_party ot et fuel digest fill_bytes i n rng =
     (case define_rounds (recorded_engine ot et) (party_over []) i n of
        Panic \<Rightarrow> FDone Panicked
      | Ret (mpc, round1, round2) \<Rightarrow>
          (let (rng', local_randomness) = fill_bytes rng (replicate 32 0)
           in FSend (Outgoing_reliable_broadcast (CommitMsg (digest local_randomness))) (\<lambda>r. case r of
                  Err e \<Rightarrow> FDone (Returned (Err (Round1Send e)))
                | Ok _ \<Rightarrow> party_complete rg_round round1
                    (rg_after_round1 digest local_randomness round2 fuel) fuel (mp_router mpc))))"

lemma party_over_simps [simp]:
  "mp_router (party_over ms) = RoundsRouter_new" "outgoings (mp_io (party_over ms)) = []"
  "incomings (mp_io (party_over ms)) = \<lparr>st_items = map Ok ms, st_closed = False\<rparr>"
  by (simp_all add: party_over_def MpcParty_connected_def Halves_new_def)

lemma define_rounds_over:
  assumes "2 \<le> n" and "i < n"
  obtains p p0 R1 R2 where
    "define_rounds (recorded_engine ot et) (party_over ms) i n = Ret (p, R1, R2)"
    "define_rounds (recorded_engine ot et) (party_over []) i n = Ret (p0, R1, R2)"
    "mp_router p = mp_router p0" "mp_io p = mp_io (party_over ms)"
proof -
  let ?R = "\<lambda>M. round_type_of RoundInput_store ot et M ::
      (bytes round_input, bytes, rg_msg, bytes round_msgs, round_input_error, unit) round_type"
  obtain s1 s2 p where p: "define_rounds (recorded_engine ot et) (party_over ms) i n = Ret (p, ?R commit_msg, ?R decommit_msg)"
    "RoundInput_new i n (Broadcast True) = Ret s1" "RoundInput_new i n (Broadcast False) = Ret s2"
    "mp_io p = mp_io (party_over ms)" "rounds (mp_router p) =
       [0 \<mapsto> Some \<lparr>br_type = ?R commit_msg, br_state = InProgress s1\<rparr>,
        1 \<mapsto> Some \<lparr>br_type = ?R decommit_msg, br_state = InProgress s2\<rparr>]"
    using define_rounds_party [where p = "party_over ms" and K = recorder and ot = ot and et = et,
        OF assms party_over_simps(1)] .
  obtain t1 t2 p0 where p0: "define_rounds (recorded_engine ot et) (party_over []) i n = Ret (p0, ?R commit_msg, ?R decommit_msg)"
    "RoundInput_new i n (Broadcast True) = Ret t1" "RoundInput_new i n (Broadcast False) = Ret t2"
    "mp_io p0 = mp_io (party_over [])"
    "rounds (mp_router p0) =
       [0 \<mapsto> Some \<lparr>br_type = ?R commit_msg, br_state = InProgress t1\<rparr>,
        1 \<mapsto> Some \<lparr>br_type = ?R decommit_msg, br_state = InProgress t2\<rparr>]"
    using define_rounds_party [where p = "party_over []" and K = recorder and ot = ot and et = et,
        OF assms party_over_simps(1)] .
  have "mp_router p = mp_router p0"
    using p(2,3,5) p0(2,3,5) by (cases "mp_router p"; cases "mp_router p0") simp
  then show thesis using that p(1,4) p0(1) by blast
qed

text \<open>
  The protocol in a state machine does what the protocol does over the engine whose stream holds
  the same messages, whatever they are.
\<close>

lemma complete_outgoings: "MpcParty_complete rnd p R = (p', res) \<Longrightarrow> outgoings (mp_io p') = outgoings (mp_io p)"
  by (auto simp: MpcParty_complete_def Let_def split: prod.splits sum.splits)

definition agrees ::
  "'m outgoing list \<times> ('m, 'a fut_end) fut \<Rightarrow> 'm outgoing list \<Rightarrow> 'a poll \<Rightarrow> bool" where
  "agrees after outs res \<longleftrightarrow> fst after = outs \<and>
     (case res of Ready r \<Rightarrow> snd after = FDone (Returned r) | Pending \<Rightarrow> \<exists>k. snd after = FRecv k)"

lemma agrees_Cons [simp]: "agrees (apfst (Cons m) z) (m # outs) res \<longleftrightarrow> agrees z outs res"
  by (cases z; cases res) (simp_all add: agrees_def)

lemma round2_agrees:
  assumes "poll_round2 (recorded_engine ot et) digest p R2 own commitments = (p', fut', res)"
    and "incomings (mp_io p) = \<lparr>st_items = map Ok ms, st_closed = False\<rparr>" and "length ms < fuel"
  shows "agrees (fut_after (party_complete rg_round R2 (rg_after_round2 digest own commitments) fuel (mp_router p)) ms) [] res \<and>
    outgoings (mp_io p') = outgoings (mp_io p)"
proof -
  obtain p1 r where c: "MpcParty_complete rg_round p R2 = (p1, r)" by fastforce
  show ?thesis
    using party_complete_after [OF c assms(2,3), of "rg_after_round2 digest own commitments"] assms(1) c
      complete_outgoings [OF c]
    by (auto simp: poll_round2_def agrees_def rg_after_round2_def split: poll.splits sum.splits)
qed

lemma round1_agrees:
  assumes "rg_poll (recorded_engine ot et) digest p (AwaitCommitments R1 R2 own) = (p', fut', res)"
    and "incomings (mp_io p) = \<lparr>st_items = map Ok ms, st_closed = False\<rparr>" and "length ms < fuel"
  obtains outs where
    "agrees (fut_after (party_complete rg_round R1 (rg_after_round1 digest own R2 fuel) fuel (mp_router p)) ms) outs res"
    "outgoings (mp_io p') = outgoings (mp_io p) @ outs"
proof -
  obtain p1 r where c: "MpcParty_complete rg_round p R1 = (p1, r)" by fastforce
  note after = party_complete_after [OF c assms(2,3), of "rg_after_round1 digest own R2 fuel"]
  show thesis
  proof (cases "\<exists>commitments. r = Ready (Ok commitments)")
    case True
    then obtain commitments where r: "r = Ready (Ok commitments)" by blast
    obtain suf where suf: "incomings (mp_io p1) = \<lparr>st_items = map Ok suf, st_closed = False\<rparr>"
      "length suf < fuel"
      "fut_after (party_complete rg_round R1 (rg_after_round1 digest own R2 fuel) fuel (mp_router p)) ms =
       fut_after (rg_after_round1 digest own R2 fuel (mp_router p1) (Ok commitments)) suf"
      using after r assms(3) by auto
    let ?p2 = "p1\<lparr>mp_io := (mp_io p1)\<lparr>outgoings := outgoings (mp_io p1) @ [Outgoing_all_parties (DecommitMsg own)]\<rparr>\<rparr>"
    have "poll_round2 (recorded_engine ot et) digest ?p2 R2 own commitments = (p', fut', res)"
      using assms(1) c r by (simp add: rg_poll_def send_to_all_def)
    from round2_agrees [OF this _ suf(2)] suf(1) show thesis
      using that [of "[Outgoing_all_parties (DecommitMsg own)]"] suf(3) complete_outgoings [OF c]
      by (simp add: rg_after_round1_def)
  next
    case False
    then have "agrees (fut_after (party_complete rg_round R1 (rg_after_round1 digest own R2 fuel) fuel (mp_router p)) ms) [] res \<and>
        outgoings (mp_io p') = outgoings (mp_io p)"
      using after assms(1) c complete_outgoings [OF c]
      by (auto simp: rg_poll_def agrees_def rg_after_round1_def split: poll.splits sum.splits)
    then show thesis using that [of "[]"] by simp
  qed
qed

lemma rg_party_agrees:
  assumes idx: "2 \<le> n" "i < n" and fuel: "length ms < fuel"
  obtains x rng' fut x' fut' res where
    "rg_start (recorded_engine ot et) digest fill_bytes (party_over ms) i n rng = Ret (x, rng', Ok fut)"
    "rg_poll (recorded_engine ot et) digest x fut = (x', fut', res)"
    "agrees (fut_after (rg_party ot et fuel digest fill_bytes i n rng) ms) (outgoings (mp_io x')) res"
proof -
  obtain p p0 R1 R2 where defs:
    "define_rounds (recorded_engine ot et) (party_over ms) i n = Ret (p, R1, R2)"
    "define_rounds (recorded_engine ot et) (party_over []) i n = Ret (p0, R1, R2)"
    "mp_router p = mp_router p0" "mp_io p = mp_io (party_over ms)"
    using define_rounds_over [OF idx] .
  obtain rng' own where rng: "fill_bytes rng (replicate 32 0) = (rng', own)" by fastforce
  define x where "x = p\<lparr>mp_io := (mp_io p)\<lparr>outgoings := [Outgoing_reliable_broadcast (CommitMsg (digest own))]\<rparr>\<rparr>"
  obtain x' fut' res where poll: "rg_poll (recorded_engine ot et) digest x (AwaitCommitments R1 R2 own) = (x', fut', res)"
    using prod_cases3 by blast
  have "rg_start (recorded_engine ot et) digest fill_bytes (party_over ms) i n rng =
      Ret (x, rng', Ok (AwaitCommitments R1 R2 own))"
    using defs(1,4) rng by (simp add: rg_start_def reliably_broadcast_def x_def)
  moreover have x: "incomings (mp_io x) = \<lparr>st_items = map Ok ms, st_closed = False\<rparr>" "mp_router x = mp_router p0"
    "outgoings (mp_io x) = [Outgoing_reliable_broadcast (CommitMsg (digest own))]"
    using defs by (simp_all add: x_def)
  obtain outs where
    "agrees (fut_after (party_complete rg_round R1 (rg_after_round1 digest own R2 fuel) fuel (mp_router x)) ms) outs res"
    "outgoings (mp_io x') = outgoings (mp_io x) @ outs"
    using round1_agrees [OF poll x(1) fuel] .
  then have "agrees (fut_after (rg_party ot et fuel digest fill_bytes i n rng) ms) (outgoings (mp_io x')) res"
    using x defs(2) rng by (simp add: rg_party_def)
  ultimately show thesis using that poll by blast
qed

text \<open>Whatever a party receives, it sends its commitment first and at most its opening after it.\<close>

lemma party_complete_sends:
  assumes "\<And>rt c suf. fst (fut_after (cont rt c) suf) \<in> S" and "[] \<in> S"
  shows "fst (fut_after (party_complete rnd R cont fuel rt) ms) \<in> S"
proof -
  have "fst (fut_after (party_complete_loop rnd R cont fuel rt) ms) \<in> S" for rt
    using assms
    by (induction fuel arbitrary: rt ms) (auto split: list.splits prod.splits sum.splits)
  then show ?thesis
    using assms by (auto simp: party_complete_def split: prod.splits sum.splits)
qed

lemma rg_party_sends:
  assumes "2 \<le> n" and "i < n" and own: "snd (fill_bytes rng (replicate 32 0)) = own"
  shows "\<exists>outs. fst (fut_after (rg_party ot et fuel digest fill_bytes i n rng) ms) =
       Outgoing_reliable_broadcast (CommitMsg (digest own)) # outs \<and>
     (outs = [] \<or> outs = [Outgoing_all_parties (DecommitMsg own)])"
proof -
  let ?S = "{[], [Outgoing_all_parties (DecommitMsg own)]}"
  obtain p0 R1 R2 where "define_rounds (recorded_engine ot et) (party_over []) i n = Ret (p0, R1, R2)"
    using define_rounds_over [OF assms(1,2)] by blast
  moreover have "fst (fut_after (party_complete rg_round R2 (rg_after_round2 digest own commitments) fuel rt) suf) \<in> {[]}"
    for commitments rt suf
    by (rule party_complete_sends) (simp_all add: rg_after_round2_def split: sum.splits)
  then have "fst (fut_after (rg_after_round1 digest own R2 fuel rt c) suf) \<in> ?S" for rt c suf
    by (simp add: rg_after_round1_def split: sum.splits)
  then have "fst (fut_after (party_complete rg_round R1 (rg_after_round1 digest own R2 fuel) fuel rt) ms) \<in> ?S" for rt
    by (rule party_complete_sends) simp_all
  ultimately show ?thesis
    using own by (cases "fill_bytes rng (replicate 32 0)") (simp add: rg_party_def)
qed

subsection \<open>Rounds that have a part of their messages\<close>

definition some_each :: "party_index \<Rightarrow> u16 \<Rightarrow> message_type \<Rightarrow> 'm incoming list \<Rightarrow> bool" where
  "some_each i n t ms \<longleftrightarrow>
     list_all (\<lambda>m. is_expected_type_of_msg t (inc_msg_type m)) ms \<and>
     distinct (map inc_sender ms) \<and> set (map inc_sender ms) \<subseteq> {s. s \<noteq> i \<and> s < n}"

definition from_all :: "party_index \<Rightarrow> u16 \<Rightarrow> 'm incoming list \<Rightarrow> bool" where
  "from_all i n ms \<longleftrightarrow> set (map inc_sender ms) = {s. s \<noteq> i \<and> s < n}"

lemma some_each_all: "some_each i n t ms \<Longrightarrow> from_all i n ms \<Longrightarrow> one_each i n t ms"
  by (simp add: some_each_def from_all_def one_each_def)

lemma own_type_is_expected [simp]: "is_expected_type_of_msg t t"
  by (cases "(t, t)" rule: is_expected_type_of_msg.cases) auto

lemma some_each_extends:
  assumes "some_each i n t ms" and "\<not> from_all i n ms"
  obtains rest m where "one_each i n t (ms @ rest @ [m])"
proof -
  let ?missing = "{s. s \<noteq> i \<and> s < n} - set (map inc_sender ms)"
  obtain js where js: "set js = ?missing" "distinct js"
    using finite_distinct_list [of ?missing] by auto
  let ?rest = "map (\<lambda>s. \<lparr>inc_id = 0, inc_sender = s, inc_msg_type = t, inc_msg = undefined\<rparr>) js"
  have "js \<noteq> []" using assms js(1) by (auto simp: some_each_def from_all_def)
  moreover have "one_each i n t (ms @ ?rest)"
    using assms(1) js by (auto simp: some_each_def one_each_def list_all_iff comp_def)
  ultimately show thesis
    using that [of "butlast ?rest" "last ?rest"] by simp
qed

lemma round_input_round_partial:
  assumes new: "RoundInput_new i n t = Ret s0" and some: "some_each i n t ms" "\<not> from_all i n ms"
  shows "\<exists>s. foldl (store_step (plain_input :: ('a round_input, 'a, 'a round_msgs, round_input_error, unit) round_store))
      (InProgress s0) ms = InProgress s"
proof -
  let ?S = "plain_input :: ('a round_input, 'a, 'a round_msgs, round_input_error, unit) round_store"
  obtain rest m where "one_each i n t ((ms @ rest) @ [m])"
    using some_each_extends [OF some] by auto
  from round_input_round_waits [OF new this] obtain s where
    s: "foldl (store_step ?S) (InProgress s0) (ms @ rest) = InProgress s" by blast
  then show ?thesis by (cases "foldl (store_step ?S) (InProgress s0) ms") auto
qed

text \<open>A round that is still in progress once all messages were routed keeps \<open>complete\<close> pending.\<close>

lemma complete_waits:
  fixes p :: "('s, 'rm, 'm, 'o, 'e, 'u, 'ioe, 'k, 'r) mpc_party"
  assumes items: "incomings (mp_io p) = \<lparr>st_items = map Ok ms, st_closed = False\<rparr>"
    and reg: "\<forall>m \<in> set ms. rnd (inc_msg m) \<in> dom (rounds (mp_router p))"
    and wait: "rounds (received_all rnd (mp_router p) ms) (ROUND (rt_msg R)) =
       Some (Some \<lparr>br_type = R, br_state = InProgress s\<rparr>)"
  shows "snd (MpcParty_complete rnd p R) = Pending"
proof -
  obtain b0 s0 where "rounds (mp_router p) (ROUND (rt_msg R)) = Some (Some b0)" "br_state b0 = InProgress s0"
    using in_progress_before [OF wait] by auto
  then have "complete_round (mp_router p) R = (mp_router p, Err R)" by (rule complete_round_waiting)
  moreover have "complete_loop rnd R False (map Ok ms @ [] :: ('ioe + 'm incoming) list) (mp_router p) =
      complete_loop rnd R False [] (received_all rnd (mp_router p) ms)"
    by (rule complete_loop_skip [OF reg wait]) simp
  ultimately show ?thesis by (simp add: MpcParty_complete_def items)
qed

abbreviation rg_type :: "(u16 \<Rightarrow> nat) \<Rightarrow> (u16 \<Rightarrow> nat) \<Rightarrow> (bytes, rg_msg) round_msg \<Rightarrow> rg_round_type" where
  "rg_type ot et M \<equiv> round_type_of RoundInput_store ot et M"

lemma round_waits_partial:
  assumes entry: "rounds rt (ROUND M) = Some (Some \<lparr>br_type = rg_type ot et M, br_state = InProgress s0\<rparr>)"
    and law: "lawful_round_msg (\<lambda>_. True) rg_round M"
    and new: "RoundInput_new i n t = Ret s0"
    and some: "some_each i n t (of_round M ms)" "\<not> from_all i n (of_round M ms)"
  shows "\<exists>s. rounds (received_all rg_round rt ms) (ROUND M) =
       Some (Some \<lparr>br_type = rg_type ot et M, br_state = InProgress s\<rparr>)"
proof -
  let ?ms = "filter (\<lambda>m. rg_round (inc_msg m) = ROUND M) ms"
  have "list_all (\<lambda>m. True \<and> rg_round (inc_msg m) = ROUND (rt_msg (rg_type ot et M))) ?ms"
    by (auto simp: list_all_iff)
  then have "foldl (process_message rg_round (rg_type ot et M)) (InProgress s0) ?ms =
      foldl (store_step (rt_store (rg_type ot et M))) (InProgress s0) (of_round M ms)"
    using process_messages_store_steps [of "\<lambda>_. True" rg_round "rg_type ot et M" ?ms] law
    by (simp add: of_round_def)
  then show ?thesis
    using round_input_round_partial [OF new some] by (auto simp: received_all_rounds entry box_receive_all)
qed

subsection \<open>A party among honest parties\<close>

abbreviation commit_out :: "(bytes \<Rightarrow> bytes) \<Rightarrow> bytes \<Rightarrow> rg_msg outgoing" where
  "commit_out digest x \<equiv> Outgoing_reliable_broadcast (CommitMsg (digest x))"

abbreviation open_out :: "bytes \<Rightarrow> rg_msg outgoing" where
  "open_out x \<equiv> Outgoing_all_parties (DecommitMsg x)"

definition honest_part ::
  "(bytes \<Rightarrow> bytes) \<Rightarrow> bytes list \<Rightarrow> u16 \<Rightarrow> u16 \<Rightarrow> rg_msg incoming list \<Rightarrow> bool" where
  "honest_part digest xs i n ms \<longleftrightarrow>
     some_each i n (Broadcast True) (of_round commit_msg ms) \<and>
     some_each i n (Broadcast False) (of_round decommit_msg ms) \<and>
     (\<forall>m \<in> set ms. inc_msg m = CommitMsg (digest (xs ! unat (inc_sender m))) \<or>
        inc_msg m = DecommitMsg (xs ! unat (inc_sender m)))"

lemma rg_start_over:
  assumes idx: "2 \<le> n" "i < n" and rng: "fill_bytes rng (replicate 32 0) = (rng', own)"
  obtains x s1 s2 where
    "rg_start (recorded_engine ot et) digest fill_bytes (party_over ms) i n rng =
       Ret (x, rng', Ok (AwaitCommitments (rg_type ot et commit_msg) (rg_type ot et decommit_msg) own))"
    "incomings (mp_io x) = \<lparr>st_items = map Ok ms, st_closed = False\<rparr>"
    "outgoings (mp_io x) = [commit_out digest own]"
    "RoundInput_new i n (Broadcast True) = Ret s1" "RoundInput_new i n (Broadcast False) = Ret s2"
    "rounds (mp_router x) =
       [0 \<mapsto> Some \<lparr>br_type = rg_type ot et commit_msg, br_state = InProgress s1\<rparr>,
        1 \<mapsto> Some \<lparr>br_type = rg_type ot et decommit_msg, br_state = InProgress s2\<rparr>]"
proof -
  obtain s1 s2 p where p: "define_rounds (recorded_engine ot et) (party_over ms) i n =
      Ret (p, rg_type ot et commit_msg, rg_type ot et decommit_msg)"
    "RoundInput_new i n (Broadcast True) = Ret s1" "RoundInput_new i n (Broadcast False) = Ret s2"
    "mp_io p = mp_io (party_over ms)" "rounds (mp_router p) =
       [0 \<mapsto> Some \<lparr>br_type = rg_type ot et commit_msg, br_state = InProgress s1\<rparr>,
        1 \<mapsto> Some \<lparr>br_type = rg_type ot et decommit_msg, br_state = InProgress s2\<rparr>]"
    using define_rounds_party [where p = "party_over ms" and K = recorder and ot = ot and et = et,
        OF idx party_over_simps(1)] .
  show thesis
    by (rule that [of "p\<lparr>mp_io := (mp_io p)\<lparr>outgoings := [commit_out digest own]\<rparr>\<rparr>" s1 s2])
      (use p rng in \<open>simp_all add: rg_start_def reliably_broadcast_def\<close>)
qed

lemma rg_registered:
  assumes "rounds rt = [0 \<mapsto> x, 1 \<mapsto> y]"
  shows "\<forall>m \<in> set ms. rg_round (inc_msg m) \<in> dom (rounds rt)"
proof
  fix m assume "m \<in> set ms"
  show "rg_round (inc_msg m) \<in> dom (rounds rt)" by (cases "inc_msg m") (simp_all add: assms)
qed

lemma rg_party_honest:
  fixes ot et :: "u16 \<Rightarrow> nat"
  assumes idx: "2 \<le> n" "i < n" "length xs = unat n" and fuel: "length ms < fuel"
    and rng: "fill_bytes rng (replicate 32 0) = (rng', xs ! unat i)" "length (xs ! unat i) = 32"
    and part: "honest_part digest xs i n ms"
  defines "after \<equiv> fut_after (rg_party ot et fuel digest fill_bytes i n rng) ms"
    and "all1 \<equiv> from_all i n (of_round commit_msg ms)" and "all2 \<equiv> from_all i n (of_round decommit_msg ms)"
  shows "\<not> all1 \<Longrightarrow> fst after = [commit_out digest (xs ! unat i)] \<and> (\<exists>k. snd after = FRecv k)"
    and "all1 \<Longrightarrow> \<not> all2 \<Longrightarrow>
      fst after = [commit_out digest (xs ! unat i), open_out (xs ! unat i)] \<and> (\<exists>k. snd after = FRecv k)"
    and "all1 \<Longrightarrow> all2 \<Longrightarrow> after = ([commit_out digest (xs ! unat i), open_out (xs ! unat i)],
        FDone (Returned (Ok (xor_all xs))))"
proof -
  let ?own = "xs ! unat i"
  note parts = part [unfolded honest_part_def]
  obtain x0 rng0 fut0 x' fut' res where
    start0: "rg_start (recorded_engine ot et) digest fill_bytes (party_over ms) i n rng = Ret (x0, rng0, Ok fut0)" and
    poll0: "rg_poll (recorded_engine ot et) digest x0 fut0 = (x', fut', res)" and
    agrees: "agrees after (outgoings (mp_io x')) res"
    using rg_party_agrees [OF idx(1,2) fuel] unfolding after_def .
  obtain x s1 s2 where
    start: "rg_start (recorded_engine ot et) digest fill_bytes (party_over ms) i n rng =
       Ret (x, rng', Ok (AwaitCommitments (rg_type ot et commit_msg) (rg_type ot et decommit_msg) ?own))"
    and items: "incomings (mp_io x) = \<lparr>st_items = map Ok ms, st_closed = False\<rparr>"
    and out: "outgoings (mp_io x) = [commit_out digest ?own]"
    and new: "RoundInput_new i n (Broadcast True) = Ret s1" "RoundInput_new i n (Broadcast False) = Ret s2"
    and rounds: "rounds (mp_router x) =
       [0 \<mapsto> Some \<lparr>br_type = rg_type ot et commit_msg, br_state = InProgress s1\<rparr>,
        1 \<mapsto> Some \<lparr>br_type = rg_type ot et decommit_msg, br_state = InProgress s2\<rparr>]"
    using rg_start_over [where fill_bytes = fill_bytes and rng = rng, OF idx(1,2) rng(1)] .
  have poll: "rg_poll (recorded_engine ot et) digest x (AwaitCommitments (rg_type ot et commit_msg)
      (rg_type ot et decommit_msg) ?own) = (x', fut', res)"
    using start0 start poll0 by simp
  note reg = rg_registered [OF rounds]
  show "fst after = [commit_out digest ?own] \<and> (\<exists>k. snd after = FRecv k)" if missing: "\<not> all1"
  proof -
    obtain s where "rounds (received_all rg_round (mp_router x) ms) (ROUND commit_msg) =
        Some (Some \<lparr>br_type = rg_type ot et commit_msg, br_state = InProgress s\<rparr>)"
      using round_waits_partial [of "mp_router x" commit_msg ot et, OF _ rg_lawful(1) new(1)] rounds parts missing by (auto simp: all1_def)
    then have "snd (MpcParty_complete rg_round x (rg_type ot et commit_msg)) = Pending"
      using complete_waits [OF items reg] by simp
    then obtain x1 where c: "MpcParty_complete rg_round x (rg_type ot et commit_msg) = (x1, Pending)"
      by (metis prod.collapse)
    then show ?thesis
      using poll agrees complete_outgoings [OF c] out by (auto simp: rg_poll_def agrees_def)
  qed
  show "fst after = [commit_out digest ?own, open_out ?own] \<and> (\<exists>k. snd after = FRecv k)"
    if all: "all1" "\<not> all2"
  proof -
    let ?R1 = "rg_type ot et commit_msg" and ?R2 = "rg_type ot et decommit_msg"
    have "one_each i n (Broadcast True) (of_round commit_msg ms)"
      using some_each_all parts all(1) by (auto simp: all1_def)
    then have fin: "rounds (received_all rg_round (mp_router x) ms) (ROUND (rt_msg ?R1)) = Some (Some
       \<lparr>br_type = ?R1, br_state = Completed (Ok (round_output i n (of_round commit_msg ms)))\<rparr>)"
      using round_completes_through_router [where rt = "mp_router x" and ms = ms and rest = "[]" and R = ?R1
          and valid = "\<lambda>_. True" and rnd = rg_round, OF _ _ _ new(1)] rounds rg_lawful(1)
      by (simp add: of_round_def)
    obtain s where wait: "rounds (received_all rg_round (mp_router x) ms) (ROUND decommit_msg) =
        Some (Some \<lparr>br_type = ?R2, br_state = InProgress s\<rparr>)"
      using round_waits_partial [of "mp_router x" decommit_msg ot et, OF _ rg_lawful(2) new(2)] rounds parts all(2) by (auto simp: all2_def)
    obtain p1 suf where p1: "MpcParty_complete rg_round x ?R1 =
        (p1, Ready (Ok (round_output i n (of_round commit_msg ms))))"
      "incomings (mp_io p1) = \<lparr>st_items = map Ok suf, st_closed = False\<rparr>"
      "outgoings (mp_io p1) = [commit_out digest ?own]" "dom (rounds (mp_router p1)) = dom (rounds (mp_router x))"
      "rounds (received_all rg_round (mp_router p1) suf) 1 = rounds (received_all rg_round (mp_router x) ms) 1"
      "set suf \<subseteq> set ms"
      using complete_among_rounds [where tail = "[]", simplified, OF items reg fin] out by auto
    let ?p2 = "p1\<lparr>mp_io := (mp_io p1)\<lparr>outgoings := [commit_out digest ?own, open_out ?own]\<rparr>\<rparr>"
    have "snd (MpcParty_complete rg_round ?p2 ?R2) = Pending"
      using complete_waits [of ?p2 suf rg_round ?R2 s] p1 wait reg [of suf] by simp
    then obtain p3 where p3: "MpcParty_complete rg_round ?p2 ?R2 = (p3, Pending)"
      by (metis prod.collapse)
    then show ?thesis
      using poll agrees p1(1,3) complete_outgoings [OF p3]
      by (auto simp: rg_poll_def poll_round2_def send_to_all_def agrees_def)
  qed
  show "after = ([commit_out digest ?own, open_out ?own], FDone (Returned (Ok (xor_all xs))))"
    if all: "all1" "all2"
  proof -
    have each: "one_each i n (Broadcast True) (of_round commit_msg ms)"
      "one_each i n (Broadcast False) (of_round decommit_msg ms)"
      using some_each_all parts all by (auto simp: all1_def all2_def)
    have sink: "snd (sink_send recorder k m) = Ok ()" for k and m :: "rg_msg outgoing"
      by (simp add: recorder_def)
    have items0: "incomings (mp_io (party_over ms)) = \<lparr>st_items = map Ok ms @ [], st_closed = False\<rparr>"
      by simp
    have "res = Ready (open_commitments digest ?own (round_output i n (of_round commit_msg ms))
          (round_output i n (of_round decommit_msg ms)))"
      "outgoings (mp_io x') = sent_by_party (recorder :: (_, _, delivery_err) sink) digest ?own []"
      using rg_run [where K = recorder and ot = ot and et = et and digest = digest and fill_bytes = fill_bytes and rng = rng,
          OF idx(1,2) party_over_simps(1) items0 each sink rng(1)] start0 poll0 by auto
    moreover have "open_commitments digest ?own (round_output i n (of_round commit_msg ms))
          (round_output i n (of_round decommit_msg ms)) = (Ok (xor_all xs) :: rg_outcome)"
      by (rule honest_openings [OF idx(2,3) each _ rng(2)]) (use parts in blast)
    ultimately show ?thesis
      using agrees by (cases after) (simp add: agrees_def sent_by_party_def recorder_def Let_def)
  qed
qed

subsection \<open>The two forms agree\<close>

text \<open>A protocol does in a state machine what it does over the engine. Whatever messages a party of
  the randomness generation protocol is handed by its executor - of honest parties or not, well formed
  or not, of any length below the bound - it has sent the same messages and is as far, with the same
  output or error, as the protocol polled over an \<open>MpcParty\<close> whose stream holds these messages. This ties
  the two forms of the protocol and of \<open>complete\<close> together, the one in continuation style that a state
  machine runs and the one that is polled.\<close>

lemma state_machine_party_is_engine_party:
  assumes "2 \<le> n" and "i < n" and "length ms < fuel"
  shows "\<exists>x rng' fut x' fut' res.
    rg_start (recorded_engine ot et) digest fill_bytes (party_over ms) i n rng = Ret (x, rng', Ok fut) \<and>
    rg_poll (recorded_engine ot et) digest x fut = (x', fut', res) \<and>
    (case fut_after (rg_party ot et fuel digest fill_bytes i n rng) ms of (sent, f) \<Rightarrow>
       sent = outgoings (mp_io x') \<and>
       (case res of Ready r \<Rightarrow> f = FDone (Returned r) | Pending \<Rightarrow> \<exists>k. f = FRecv k))"
proof -
  obtain x rng' fut x' fut' res where
    "rg_start (recorded_engine ot et) digest fill_bytes (party_over ms) i n rng = Ret (x, rng', Ok fut)"
    "rg_poll (recorded_engine ot et) digest x fut = (x', fut', res)"
    "agrees (fut_after (rg_party ot et fuel digest fill_bytes i n rng) ms) (outgoings (mp_io x')) res"
    using rg_party_agrees [OF assms] .
  then show ?thesis
    by - (rule exI [of _ x], rule exI [of _ rng'], rule exI [of _ fut], rule exI [of _ x'], rule exI [of _ fut'],
      rule exI [of _ res], simp add: agrees_def case_prod_unfold)
qed

end
