(* ===== verification/Simulated_Protocol.thy ===== *)
theory Simulated_Protocol
  imports Simulated_Party
begin

section \<open>A protocol in the simulation\<close>

text \<open>
  The parts put together as the test \<open>simulation\<close> of \<open>examples/random-generation-protocol/src/lib.rs\<close>
  does: \<open>n\<close> parties of the randomness generation protocol, carried out by \<open>sim::run_with_setup\<close>
  (\<open>round-based/src/sim/mod.rs\<close>). What the parties send to each other is a part of an honest traffic, in
  every consistent run of the network, and no such run is blocked.
\<close>

subsection \<open>The traffic among honest parties\<close>

lemma distinct_by_count: "(\<And>y. length (filter (\<lambda>x. f x = y) xs) \<le> 1) \<Longrightarrow> distinct (map f xs)"
proof (induction xs)
  case (Cons x xs)
  have "length (filter (\<lambda>z. f z = y) xs) \<le> 1" for y
    using Cons.prems [of y] by (auto split: if_splits)
  moreover have "filter (\<lambda>z. f z = f x) xs = []" using Cons.prems [of "f x"] by simp
  ultimately show ?case using Cons.IH by (auto simp: filter_empty_conv)
qed simp

lemma addressed_senders:
  assumes "\<forall>x \<in> set sends. \<exists>rel. out_recipient (snd x) = AllParties rel"
  shows "map fst (filter (\<lambda>c. P (snd (snd c))) (concat (map (addressed i) sends))) =
     map fst (filter (\<lambda>x. unat (fst x) \<noteq> i \<and> P (out_msg (snd x))) sends)"
  using assms by (induction sends) (auto simp: addressed_def)

lemma filter_sent_by:
  "filter (\<lambda>x. fst x = s) (filter (\<lambda>x. unat (fst x) \<noteq> i \<and> P (out_msg (snd x))) sends) =
     (if unat s = i then [] else map (Pair s) (filter (\<lambda>m. P (out_msg m)) (sent_by (unat s) sends)))"
  by (induction sends) (auto simp: sent_by_def word_unat_eq_iff [symmetric])

lemma sent_by_member: "x \<in> set sends \<Longrightarrow> snd x \<in> set (sent_by (unat (fst x)) sends)"
  by (force simp: sent_by_def)

text \<open>Each party sent its commitment, and perhaps its opening.\<close>

definition honest_sends ::
  "(bytes \<Rightarrow> bytes) \<Rightarrow> bytes list \<Rightarrow> u16 \<Rightarrow> (u16 \<times> rg_msg outgoing) list \<Rightarrow> bool" where
  "honest_sends digest xs n sends \<longleftrightarrow> (\<forall>x \<in> set sends. fst x < n) \<and>
     (\<forall>s < n. \<exists>outs. sent_by (unat s) sends = commit_out digest (xs ! unat s) # outs \<and>
        (outs = [] \<or> outs = [open_out (xs ! unat s)]))"

definition traffic_of ::
  "(bytes \<Rightarrow> bytes) \<Rightarrow> bytes list \<Rightarrow> u16 \<Rightarrow> u16 \<times> message_type \<times> rg_msg \<Rightarrow> bool" where
  "traffic_of digest xs s c \<longleftrightarrow> c = (s, Broadcast True, CommitMsg (digest (xs ! unat s))) \<or>
     c = (s, Broadcast False, DecommitMsg (xs ! unat s))"

lemma honest_sent:
  assumes "honest_sends digest xs n sends" and "x \<in> set sends"
  shows "snd x = commit_out digest (xs ! unat (fst x)) \<or> snd x = open_out (xs ! unat (fst x))"
proof -
  have "fst x < n" using assms by (simp add: honest_sends_def)
  then obtain outs where "sent_by (unat (fst x)) sends = commit_out digest (xs ! unat (fst x)) # outs"
    "outs = [] \<or> outs = [open_out (xs ! unat (fst x))]"
    using assms(1) unfolding honest_sends_def by blast
  then show ?thesis using sent_by_member [OF assms(2)] by auto
qed

lemma honest_broadcasts:
  assumes "honest_sends digest xs n sends"
  shows "\<forall>x \<in> set sends. \<exists>rel. out_recipient (snd x) = AllParties rel"
proof
  fix x assume "x \<in> set sends"
  from honest_sent [OF assms this] show "\<exists>rel. out_recipient (snd x) = AllParties rel"
    by (auto simp: Outgoing_reliable_broadcast_def Outgoing_all_parties_def)
qed

lemma honest_traffic:
  assumes "honest_sends digest xs n sends" and "c \<in> set (concat (map (addressed i) sends))"
  shows "fst c < n \<and> unat (fst c) \<noteq> i \<and> traffic_of digest xs (fst c) c"
proof -
  obtain s m where x: "(s, m) \<in> set sends" "c \<in> set (addressed i (s, m))" using assms(2) by auto
  have "s < n" using assms(1) x(1) by (force simp: honest_sends_def)
  moreover have "m = commit_out digest (xs ! unat s) \<or> m = open_out (xs ! unat s)"
    using honest_sent [OF assms(1) x(1)] by simp
  ultimately show ?thesis using x(2)
    by (auto simp: addressed_def traffic_of_def Outgoing_reliable_broadcast_def Outgoing_all_parties_def
             split: if_splits)
qed

lemma honest_once:
  assumes "honest_sends digest xs n sends"
  shows "distinct (map fst (filter (\<lambda>c. rg_round (snd (snd c)) = r) (concat (map (addressed i) sends))))"
  unfolding addressed_senders [OF honest_broadcasts [OF assms], where P = "\<lambda>x. rg_round x = r"]
proof (rule distinct_by_count)
  fix s
  show "length (filter (\<lambda>x. fst x = s)
      (filter (\<lambda>x. unat (fst x) \<noteq> i \<and> rg_round (out_msg (snd x)) = r) sends)) \<le> 1"
  proof (cases "s < n")
    case True
    then obtain outs where "sent_by (unat s) sends = commit_out digest (xs ! unat s) # outs"
      "outs = [] \<or> outs = [open_out (xs ! unat s)]"
      using assms unfolding honest_sends_def by blast
    then have "length (filter (\<lambda>m. rg_round (out_msg m) = r) (sent_by (unat s) sends)) \<le> 1"
      by (elim disjE) (simp_all add: Outgoing_reliable_broadcast_def Outgoing_all_parties_def)
    then show ?thesis unfolding filter_sent_by [where P = "\<lambda>x. rg_round x = r"] by simp
  next
    case False
    then have "filter (\<lambda>x. fst x = s)
      (filter (\<lambda>x. unat (fst x) \<noteq> i \<and> rg_round (out_msg (snd x)) = r) sends) = []"
      using assms by (auto simp: honest_sends_def filter_empty_conv)
    then show ?thesis by simp
  qed
qed

text \<open>Who sent a message of a round to party \<open>i\<close>.\<close>

lemma honest_senders:
  assumes "honest_sends digest xs n sends"
  shows "set (map fst (filter (\<lambda>c. rg_round (snd (snd c)) = 0) (concat (map (addressed i) sends)))) =
      {s. unat s \<noteq> i \<and> s < n}"
    and "\<forall>s < n. open_out (xs ! unat s) \<in> set (sent_by (unat s) sends) \<Longrightarrow>
      set (map fst (filter (\<lambda>c. rg_round (snd (snd c)) = 1) (concat (map (addressed i) sends)))) =
      {s. unat s \<noteq> i \<and> s < n}"
proof -
  have senders: "set (map fst (filter (\<lambda>c. rg_round (snd (snd c)) = r) (concat (map (addressed i) sends)))) =
      {s. unat s \<noteq> i \<and> s < n}"
    if m: "\<forall>s < n. \<exists>m \<in> set (sent_by (unat s) sends). rg_round (out_msg m) = r" for r
    unfolding addressed_senders [OF honest_broadcasts [OF assms], where P = "\<lambda>x. rg_round x = r"]
  proof (intro equalityI subsetI)
    fix s assume "s \<in> {s. unat s \<noteq> i \<and> s < n}"
    then have s: "unat s \<noteq> i" "s < n" by simp_all
    then obtain m where "m \<in> set (sent_by (unat s) sends)" "rg_round (out_msg m) = r" using m by blast
    then have "(s, m) \<in> set sends" by (auto simp: sent_by_def word_unat_eq_iff [symmetric])
    then show "s \<in> set (map fst (filter (\<lambda>x. unat (fst x) \<noteq> i \<and> rg_round (out_msg (snd x)) = r) sends))"
      using s \<open>rg_round (out_msg m) = r\<close> by force
  qed (use assms in \<open>auto simp: honest_sends_def\<close>)
  show "set (map fst (filter (\<lambda>c. rg_round (snd (snd c)) = 0) (concat (map (addressed i) sends)))) =
      {s. unat s \<noteq> i \<and> s < n}"
    by (rule senders) (use assms in \<open>force simp: honest_sends_def Outgoing_reliable_broadcast_def\<close>)
  show "set (map fst (filter (\<lambda>c. rg_round (snd (snd c)) = 1) (concat (map (addressed i) sends)))) =
      {s. unat s \<noteq> i \<and> s < n}" if "\<forall>s < n. open_out (xs ! unat s) \<in> set (sent_by (unat s) sends)"
    by (rule senders) (use that in \<open>force simp: Outgoing_all_parties_def\<close>)
qed

text \<open>What party \<open>i\<close> received, as a part of that traffic.\<close>

lemma senders_of_round:
  "map inc_sender (of_round M ms) =
     map fst (filter (\<lambda>c. rg_round (snd (snd c)) = ROUND M) (map content ms))"
  by (induction ms) (simp_all add: of_round_def content_def)

definition received_part ::
  "(bytes \<Rightarrow> bytes) \<Rightarrow> bytes list \<Rightarrow> u16 \<Rightarrow> (u16 \<times> rg_msg outgoing) list \<Rightarrow> u16
     \<Rightarrow> rg_msg incoming list \<Rightarrow> (u16 \<times> message_type \<times> rg_msg) list \<Rightarrow> bool" where
  "received_part digest xs n sends i ms rest \<longleftrightarrow>
     honest_sends digest xs n sends \<and> map content ms @ rest = concat (map (addressed (unat i)) sends)"

lemma received_traffic:
  assumes "received_part digest xs n sends i ms rest" and "m \<in> set ms"
  shows "inc_sender m < n \<and> inc_sender m \<noteq> i \<and> traffic_of digest xs (inc_sender m) (content m)"
proof -
  have "content m \<in> set (concat (map (addressed (unat i)) sends))"
    using assms unfolding received_part_def by (metis Un_iff image_eqI list.set_map set_append)
  moreover have "honest_sends digest xs n sends" using assms(1) by (simp add: received_part_def)
  ultimately have "fst (content m) < n \<and> unat (fst (content m)) \<noteq> unat i \<and>
      traffic_of digest xs (fst (content m)) (content m)" by (rule honest_traffic [rotated])
  then show ?thesis by (auto simp: content_def)
qed

lemma received_some_each:
  assumes received: "received_part digest xs n sends i ms rest"
  shows "some_each i n (Broadcast True) (of_round commit_msg ms)"
    and "some_each i n (Broadcast False) (of_round decommit_msg ms)"
proof -
  have honest: "honest_sends digest xs n sends" and part: "map content ms @ rest = concat (map (addressed (unat i)) sends)"
    using received by (simp_all add: received_part_def)
  have once: "distinct (map inc_sender (of_round M ms))" for M :: "(bytes, rg_msg) round_msg"
    using honest_once [OF honest, of "ROUND M" "unat i"] unfolding senders_of_round part [symmetric] by simp
  have member: "\<exists>m' \<in> set ms. rg_round (inc_msg m') = ROUND M \<and> inc_sender m = inc_sender m' \<and>
      inc_msg_type m = inc_msg_type m'" if "m \<in> set (of_round M ms)" for m and M :: "(bytes, rg_msg) round_msg"
    using that by (auto simp: of_round_def)
  have from_others: "inc_sender m \<noteq> i \<and> inc_sender m < n" if "m \<in> set (of_round M ms)" for m and M :: "(bytes, rg_msg) round_msg"
    using member [OF that] received_traffic [OF received] by metis
  have "is_expected_type_of_msg (Broadcast True) (inc_msg_type m)" if "m \<in> set (of_round commit_msg ms)" for m
    using member [OF that] received_traffic [OF received] by (fastforce simp: traffic_of_def content_def)
  moreover have "is_expected_type_of_msg (Broadcast False) (inc_msg_type m)" if "m \<in> set (of_round decommit_msg ms)" for m
    using member [OF that] received_traffic [OF received] by (fastforce simp: traffic_of_def content_def)
  ultimately show "some_each i n (Broadcast True) (of_round commit_msg ms)"
    "some_each i n (Broadcast False) (of_round decommit_msg ms)"
    using once from_others by (simp_all add: some_each_def list_all_iff image_subset_iff)
qed

lemma received_honest_part:
  assumes "received_part digest xs n sends i ms rest"
  shows "honest_part digest xs i n ms"
  unfolding honest_part_def
  using received_some_each [OF assms] received_traffic [OF assms] by (fastforce simp: traffic_of_def content_def)

lemma received_all_commits:
  assumes "received_part digest xs n sends i ms []"
  shows "from_all i n (of_round commit_msg ms)"
  using honest_senders(1) [of digest xs n sends "unat i"] assms
  by (simp add: received_part_def from_all_def senders_of_round word_unat_eq_iff [symmetric] del: set_map set_filter)

lemma received_all_openings:
  assumes "received_part digest xs n sends i ms []"
    and "\<forall>s < n. open_out (xs ! unat s) \<in> set (sent_by (unat s) sends)"
  shows "from_all i n (of_round decommit_msg ms)"
  using honest_senders(2) [of digest xs n sends "unat i"] assms
  by (simp add: received_part_def from_all_def senders_of_round word_unat_eq_iff [symmetric] del: set_map set_filter)

lemma of_round_lengths: "length (of_round commit_msg ms) + length (of_round decommit_msg ms) = length ms"
proof (induction ms)
  case (Cons m ms)
  then show ?case by (cases "inc_msg m") (simp_all add: of_round_def)
qed (simp add: of_round_def)

lemma some_each_length: "some_each i n t ms \<Longrightarrow> length ms \<le> unat n"
proof -
  assume a: "some_each i n t ms"
  then have "length ms = card (set (map inc_sender ms))"
    by (simp add: some_each_def distinct_card del: set_map)
  also have "\<dots> \<le> card {s. s < n}"
    using a by (intro card_mono) (auto simp: some_each_def)
  also have "\<dots> = card (unat ` {s. s < n})"
    by (rule card_image [symmetric]) (simp add: inj_on_def word_unat_eq_iff [symmetric])
  also have "\<dots> \<le> card {..<unat n}"
    by (intro card_mono) (auto simp: word_less_nat_alt)
  finally show ?thesis by simp
qed

lemma honest_part_length: "honest_part digest xs i n ms \<Longrightarrow> length ms \<le> 2 * unat n"
  using some_each_length [of i n _ "of_round commit_msg ms"] some_each_length [of i n _ "of_round decommit_msg ms"]
    of_round_lengths [of ms] by (fastforce simp: honest_part_def)

subsection \<open>All parties honest\<close>

lemma run_with_setup_eq:
  "run_with_setup resume fuel passes setups party_start =
     Simulation_run (async_ops resume) fuel passes
       (map (\<lambda>i. Active (wrap_protocol (party_start (of_nat i) (setups ! i))) False) [0..<length setups])"
proof -
  have "zip setups (map of_nat [0..<length setups]) = map (\<lambda>i. (setups ! i, of_nat i :: u16)) [0..<length setups]"
    by (rule nth_equalityI) simp_all
  then show ?thesis
    by (simp add: run_with_setup_def case_prod_unfold foldl_add_party Simulation_empty_def comp_def)
qed

text \<open>
  Party \<open>i\<close> draws \<open>xs ! i\<close> from its generator \<open>rngs ! i\<close>; \<open>k\<close> bounds the messages that one \<open>complete\<close> waits for.
\<close>

definition rg_setup ::
  "nat \<Rightarrow> ('g \<Rightarrow> bytes \<Rightarrow> 'g \<times> bytes) \<Rightarrow> u16 \<Rightarrow> 'g list \<Rightarrow> bytes list \<Rightarrow> bool" where
  "rg_setup k fill_bytes n rngs xs \<longleftrightarrow> 2 \<le> n \<and> 2 * unat n < k \<and> length rngs = unat n \<and> length xs = unat n \<and>
     (\<forall>i < unat n. snd (fill_bytes (rngs ! i) (replicate 32 0)) = xs ! i \<and> length (xs ! i) = 32)"

definition rg_net ::
  "(u16 \<Rightarrow> nat) \<Rightarrow> (u16 \<Rightarrow> nat) \<Rightarrow> nat \<Rightarrow> (bytes \<Rightarrow> bytes) \<Rightarrow> ('g \<Rightarrow> bytes \<Rightarrow> 'g \<times> bytes)
     \<Rightarrow> u16 \<Rightarrow> 'g list \<Rightarrow> nat \<Rightarrow> (rg_msg, rg_outcome fut_end) fut" where
  "rg_net ot et k digest fill_bytes n rngs i = rg_party ot et k digest fill_bytes (of_nat i) n (rngs ! i)"

lemma rg_index: "i < unat n \<Longrightarrow> unat (of_nat i :: u16) = i" "i < unat n \<Longrightarrow> (of_nat i :: u16) < n"
  using unat_u16_bound [of n] by (simp_all add: unat_of_nat_u16 word_less_nat_alt)

lemma rg_net_sends:
  assumes net: "rg_setup k fill_bytes n rngs xs" and i: "i < unat n"
  shows "\<exists>outs. fst (fut_after (rg_net ot et k digest fill_bytes n rngs i) ms) = commit_out digest (xs ! i) # outs \<and>
     (outs = [] \<or> outs = [open_out (xs ! i)])"
proof -
  have "2 \<le> n" "snd (fill_bytes (rngs ! i) (replicate 32 0)) = xs ! i"
    using net i by (simp_all add: rg_setup_def)
  then show ?thesis unfolding rg_net_def by (rule rg_party_sends [OF _ rg_index(2) [OF i]])
qed

lemma rg_net_addressed:
  assumes net: "rg_setup k fill_bytes n rngs xs"
  shows "\<not> misaddressed (rg_net ot et k digest fill_bytes n rngs) (unat n)"
proof
  assume "misaddressed (rg_net ot et k digest fill_bytes n rngs) (unat n)"
  then obtain i ins m d where i: "i < unat n"
    and m: "m \<in> set (fst (fut_after (rg_net ot et k digest fill_bytes n rngs i) ins))" "out_recipient m = OneParty d"
    unfolding misaddressed_def by blast
  from rg_net_sends [OF net i, of ot et digest ins] m show False
    by (auto simp: Outgoing_reliable_broadcast_def Outgoing_all_parties_def)
qed

lemma rg_net_honest:
  assumes net: "rg_setup k fill_bytes n rngs xs"
    and run: "consistent_run (rg_net ot et k digest fill_bytes n rngs) (unat n) sends got"
  shows "honest_sends digest xs n sends"
  unfolding honest_sends_def
proof (intro conjI allI impI ballI)
  fix x assume "x \<in> set sends"
  then show "fst x < n" using run by (simp add: consistent_run_def word_less_nat_alt)
next
  fix s assume "s < n"
  then have s: "unat s < unat n" by (simp add: word_less_nat_alt)
  then have "sent_by (unat s) sends =
      fst (fut_after (rg_net ot et k digest fill_bytes n rngs (unat s)) (got (unat s)))"
    using run by (simp add: consistent_run_def)
  then show "\<exists>outs. sent_by (unat s) sends = commit_out digest (xs ! unat s) # outs \<and>
      (outs = [] \<or> outs = [open_out (xs ! unat s)])"
    using rg_net_sends [OF net s] by simp
qed

lemma rg_net_part:
  assumes net: "rg_setup k fill_bytes n rngs xs"
    and run: "consistent_run (rg_net ot et k digest fill_bytes n rngs) (unat n) sends got" and i: "i < unat n"
  shows "honest_part digest xs (of_nat i) n (got i)"
proof -
  obtain rest where "received_part digest xs n sends (of_nat i) (got i) rest"
    using run rg_net_honest [OF net run] rg_index [OF i] i
    by (auto simp: received_part_def consistent_run_def)
  then show ?thesis by (rule received_honest_part)
qed

text \<open>Where a party is, by the rounds it has all messages of.\<close>

lemma rg_net_after:
  fixes ot et :: "u16 \<Rightarrow> nat"
  assumes net: "rg_setup k fill_bytes n rngs xs" and i: "i < unat n"
    and part: "honest_part digest xs (of_nat i) n ms"
  defines "after \<equiv> fut_after (rg_net ot et k digest fill_bytes n rngs i) ms"
    and "all1 \<equiv> from_all (of_nat i) n (of_round commit_msg ms)"
    and "all2 \<equiv> from_all (of_nat i) n (of_round decommit_msg ms)"
  shows "\<not> (all1 \<and> all2) \<Longrightarrow> \<exists>c. snd after = FRecv c"
    and "all1 \<Longrightarrow> open_out (xs ! i) \<in> set (fst after)"
    and "all1 \<Longrightarrow> all2 \<Longrightarrow> snd after = FDone (Returned (Ok (xor_all xs)))"
proof -
  note net' = net [unfolded rg_setup_def]
  obtain rng' where rng: "fill_bytes (rngs ! i) (replicate 32 0) = (rng', xs ! unat (of_nat i :: u16))"
    using net' i rg_index [OF i] by (metis prod.collapse)
  have "length ms < k" using honest_part_length [OF part] net' by simp
  moreover have "length (xs ! unat (of_nat i :: u16)) = 32" using net' i rg_index [OF i] by simp
  ultimately have outcome:
    "\<not> all1 \<Longrightarrow> fst after = [commit_out digest (xs ! i)] \<and> (\<exists>k. snd after = FRecv k)"
    "all1 \<Longrightarrow> \<not> all2 \<Longrightarrow> fst after = [commit_out digest (xs ! i), open_out (xs ! i)] \<and> (\<exists>k. snd after = FRecv k)"
    "all1 \<Longrightarrow> all2 \<Longrightarrow> after = ([commit_out digest (xs ! i), open_out (xs ! i)], FDone (Returned (Ok (xor_all xs))))"
    using rg_party_honest [where fill_bytes = fill_bytes and rng = "rngs ! i" and ot = ot and et = et,
        OF _ rg_index(2) [OF i] _ _ rng _ part] net' rg_index [OF i]
    unfolding after_def all1_def all2_def rg_net_def by simp_all
  show "\<not> (all1 \<and> all2) \<Longrightarrow> \<exists>c. snd after = FRecv c" using outcome(1,2) by blast
  show "all1 \<Longrightarrow> open_out (xs ! i) \<in> set (fst after)" using outcome(2,3) by (cases all2) simp_all
  show "all1 \<Longrightarrow> all2 \<Longrightarrow> snd after = FDone (Returned (Ok (xor_all xs)))" using outcome(3) by simp
qed

lemma rg_net_not_blocked:
  assumes net: "rg_setup k fill_bytes n rngs xs"
    and run: "consistent_run (rg_net ot et k digest fill_bytes n rngs) (unat n) sends got"
  shows "\<not> blocked (rg_net ot et k digest fill_bytes n rngs) (unat n) sends got"
proof
  let ?F = "rg_net ot et k digest fill_bytes n rngs"
  assume "blocked ?F (unat n) sends got"
  then have each: "\<And>i. i < unat n \<Longrightarrow> (\<exists>out. snd (fut_after (?F i) (got i)) = FDone out) \<or>
      map content (got i) = concat (map (addressed i) sends)"
    and "\<exists>i < unat n. \<exists>c. snd (fut_after (?F i) (got i)) = FRecv c"
    by (simp_all add: blocked_def)
  then obtain j c where j: "j < unat n" "snd (fut_after (?F j) (got j)) = FRecv c" by blast
  note part = rg_net_part [OF net run]
  have all: "received_part digest xs n sends (of_nat i) (got i) []"
    if "i < unat n" "map content (got i) = concat (map (addressed i) sends)" for i
    using that rg_net_honest [OF net run] rg_index [OF that(1)] by (simp add: received_part_def)
  have opened: "open_out (xs ! i) \<in> set (sent_by i sends)" if i: "i < unat n" for i
  proof -
    have "from_all (of_nat i) n (of_round commit_msg (got i))"
      using each [OF i] rg_net_after(1) [OF net i part [OF i], of ot et] received_all_commits [OF all [OF i]] by force
    then show ?thesis
      using rg_net_after(2) [OF net i part [OF i], of ot et] run i by (simp add: consistent_run_def)
  qed
  then have "\<forall>s < n. open_out (xs ! unat s) \<in> set (sent_by (unat s) sends)"
    by (simp add: word_less_nat_alt)
  moreover have "received_part digest xs n sends (of_nat j) (got j) []"
    using each [OF j(1)] j all by auto
  ultimately show False
    using rg_net_after(3) [OF net j(1) part [OF j(1)], of ot et] j(2) received_all_commits received_all_openings
    by force
qed

lemma rg_net_run:
  assumes net: "rg_setup k fill_bytes n rngs xs"
  shows "\<exists>fuel passes. run_with_setup fut_resume fuel passes rngs (\<lambda>i rng. rg_party ot et k digest fill_bytes i n rng) =
     Some (Ret (Ok (replicate (unat n) (Returned (Ok (xor_all xs))))))"
proof -
  let ?F = "rg_net ot et k digest fill_bytes n rngs"
  have "unat n \<le> 65536" using unat_u16_bound [of n] by simp
  from Simulation_run_outcome [OF this rg_net_addressed [OF net, of ot et digest]]
  obtain sends got fuel passes outs where
    run: "consistent_run ?F (unat n) sends got" and
    sim: "Simulation_run fut_ops fuel passes (map (\<lambda>i. Active (wrap_protocol (?F i)) False) [0..<unat n]) =
      Some (Ret (Ok outs))" and
    outs: "length outs = unat n" "\<forall>i < unat n. snd (fut_after (?F i) (got i)) = FDone (outs ! i)"
    using rg_net_not_blocked [OF net] by blast
  have "outs ! i = Returned (Ok (xor_all xs))" if i: "i < unat n" for i
    using rg_net_after(1,3) [OF net i rg_net_part [OF net run i], of ot et] outs(2) i by force
  then have "outs = replicate (unat n) (Returned (Ok (xor_all xs)))"
    using outs(1) by (intro nth_equalityI) simp_all
  then show ?thesis
    using sim net by (auto simp: run_with_setup_eq rg_net_def rg_setup_def)
qed

lemma expect_replicate:
  "expect_ok (replicate k (Ok x)) = Ret (replicate k x)" "0 < k \<Longrightarrow> expect_eq (replicate k x) = Ret x"
proof -
  have "[x. Ok x \<leftarrow> replicate k (Ok x)] = replicate k x" by (induction k) simp_all
  then show "expect_ok (replicate k (Ok x)) = Ret (replicate k x)" by (auto simp: expect_ok_eq)
  show "0 < k \<Longrightarrow> expect_eq (replicate k x) = Ret x" by (cases k) (simp_all add: expect_eq_Cons)
qed

subsection \<open>Properties\<close>

text \<open>C1: The simulation of the randomness generation protocol succeeds. For any number \<open>n \<ge> 2\<close> of parties,
  any hash function and any 32 bytes that each party draws, \<open>sim::run_with_setup\<close> over the protocol
  returns, for every fuel above a bound: no party fails, times out or is stuck, \<open>expect_ok\<close> and
  \<open>expect_eq\<close> do not panic, and the common output is the xor of what all parties drew. This covers
  the queues, the state machines, the router, the stores, the engine and the protocol together.\<close>

theorem simulated_random_generation:
  assumes "rg_setup k fill_bytes n rngs xs"
  shows "\<exists>bound. \<forall>fuel \<ge> bound. \<forall>passes \<ge> bound. \<exists>rs outs.
     run_with_setup fut_resume fuel passes rngs (\<lambda>i rng. rg_party ot et k digest fill_bytes i n rng) =
       Some (Ret (Ok (map Returned rs))) \<and>
     length rs = unat n \<and> expect_ok rs = Ret outs \<and> expect_eq outs = Ret (xor_all xs)"
proof -
  let ?rs = "replicate (unat n) (Ok (xor_all xs)) :: rg_outcome list"
  obtain fuel passes where run:
    "run_with_setup fut_resume fuel passes rngs (\<lambda>i rng. rg_party ot et k digest fill_bytes i n rng) =
       Some (Ret (Ok (replicate (unat n) (Returned (Ok (xor_all xs))))))"
    using rg_net_run [OF assms] by blast
  have "0 < unat n" using assms by (simp add: rg_setup_def word_le_nat_alt)
  then have "expect_ok ?rs = Ret (replicate (unat n) (xor_all xs))"
    "expect_eq (replicate (unat n) (xor_all xs)) = Ret (xor_all xs)"
    by (simp_all add: expect_replicate)
  moreover have "run_with_setup fut_resume fuel' passes' rngs (\<lambda>i rng. rg_party ot et k digest fill_bytes i n rng) =
       Some (Ret (Ok (map Returned ?rs)))" if "max fuel passes \<le> fuel'" "max fuel passes \<le> passes'" for fuel' passes'
    using Simulation_run_mono [OF run [unfolded run_with_setup_eq], of fuel' passes'] that
    by (simp add: run_with_setup_eq)
  ultimately show ?thesis by (intro exI [of _ "max fuel passes"]) (metis length_replicate)
qed

theorem simulated_random_generation_witness:
  "\<exists>fuel passes rs outs.
     run_with_setup fut_resume fuel passes [7, 8 :: u8]
       (\<lambda>i rng. rg_party unat unat 5 id (\<lambda>b zeros. (b, map (\<lambda>_. b) zeros)) i 2 rng) = Some (Ret (Ok (map Returned rs))) \<and>
     expect_ok rs = Ret outs \<and> expect_eq outs = Ret (replicate 32 15)"
proof -
  have net: "rg_setup 5 (\<lambda>b zeros. (b, map (\<lambda>_. b) zeros)) 2 [7, 8 :: u8] [replicate 32 7, replicate 32 8]"
    by (auto simp: rg_setup_def less_2_cases_iff map_replicate_const)
  have x: "xor_all [replicate 32 7, replicate 32 8] = replicate 32 15"
    by (rule nth_equalityI) (simp_all add: xor_all_def nth_xor_into)
  show ?thesis
    using simulated_random_generation [OF net, of unat unat id] unfolding x by (elim exE) blast
qed

end
