(* ===== verification/Echo_Party.thy ===== *)
theory Echo_Party
  imports Echo_Broadcast
begin

section \<open>Echo broadcast over the engine\<close>

text \<open>
  \<open>WithEchoBroadcast\<close> (\<open>round-based/src/echo_broadcast/mod.rs\<close>) around \<open>MpcParty\<close>
  (\<open>round-based/src/mpc/party/mod.rs\<close>): the router of the engine holds plain rounds, main rounds and echo
  rounds side by side. Their boxes \<open>Box<dyn ProcessRoundMessage>\<close> are the three constructors of one type,
  and a call through a box is the case distinction over it.
\<close>

subsection \<open>The rounds of a wrapped protocol\<close>

datatype ('s, 'o, 'm, 'd) wrapped_store =
  PlainRound 's
| MainRound "('s, 'o, 'm) main_round"
| EchoRound "'d echo_round"

datatype ('rm, 'd) wrapped_msg = MainPart "'rm sub_main" | EchoPart "'d sub_echo"

datatype ('o, 'm, 'd) wrapped_output =
  PlainOutput 'o
| MainOutput "('o, 'm) needs_own_msg"
| EchoOutput "'d round_msgs"

text \<open>
  The stores that \<open>add_round\<close> hands to the engine: \<open>WithError<WithMainMsg<R>>\<close>, \<open>WithMainMsg<MainRound>\<close> and
  \<open>WithEchoError<EchoRound>\<close>. The types of Rust exclude that a store is handed a message of another kind.
\<close>

definition wrapped_add_message ::
  "('s, 'rm, 'o, 'e, 'u) round_store \<Rightarrow> ('rm, 'm) round_msg \<Rightarrow> ('s, 'o, 'm, 'd) wrapped_store
     \<Rightarrow> ('rm, 'd) wrapped_msg incoming \<Rightarrow> ('s, 'o, 'm, 'd) wrapped_store \<times> ('e with_echo_error + unit)" where
  "wrapped_add_message S M self m =
     (case (self, inc_msg m) of
        (PlainRound s, MainPart x) \<Rightarrow> map_prod PlainRound id
          (rs_add_message (WithError_store (WithMainMsg_store S)) s (Incoming_map (\<lambda>_. x) m))
      | (MainRound s, MainPart x) \<Rightarrow> map_prod MainRound id
          (rs_add_message (WithMainMsg_store (MainRound_store S M)) s (Incoming_map (\<lambda>_. x) m))
      | (EchoRound s, EchoPart x) \<Rightarrow> map_prod EchoRound id
          (rs_add_message (WithEchoError_store (EchoRound_store :: (_, _, _, _, unit) round_store)) s
             (Incoming_map (\<lambda>_. x) m))
      | _ \<Rightarrow> (self, Ok ()))"

fun wrapped_wants_more :: "('s, 'rm, 'o, 'e, 'u) round_store \<Rightarrow> ('s, 'o, 'm, 'd) wrapped_store \<Rightarrow> bool" where
  "wrapped_wants_more S (PlainRound s) = rs_wants_more S s"
| "wrapped_wants_more S (MainRound s) = MainRound_wants_more s"
| "wrapped_wants_more S (EchoRound s) = EchoRound_wants_more s"

fun wrapped_output_of ::
  "('s, 'rm, 'o, 'e, 'u) round_store \<Rightarrow> ('s, 'o, 'm, 'd) wrapped_store
     \<Rightarrow> ('s, 'o, 'm, 'd) wrapped_store + ('o, 'm, 'd) wrapped_output" where
  "wrapped_output_of S (PlainRound s) = map_err PlainRound (map_ok PlainOutput (rs_output S s))"
| "wrapped_output_of S (MainRound s) = map_err MainRound (map_ok MainOutput (MainRound_output s))"
| "wrapped_output_of S (EchoRound s) = map_err EchoRound (map_ok EchoOutput (EchoRound_output s))"

definition wrapped_round_store ::
  "('s, 'rm, 'o, 'e, 'u) round_store \<Rightarrow> ('rm, 'm) round_msg
     \<Rightarrow> (('s, 'o, 'm, 'd) wrapped_store, ('rm, 'd) wrapped_msg, ('o, 'm, 'd) wrapped_output,
         'e with_echo_error, 'u) round_store" where
  "wrapped_round_store S M =
     \<lparr>rs_add_message = wrapped_add_message S M, rs_wants_more = wrapped_wants_more S,
      rs_output = wrapped_output_of S, rs_read_any_prop = default_read_any_prop\<rparr>"

text \<open>The conversions of the main and of the echo messages of a round.\<close>

fun wrapped_to_msg :: "('rm, 'm) round_msg \<Rightarrow> ('rm, 'd) wrapped_msg \<Rightarrow> ('d, 'm) echo_msg" where
  "wrapped_to_msg M (MainPart x) = to_protocol_msg (main_round_msg M) x"
| "wrapped_to_msg M (EchoPart x) = to_protocol_msg (echo_round_msg M) x"

definition main_part :: "('rm, 'm) round_msg \<Rightarrow> (('rm, 'd) wrapped_msg, ('d, 'm) echo_msg) round_msg" where
  "main_part M =
     \<lparr>ROUND = 2 * ROUND M, to_protocol_msg = wrapped_to_msg M,
      from_protocol_msg = (\<lambda>p. map_ok MainPart (from_protocol_msg (main_round_msg M) p))\<rparr>"

definition echo_part :: "('rm, 'm) round_msg \<Rightarrow> (('rm, 'd) wrapped_msg, ('d, 'm) echo_msg) round_msg" where
  "echo_part M =
     \<lparr>ROUND = 2 * ROUND M + 1, to_protocol_msg = wrapped_to_msg M,
      from_protocol_msg = (\<lambda>p. map_ok EchoPart (from_protocol_msg (echo_round_msg M) p))\<rparr>"

subsection \<open>The engine\<close>

type_synonym ('s, 'rm, 'm, 'o, 'e, 'u, 'd, 'ioe, 'k, 'r) wrapped_party =
  "(('s, 'o, 'm, 'd) wrapped_store, ('rm, 'd) wrapped_msg, ('d, 'm) echo_msg, ('o, 'm, 'd) wrapped_output,
    'e with_echo_error, 'u, 'ioe, 'k, 'r) mpc_party"

type_synonym ('s, 'rm, 'm, 'o, 'e, 'u, 'd) wrapped_round =
  "(('s, 'o, 'm, 'd) wrapped_store, ('rm, 'd) wrapped_msg, ('d, 'm) echo_msg, ('o, 'm, 'd) wrapped_output,
    'e with_echo_error, 'u) round_type"

text \<open>
  The result of a round at the type of its witness. An output of another type is what the router
  reports as \<open>MismatchedOutputType\<close>.
\<close>

definition output_as ::
  "('x \<Rightarrow> 'y option) \<Rightarrow> 'p \<times> (('e, 'ioe) complete_round_error + 'x) poll
     \<Rightarrow> 'p \<times> (('e, 'ioe) complete_round_error + 'y) poll" where
  "output_as the_output r =
     (case r of
        (p, Pending) \<Rightarrow> (p, Pending)
      | (p, Ready (Err e)) \<Rightarrow> (p, Ready (Err e))
      | (p, Ready (Ok x)) \<Rightarrow>
          (p, Ready (case the_output x of Some y \<Rightarrow> Ok y | None \<Rightarrow> Err (from_Bug MismatchedOutputType))))"

fun plain_output :: "('o, 'm, 'd) wrapped_output \<Rightarrow> 'o option" where
  "plain_output (PlainOutput x) = Some x" | "plain_output _ = None"

fun main_output :: "('o, 'm, 'd) wrapped_output \<Rightarrow> ('o, 'm) needs_own_msg option" where
  "main_output (MainOutput x) = Some x" | "main_output _ = None"

fun echo_output :: "('o, 'm, 'd) wrapped_output \<Rightarrow> 'd round_msgs option" where
  "echo_output (EchoOutput x) = Some x" | "echo_output _ = None"

text \<open>The types of the rounds, with the type tags \<open>ot\<close> and \<open>et\<close>.\<close>

abbreviation main_round_type where
  "main_round_type S ot et M \<equiv> round_type_of (wrapped_round_store S M) ot et (main_part M)"

abbreviation echo_round_type where
  "echo_round_type S ot et M \<equiv> round_type_of (wrapped_round_store S M) ot et (echo_part M)"

text \<open>\<open>MpcParty\<close> as the engine, for the rounds whose messages are \<open>M\<close>.\<close>

definition MpcParty_engine ::
  "('m \<Rightarrow> u16) \<Rightarrow> ('k, ('d, 'm) echo_msg, 'ioe) sink \<Rightarrow> ('s, 'rm, 'o, 'e, 'u) round_store \<Rightarrow> (u16 \<Rightarrow> nat)
     \<Rightarrow> (u16 \<Rightarrow> nat) \<Rightarrow> ('rm, 'm) round_msg
     \<Rightarrow> (('s, 'rm, 'm, 'o, 'e, 'u, 'd, 'ioe, 'k, 'r) wrapped_party, ('s, 'rm, 'm, 'o, 'e, 'u, 'd) wrapped_round,
         ('s, 'rm, 'm, 'o, 'e, 'u, 'd) wrapped_round, ('s, 'rm, 'm, 'o, 'e, 'u, 'd) wrapped_round,
         's, 'o, 'm, 'd, ('e with_echo_error, 'ioe) complete_round_error, 'ioe) engine_ops" where
  "MpcParty_engine rnd K S ot et M =
     \<lparr>eng_add_plain = (\<lambda>p s. MpcParty_add_round p (main_round_type S ot et M) (PlainRound s)),
      eng_add_main = (\<lambda>p s. MpcParty_add_round p (main_round_type S ot et M) (MainRound s)),
      eng_add_echo = (\<lambda>p s. MpcParty_add_round p (echo_round_type S ot et M) (EchoRound s)),
      eng_complete_plain = (\<lambda>p w. output_as plain_output (MpcParty_complete (echo_msg_round rnd) p w)),
      eng_complete_main = (\<lambda>p w. output_as main_output (MpcParty_complete (echo_msg_round rnd) p w)),
      eng_complete_echo = (\<lambda>p w. output_as echo_output (MpcParty_complete (echo_msg_round rnd) p w)),
      eng_send = MpcParty_send K\<rparr>"

text \<open>
  The wrapped engine as an engine of a protocol. The future of \<open>complete\<close> keeps the conversions of the
  messages of its round, which are static in the code.
\<close>

type_synonym ('s, 'rm, 'm, 'o, 'e, 'u, 'd) echo_round_future =
  "('rm, 'm) round_msg \<times> (('s, 'rm, 'm, 'o, 'e, 'u, 'd) wrapped_round, ('s, 'rm, 'm, 'o, 'e, 'u, 'd) wrapped_round,
     ('s, 'rm, 'm, 'o, 'e, 'u, 'd) wrapped_round, 'd, 'o) echo_future"

definition echo_ops ::
  "('m option list \<Rightarrow> u16 \<Rightarrow> u16 \<Rightarrow> 'd) \<Rightarrow> ('m \<Rightarrow> u16) \<Rightarrow> ('k, ('d, 'm) echo_msg, 'ioe) sink
     \<Rightarrow> ('s, 'rm, 'o, 'e, 'u) round_store \<Rightarrow> (u16 \<Rightarrow> nat) \<Rightarrow> (u16 \<Rightarrow> nat)
     \<Rightarrow> ((('s, 'rm, 'm, 'o, 'e, 'u, 'd, 'ioe, 'k, 'r) wrapped_party, 'm) with_echo_broadcast,
         (('s, 'rm, 'm, 'o, 'e, 'u, 'd, 'ioe, 'k, 'r) wrapped_party, 'm) with_echo_broadcast,
         ('s, 'rm, 'm, 'o, 'e, 'u, 'd) echo_round_future, 's, 'rm, 'm, 'o,
         (('e with_echo_error, 'ioe) complete_round_error, 'ioe) echo_complete_error,
         'ioe with_echo_error) mpc_ops" where
  "echo_ops hash rnd K S ot et =
     \<lparr>op_add_round = (\<lambda>p M s.
        (case echo_add_round (MpcParty_engine rnd K S ot et M) S M p s of
           Panic \<Rightarrow> Panic | Ret (p', w) \<Rightarrow> Ret (p', M, AwaitRound w))),
      op_finish_setup = echo_finish_setup MpcParty_finish_setup,
      op_complete = (\<lambda>x (M, fut).
        (case poll_complete hash (MpcParty_engine rnd K S ot et M) M x fut of (x', fut', r) \<Rightarrow> (x', (M, fut'), r))),
      op_send = echo_send (MpcParty_send K) rnd\<rparr>"

subsection \<open>Where the result of a wrapped round comes from\<close>

text \<open>A wrapped store that outputs took messages of its own kind, all of them accepted.\<close>

lemma wrapped_store_sound:
  assumes "foldl (process_message rnd R) (InProgress (C s)) ms = Completed (Ok out)"
    and step: "\<And>m x. Incoming_try_map (from_protocol_msg (rt_msg R)) m = Ok x \<Longrightarrow>
      \<exists>y. P m y \<and> (\<forall>s. rs_add_message (rt_store R) (C s) x = map_prod C (map_err f) (add s y))"
  shows "\<exists>ys s'. store_feed add s ys = (s', Ok ()) \<and> rs_output (rt_store R) (C s') = Ok out \<and>
     (\<forall>y \<in> set ys. \<exists>m \<in> set ms. P m y)"
proof -
  let ?T = "\<lambda>x. \<exists>m \<in> set ms. Incoming_try_map (from_protocol_msg (rt_msg R)) m = Ok x"
  have "\<exists>ys s'. store_feed add s ys = (s', Ok ()) \<and> c = C s' \<and> (\<forall>y \<in> set ys. \<exists>m \<in> set ms. P m y)"
    if "store_feed (rs_add_message (rt_store R)) (C s) xs = (c, Ok ())" "\<forall>x \<in> set xs. ?T x" for xs c s
    using that
  proof (induction xs arbitrary: s)
    case Nil
    then show ?case by (intro exI [of _ "[]"] exI [of _ s]) simp
  next
    case (Cons x xs)
    obtain m y where m: "m \<in> set ms" "P m y"
      and add: "rs_add_message (rt_store R) (C s) x = map_prod C (map_err f) (add s y)"
      using Cons.prems(2) step [of _ x] by (auto, blast)
    obtain s1 r where y: "add s y = (s1, r)" by fastforce
    then have "r = Ok ()" "store_feed (rs_add_message (rt_store R)) (C s1) xs = (c, Ok ())"
      using Cons.prems(1) add by (auto split: sum.splits)
    moreover from this(2) obtain ys s' where "store_feed add s1 ys = (s', Ok ())" "c = C s'"
      "\<forall>y \<in> set ys. \<exists>m \<in> set ms. P m y" using Cons.IH [of s1] Cons.prems(2) by auto
    ultimately show ?case using m y by (intro exI [of _ "y # ys"] exI [of _ s']) auto
  qed
  then show ?thesis using process_messages_sound [OF assms(1)] by metis
qed

text \<open>The message of the round that a received message carries.\<close>

definition carries :: "('rm, 'm) round_msg \<Rightarrow> ('d, 'm) echo_msg incoming \<Rightarrow> 'rm incoming \<Rightarrow> bool" where
  "carries M m y \<longleftrightarrow> (\<exists>p x. inc_msg m = MainMsg p \<and> from_protocol_msg M p = Ok x \<and> y = Incoming_map (\<lambda>_. x) m)"

definition carries_echo :: "u16 \<Rightarrow> ('d, 'm) echo_msg incoming \<Rightarrow> 'd sub_echo incoming \<Rightarrow> bool" where
  "carries_echo r m y \<longleftrightarrow> (\<exists>h. inc_msg m = Echo r h \<and> y = Incoming_map (\<lambda>_. EchoMsg h) m)"

lemma main_part_carried:
  "Incoming_try_map (from_protocol_msg (main_part M)) m = Ok x \<Longrightarrow>
   \<exists>y. carries M m y \<and> x = Incoming_map (\<lambda>y. MainPart (Main y)) y"
  by (cases "inc_msg m") (auto simp: Incoming_try_map_Ok main_part_def main_round_msg_def carries_def Incoming_map_def)

lemma echo_part_carried:
  "Incoming_try_map (from_protocol_msg (echo_part M)) m = Ok x \<Longrightarrow>
   \<exists>y. carries_echo (ROUND M) m y \<and> x = Incoming_map EchoPart y"
  by (cases "inc_msg m") (auto simp: Incoming_try_map_Ok echo_part_def echo_round_msg_def carries_echo_def
      Incoming_map_def split: if_splits)

lemma map_err_id [simp]: "map_err id r = r"
  by (cases r) simp_all

lemma incoming_eta: "\<lparr>inc_id = inc_id y, inc_sender = inc_sender y, inc_msg_type = inc_msg_type y, inc_msg = inc_msg y\<rparr> = y"
  by simp

lemma wrapped_add:
  "wrapped_add_message S M (PlainRound s) (Incoming_map (\<lambda>y. MainPart (Main y)) y) =
     map_prod PlainRound (map_err ErrMain) (rs_add_message S s y)"
  "wrapped_add_message S M (MainRound c) (Incoming_map (\<lambda>y. MainPart (Main y)) y) =
     map_prod MainRound (map_err id) (MainRound_add_message S M c y)"
  "wrapped_add_message S M (EchoRound e) (Incoming_map EchoPart z) =
     map_prod EchoRound (map_err ErrEcho) (EchoRound_add_message e z)"
  by (cases y; cases z; simp add: wrapped_add_message_def WithError_store_def WithMainMsg_store_def WithEchoError_store_def
      MainRound_store_def EchoRound_store_def Incoming_map_def map_prod_def split: prod.splits)+

lemma wrapped_store_sel [simp]:
  "rs_add_message (wrapped_round_store S M) = wrapped_add_message S M"
  "rs_wants_more (wrapped_round_store S M) = wrapped_wants_more S"
  "rs_output (wrapped_round_store S M) = wrapped_output_of S"
  by (simp_all add: wrapped_round_store_def)

lemma plain_round_sound:
  assumes "foldl (process_message rnd (main_round_type S ot et M)) (InProgress (PlainRound s)) ms = Completed (Ok out)"
  shows "\<exists>ys s' x. store_feed (rs_add_message S) s ys = (s', Ok ()) \<and> rs_output S s' = Ok x \<and>
     out = PlainOutput x \<and> (\<forall>y \<in> set ys. \<exists>m \<in> set ms. carries M m y)"
proof -
  have "\<exists>ys s'. store_feed (rs_add_message S) s ys = (s', Ok ()) \<and>
      rs_output (rt_store (main_round_type S ot et M)) (PlainRound s') = Ok out \<and>
      (\<forall>y \<in> set ys. \<exists>m \<in> set ms. carries M m y)"
    by (rule wrapped_store_sound [where C = PlainRound and f = ErrMain, OF assms])
      (auto simp: wrapped_add dest!: main_part_carried)
  then show ?thesis by auto
qed

lemma main_round_sound:
  assumes "foldl (process_message rnd (main_round_type S ot et M)) (InProgress (MainRound s)) ms = Completed (Ok out)"
  shows "\<exists>ys s' nm. store_feed (MainRound_add_message S M) s ys = (s', Ok ()) \<and> MainRound_output s' = Ok nm \<and>
     out = MainOutput nm \<and> (\<forall>y \<in> set ys. \<exists>m \<in> set ms. carries M m y)"
proof -
  have "\<exists>ys s'. store_feed (MainRound_add_message S M) s ys = (s', Ok ()) \<and>
      rs_output (rt_store (main_round_type S ot et M)) (MainRound s') = Ok out \<and>
      (\<forall>y \<in> set ys. \<exists>m \<in> set ms. carries M m y)"
    by (rule wrapped_store_sound [where C = MainRound and f = id, OF assms])
      (auto simp: wrapped_add dest!: main_part_carried)
  then show ?thesis by auto
qed

lemma echo_round_sound:
  assumes "foldl (process_message rnd (echo_round_type S ot et M)) (InProgress (EchoRound s)) ms = Completed (Ok out)"
  shows "\<exists>ys s' es. store_feed EchoRound_add_message s ys = (s', Ok ()) \<and> EchoRound_output s' = Ok es \<and>
     out = EchoOutput es \<and> (\<forall>y \<in> set ys. \<exists>m \<in> set ms. carries_echo (ROUND M) m y)"
proof -
  have "\<exists>ys s'. store_feed EchoRound_add_message s ys = (s', Ok ()) \<and>
      rs_output (rt_store (echo_round_type S ot et M)) (EchoRound s') = Ok out \<and>
      (\<forall>y \<in> set ys. \<exists>m \<in> set ms. carries_echo (ROUND M) m y)"
    by (rule wrapped_store_sound [where C = EchoRound and f = ErrEcho, OF assms])
      (auto simp: wrapped_add dest!: echo_part_carried)
  then show ?thesis by auto
qed

lemma output_as_ok:
  "output_as f r = (p, Ready (Ok y)) \<longleftrightarrow> (\<exists>x. r = (p, Ready (Ok x)) \<and> f x = Some y)"
  by (cases r) (auto simp: output_as_def from_Bug_def split: poll.splits sum.splits option.splits)

lemma output_as_simps [simp]:
  "output_as f (p, Pending) = (p, Pending)"
  "output_as f (p, Ready (Err e)) = (p, Ready (Err e))"
  "output_as f (p, Ready (Ok x)) =
     (p, Ready (case f x of Some y \<Rightarrow> Ok y | None \<Rightarrow> Err (from_Bug MismatchedOutputType)))"
  by (simp_all add: output_as_def)

lemma MpcParty_engine_sel [simp]:
  "eng_complete_plain (MpcParty_engine rnd K S ot et M) p w =
     output_as plain_output (MpcParty_complete (echo_msg_round rnd) p w)"
  "eng_complete_main (MpcParty_engine rnd K S ot et M) p w =
     output_as main_output (MpcParty_complete (echo_msg_round rnd) p w)"
  "eng_complete_echo (MpcParty_engine rnd K S ot et M) p w =
     output_as echo_output (MpcParty_complete (echo_msg_round rnd) p w)"
  "eng_add_plain (MpcParty_engine rnd K S ot et M) p s = MpcParty_add_round p (main_round_type S ot et M) (PlainRound s)"
  "eng_add_main (MpcParty_engine rnd K S ot et M) p c = MpcParty_add_round p (main_round_type S ot et M) (MainRound c)"
  "eng_add_echo (MpcParty_engine rnd K S ot et M) p e = MpcParty_add_round p (echo_round_type S ot et M) (EchoRound e)"
  "eng_send (MpcParty_engine rnd K S ot et M) = MpcParty_send K"
  by (simp_all add: MpcParty_engine_def)

lemma part_rounds [simp]: "ROUND (main_part M) = 2 * ROUND M" "ROUND (echo_part M) = 2 * ROUND M + 1"
  by (simp_all add: main_part_def echo_part_def)

lemma MpcParty_send_frame:
  assumes "MpcParty_send K p m = (p', r)"
  shows "mp_router p' = mp_router p" "incomings (mp_io p') = incomings (mp_io p)"
    "outgoings (mp_io p') = fst (sink_send K (outgoings (mp_io p)) m)" "r = snd (sink_send K (outgoings (mp_io p)) m)"
  using assms by (auto simp: MpcParty_send_def split: prod.splits)

lemma main_output_Some: "main_output x = Some y \<longleftrightarrow> x = MainOutput y"
  by (cases x) auto

lemma echo_output_Some: "echo_output x = Some y \<longleftrightarrow> x = EchoOutput y"
  by (cases x) auto

lemma plain_output_Some: "plain_output x = Some y \<longleftrightarrow> x = PlainOutput y"
  by (cases x) auto

text \<open>
  A completed reliable round: all the messages \<open>ms\<close> that were taken from the stream, those of the main
  round \<open>ys\<close> with its result, the hash \<open>h\<close> that was sent, and the echoes \<open>zs\<close>.
\<close>

definition reliable_result where
  "reliable_result hash M mine c e ms h out \<longleftrightarrow>
     (\<exists>ys c' nm check zs e' echoes.
        store_feed (MainRound_add_message plain_input M) c ys = (c', Ok ()) \<and> MainRound_output c' = Ok nm \<and>
        (\<forall>y \<in> set ys. \<exists>m \<in> set ms. carries M m y) \<and> with_my_msg hash M nm (Some mine) = Ok (check, h) \<and>
        store_feed EchoRound_add_message e zs = (e', Ok ()) \<and> EchoRound_output e' = Ok echoes \<and>
        (\<forall>z \<in> set zs. \<exists>m \<in> set ms. carries_echo (ROUND M) m z) \<and> with_echo_output check echoes = Ok out)"

lemma reliable_complete_sound:
  assumes run: "poll_complete hash (MpcParty_engine rnd K plain_input ot et M) M self
      (AwaitRound (WithReliabilityCheck (main_round_type plain_input ot et M) (echo_round_type plain_input ot et M))) =
      (self', fut, Ready (Ok out))"
    and main: "rounds (mp_router (we_party self)) (2 * ROUND M) =
      Some (Some \<lparr>br_type = main_round_type plain_input ot et M, br_state = InProgress (MainRound c)\<rparr>)"
    and echo: "rounds (mp_router (we_party self)) (2 * ROUND M + 1) =
      Some (Some \<lparr>br_type = echo_round_type plain_input ot et M, br_state = InProgress (EchoRound e)\<rparr>)"
    and sent: "sent_reliable_msgs self (ROUND M) = Some (Some (to_protocol_msg M mine))"
    and from_to: "from_protocol_msg M (to_protocol_msg M mine) = Ok mine"
  shows "\<exists>ms h. reliable_result hash M mine c e ms h out \<and>
     st_items (incomings (mp_io (we_party self))) = map Ok ms @ st_items (incomings (mp_io (we_party self'))) \<and>
     outgoings (mp_io (we_party self')) =
       fst (sink_send K (outgoings (mp_io (we_party self))) (Outgoing_all_parties (Echo (ROUND M) h))) \<and>
     (\<forall>k. k \<noteq> 2 * ROUND M \<longrightarrow> k \<noteq> 2 * ROUND M + 1 \<longrightarrow> rounds (mp_router (we_party self')) k =
        rounds (received_all (echo_msg_round rnd) (mp_router (we_party self)) ms) k) \<and>
     sent_reliable_msgs self' = (sent_reliable_msgs self)(ROUND M := None)"
proof -
  let ?rnd = "echo_msg_round rnd" and ?p = "we_party self" and ?r = "ROUND M"
  let ?Rm = "main_round_type plain_input ot et M" and ?Re = "echo_round_type plain_input ot et M"
  have ne: "2 * ?r + 1 \<noteq> 2 * ?r" by simp
  obtain p1 nm check h p2 echoes where
    c1: "MpcParty_complete ?rnd ?p ?Rm = (p1, Ready (Ok (MainOutput nm)))"
    and check: "with_my_msg hash M nm (Some mine) = Ok (check, h)"
    and send: "MpcParty_send K p1 (Outgoing_all_parties (Echo ?r h)) = (p2, Ok ())"
    and c2: "MpcParty_complete ?rnd p2 ?Re = (we_party self', Ready (Ok (EchoOutput echoes)))"
    and passed: "with_echo_output check echoes = Ok out"
    and table: "sent_reliable_msgs self' = (sent_reliable_msgs self)(?r := None)"
    using run sent from_to
    by (auto simp: poll_complete_def poll_echoes_def take_sent_msg_def send_to_all_def output_as_def
          main_output_Some echo_output_Some from_Bug_def
        split: prod.splits poll.splits sum.splits option.splits)
  obtain ms1 where ms1: "st_items (incomings (mp_io ?p)) = map Ok ms1 @ st_items (incomings (mp_io p1))"
    "foldl (process_message ?rnd ?Rm) (InProgress (MainRound c))
       (filter (\<lambda>m. ?rnd (inc_msg m) = 2 * ?r) ms1) = Completed (Ok (MainOutput nm))"
    "\<And>k. k \<noteq> 2 * ?r \<Longrightarrow> rounds (mp_router p1) k = rounds (received_all ?rnd (mp_router ?p) ms1) k"
    "outgoings (mp_io p1) = outgoings (mp_io ?p)"
    using complete_sound [OF c1, of "InProgress (MainRound c)"] main by auto
  note p2 = MpcParty_send_frame [OF send]
  define st where "st = foldl (process_message ?rnd ?Re) (InProgress (EchoRound e))
       (filter (\<lambda>m. ?rnd (inc_msg m) = 2 * ?r + 1) ms1)"
  have "rounds (mp_router p2) (2 * ?r + 1) = Some (Some \<lparr>br_type = ?Re, br_state = st\<rparr>)"
    using ms1(3) [OF ne] echo by (simp add: p2 received_all_rounds box_receive_all st_def)
  then obtain ms2 where ms2: "st_items (incomings (mp_io p1)) = map Ok ms2 @ st_items (incomings (mp_io (we_party self')))"
    "foldl (process_message ?rnd ?Re) st (filter (\<lambda>m. ?rnd (inc_msg m) = 2 * ?r + 1) ms2) =
       Completed (Ok (EchoOutput echoes))"
    "\<And>k. k \<noteq> 2 * ?r + 1 \<Longrightarrow> rounds (mp_router (we_party self')) k = rounds (received_all ?rnd (mp_router p1) ms2) k"
    "outgoings (mp_io (we_party self')) = outgoings (mp_io p2)"
    using complete_sound [OF c2, of st] p2 by auto
  have "foldl (process_message ?rnd ?Re) (InProgress (EchoRound e))
       (filter (\<lambda>m. ?rnd (inc_msg m) = 2 * ?r + 1) (ms1 @ ms2)) = Completed (Ok (EchoOutput echoes))"
    using ms2(2) by (simp add: st_def)
  from echo_round_sound [OF this] obtain zs e' where zs: "store_feed EchoRound_add_message e zs = (e', Ok ())"
    "EchoRound_output e' = Ok echoes"
    and z: "\<forall>z \<in> set zs. \<exists>m \<in> set (filter (\<lambda>m. ?rnd (inc_msg m) = 2 * ?r + 1) (ms1 @ ms2)). carries_echo ?r m z"
    by (metis wrapped_output.inject(3))
  from main_round_sound [OF ms1(2)] obtain ys c' where ys: "store_feed (MainRound_add_message plain_input M) c ys = (c', Ok ())"
    "MainRound_output c' = Ok nm" "\<forall>y \<in> set ys. \<exists>m \<in> set (ms1 @ ms2). carries M m y" by fastforce
  have "\<forall>z \<in> set zs. \<exists>m \<in> set (ms1 @ ms2). carries_echo ?r m z" using z by fastforce
  then have "reliable_result hash M mine c e (ms1 @ ms2) h out"
    using ys zs check passed unfolding reliable_result_def by blast
  moreover have "rounds (mp_router (we_party self')) k = rounds (received_all ?rnd (mp_router ?p) (ms1 @ ms2)) k"
    if "k \<noteq> 2 * ?r" "k \<noteq> 2 * ?r + 1" for k
    using ms2(3) [OF that(2)] ms1(3) [OF that(1)] by (simp add: received_all_append received_all_rounds)
  ultimately show ?thesis
    using ms1(1,4) ms2(1,4) p2 table by (intro exI [of _ "ms1 @ ms2"] exI [of _ h]) simp
qed

lemma plain_complete_sound:
  assumes run: "poll_complete hash (MpcParty_engine rnd K S ot et M) M self
      (AwaitRound (Unmodified (main_round_type S ot et M))) = (self', fut, Ready (Ok out))"
    and plain: "rounds (mp_router (we_party self)) (2 * ROUND M) = Some (Some \<lparr>br_type = main_round_type S ot et M,
      br_state = foldl (process_message (echo_msg_round rnd) (main_round_type S ot et M)) (InProgress (PlainRound s)) ms0\<rparr>)"
  shows "\<exists>ms ys s'. store_feed (rs_add_message S) s ys = (s', Ok ()) \<and> rs_output S s' = Ok out \<and>
     (\<forall>y \<in> set ys. \<exists>m \<in> set (ms0 @ ms). carries M m y) \<and>
     st_items (incomings (mp_io (we_party self))) = map Ok ms @ st_items (incomings (mp_io (we_party self'))) \<and>
     outgoings (mp_io (we_party self')) = outgoings (mp_io (we_party self))"
proof -
  let ?R = "main_round_type S ot et M" and ?rnd = "echo_msg_round rnd"
  have c: "MpcParty_complete ?rnd (we_party self) ?R = (we_party self', Ready (Ok (PlainOutput out)))"
    using run by (auto simp: poll_complete_def output_as_def plain_output_Some from_Bug_def
        split: prod.splits poll.splits sum.splits option.splits)
  obtain ms where ms: "st_items (incomings (mp_io (we_party self))) = map Ok ms @ st_items (incomings (mp_io (we_party self')))"
    "foldl (process_message ?rnd ?R) (foldl (process_message ?rnd ?R) (InProgress (PlainRound s)) ms0)
       (filter (\<lambda>m. ?rnd (inc_msg m) = 2 * ROUND M) ms) = Completed (Ok (PlainOutput out))"
    "outgoings (mp_io (we_party self')) = outgoings (mp_io (we_party self))"
    using complete_sound [OF c] plain by auto
  then have "foldl (process_message ?rnd ?R) (InProgress (PlainRound s))
      (ms0 @ filter (\<lambda>m. ?rnd (inc_msg m) = 2 * ROUND M) ms) = Completed (Ok (PlainOutput out))" by simp
  from plain_round_sound [OF this] obtain ys s' where "store_feed (rs_add_message S) s ys = (s', Ok ())" "rs_output S s' = Ok out"
    "\<forall>y \<in> set ys. \<exists>m \<in> set (ms0 @ ms). carries M m y" by fastforce
  with ms show ?thesis by blast
qed

text \<open>Every other party is among the senders of the echoes.\<close>

lemma feed_senders:
  assumes "store_feed RoundInput_add_message s ms = (s', Ok ())" and "RoundInput_wf s"
    and "received_from s' k = Some x"
  shows "received_from s k = Some x \<or> (\<exists>m \<in> set ms. inc_sender m = k \<and> x = (inc_id m, inc_msg m))"
  using assms
proof (induction ms arbitrary: s)
  case (Cons m ms)
  obtain s1 where s1: "RoundInput_add_message s m = (s1, Ok ())"
    and feed: "store_feed RoundInput_add_message s1 ms = (s', Ok ())"
    using Cons.prems(1) by (auto split: prod.splits sum.splits)
  note got = add_message_received [OF Cons.prems(2) s1]
  from Cons.IH [OF feed got(5) Cons.prems(3)] show ?case using got(1) by (auto split: if_splits)
qed simp

lemma feed_wf:
  "store_feed RoundInput_add_message s ms = (s', Ok ()) \<Longrightarrow> RoundInput_wf s \<Longrightarrow>
   RoundInput_wf s' \<and> ri_i s' = ri_i s \<and> ri_n s' = ri_n s"
proof (induction ms arbitrary: s)
  case (Cons m ms)
  obtain s1 where s1: "RoundInput_add_message s m = (s1, Ok ())"
    and feed: "store_feed RoundInput_add_message s1 ms = (s', Ok ())"
    using Cons.prems(1) by (auto split: prod.splits sum.splits)
  from Cons.IH [OF feed] show ?case using add_message_received(3-5) [OF Cons.prems(2) s1] by simp
qed simp

lemma output_senders:
  assumes new: "RoundInput_new i n t = Ret s" and feed: "store_feed RoundInput_add_message s ms = (s', Ok ())"
    and out: "RoundInput_output s' = Ok r" and k: "k \<noteq> i" "k < n"
  shows "\<exists>m \<in> set ms. inc_sender m = k \<and> inc_msg m = iter_including_me r x ! unat k"
proof -
  have s: "received_from s = Map.empty" "ri_i s = i" "ri_n s = n"
    using collector_of_new [OF new] by (simp_all add: collector_of_def)
  have wf: "RoundInput_wf s'" "ri_i s' = i" "ri_n s' = n"
    using feed_wf [OF feed RoundInput_new_wf [OF new]] s by simp_all
  then obtain y where y: "received_from s' k = Some y"
    using output_view_nth(2) [OF wf(1) out, of k] k by auto
  with feed_senders [OF feed RoundInput_new_wf [OF new] y] output_view_nth(1) [OF wf(1) out, of k x] k wf s
  show ?thesis by auto
qed

lemma echo_senders:
  assumes "echo_round_result i n es echoes" and "k \<noteq> i" "k < n"
  shows "\<exists>m \<in> set es. inc_sender m = k"
proof -
  obtain r er where "RoundInput_broadcast i n = Ret r" and f: "store_feed EchoRound_add_message \<lparr>er_echo_round = r\<rparr> es = (er, Ok ())"
    "EchoRound_output er = Ok echoes"
    using assms(1) unfolding echo_round_result_def by blast
  then have "RoundInput_new i n (Broadcast False) = Ret r" "RoundInput_output (er_echo_round er) = Ok echoes"
    by (simp_all add: RoundInput_broadcast_def EchoRound_output_def)
  from output_senders [OF this(1) _ this(2) assms(2,3), of "map (Incoming_map echo_hash) es" undefined] echo_feed [OF f(1)]
  show ?thesis by (auto simp: Incoming_map_def)
qed

subsection \<open>Agreement\<close>

text \<open>The stores that party \<open>i\<close> of \<open>n\<close> starts a reliable round with.\<close>

definition reliable_stores where
  "reliable_stores i n c e \<longleftrightarrow> (\<exists>s. RoundInput_reliable_broadcast i n = Ret s \<and> echo_store_new plain_input i n s = Ret (c, e))"

lemma plain_input_sel:
  "rs_add_message plain_input = RoundInput_add_message" "rs_wants_more plain_input = RoundInput_wants_more"
  "rs_output plain_input = RoundInput_output"
  by (simp_all add: RoundInput_store_def)

lemma reliable_stores_ongoing:
  assumes "reliable_stores i n c e"
  shows "MainRound_wants_more c" "EchoRound_wants_more e" "RoundInput_new i n (Broadcast False) = Ret (er_echo_round e)"
    "2 \<le> n" "i < n"
proof -
  obtain s where s: "RoundInput_new i n (Broadcast True) = Ret s" "echo_store_new plain_input i n s = Ret (c, e)"
    using assms by (auto simp: reliable_stores_def RoundInput_reliable_broadcast_def)
  have "RoundInput_output s = Err s"
    by (rule round_input.output_not_ready [OF RoundInput_new_wf [OF s(1)] RoundInput_new_wants_more [OF s(1)]])
  then show "MainRound_wants_more c"
    using s(2) by (auto simp: echo_store_new_def RoundInput_store_def MainRound_wants_more_def split: or_panic.splits)
  show "RoundInput_new i n (Broadcast False) = Ret (er_echo_round e)"
    using s(2) by (auto simp: echo_store_new_def RoundInput_broadcast_def Let_def split: or_panic.splits)
  then show "EchoRound_wants_more e" by (simp add: EchoRound_wants_more_def RoundInput_new_wants_more)
  show "2 \<le> n" "i < n" using s(1) by (simp_all add: RoundInput_new_ret)
qed

lemma reliable_stores_exist:
  assumes "2 \<le> n" and "i < n"
  obtains s c e where "RoundInput_reliable_broadcast i n = Ret s" "ri_expected_msg_type s = Broadcast True"
    "echo_store_new plain_input i n s = Ret (c, e)"
    "reliable_stores i n c e"
proof -
  obtain s :: "'a round_input" where s: "RoundInput_reliable_broadcast i n = Ret s" "ri_expected_msg_type s = Broadcast True"
    using assms by (auto simp: RoundInput_reliable_broadcast_def RoundInput_new_ret)
  obtain r :: "'c round_input" where "RoundInput_broadcast i n = Ret r"
    using assms by (auto simp: RoundInput_broadcast_def RoundInput_new_ret)
  then obtain c :: "('a round_input, 'a round_msgs, 'b) main_round" and e :: "'c echo_round"
    where "echo_store_new plain_input i n s = Ret (c, e)"
    by (simp add: echo_store_new_def Let_def)
  with s show thesis using that unfolding reliable_stores_def by blast
qed

lemma reliable_result_parts:
  assumes "reliable_stores i n c e" and "reliable_result hash M mine c e ms h out"
  obtains ys nm check zs echoes where "main_round_result M i n ys nm"
    "\<forall>y \<in> set ys. \<exists>m \<in> set ms. carries M m y" "with_my_msg hash M nm (Some mine) = Ok (check, h)"
    "echo_round_result i n zs echoes" "\<forall>z \<in> set zs. \<exists>m \<in> set ms. carries_echo (ROUND M) m z"
    "with_echo_output check echoes = Ok out" "i < n"
proof -
  obtain s where s: "RoundInput_reliable_broadcast i n = Ret s" "echo_store_new plain_input i n s = Ret (c, e)"
    using assms(1) unfolding reliable_stores_def by blast
  have idx: "2 \<le> n" "i < n" using s(1) by (simp_all add: RoundInput_reliable_broadcast_def RoundInput_new_ret)
  then obtain r0 :: "nat round_input" where "RoundInput_broadcast i n = Ret r0"
    by (auto simp: RoundInput_broadcast_def RoundInput_new_ret)
  then have new: "echo_store_new plain_input i n s = Ret (c, \<lparr>er_echo_round = r0\<rparr>)"
    using s(2) by (auto simp: echo_store_new_def Let_def split: or_panic.splits)
  have e: "RoundInput_broadcast i n = Ret (er_echo_round e)"
    using s(2) by (auto simp: echo_store_new_def Let_def split: or_panic.splits)
  obtain ys c' nm check zs e' echoes where
    "store_feed (MainRound_add_message plain_input M) c ys = (c', Ok ())" "MainRound_output c' = Ok nm"
    "\<forall>y \<in> set ys. \<exists>m \<in> set ms. carries M m y" "with_my_msg hash M nm (Some mine) = Ok (check, h)"
    "store_feed EchoRound_add_message e zs = (e', Ok ())" "EchoRound_output e' = Ok echoes"
    "\<forall>z \<in> set zs. \<exists>m \<in> set ms. carries_echo (ROUND M) m z" "with_echo_output check echoes = Ok out"
    using assms(2) unfolding reliable_result_def by blast
  moreover from this have "main_round_result M i n ys nm" "echo_round_result i n zs echoes"
    using s(1) new e unfolding main_round_result_def echo_round_result_def
    by (blast, metis echo_round.surjective old.unit.exhaust)
  ultimately show thesis using that idx by blast
qed

lemma reliable_results_agree:
  assumes collision_free: "\<And>xs ys. hash xs (ROUND M) n = hash ys (ROUND M) n \<Longrightarrow> xs = ys"
    and law: "lawful_round_msg valid rnd M"
    and i: "reliable_stores i n c_i e_i" "reliable_result hash M mine_i c_i e_i ms_i h_i out_i"
    and j: "reliable_stores j n c_j e_j" "reliable_result hash M mine_j c_j e_j ms_j h_j out_j"
    and auth: "\<And>m h. m \<in> set ms_i \<Longrightarrow> inc_sender m = j \<Longrightarrow> inc_msg m = Echo (ROUND M) h \<Longrightarrow> h = h_j"
    and ne: "j \<noteq> i"
  shows "iter_including_me out_i mine_i = iter_including_me out_j mine_j"
    and "RoundMsgs_wf out_i n" "rm_i out_i = i" "RoundMsgs_wf out_j n" "rm_i out_j = j"
proof -
  have from_to: "\<And>x. from_protocol_msg M (to_protocol_msg M x) = Ok x"
    using lawful_msg.from_to [OF law [unfolded lawful_round_msg_def]] .
  obtain ys_i nm_i check_i zs_i echoes_i where pi: "main_round_result M i n ys_i nm_i"
    "with_my_msg hash M nm_i (Some mine_i) = Ok (check_i, h_i)" "echo_round_result i n zs_i echoes_i"
    "\<forall>z \<in> set zs_i. \<exists>m \<in> set ms_i. carries_echo (ROUND M) m z" "with_echo_output check_i echoes_i = Ok out_i"
    using reliable_result_parts [OF i] .
  obtain ys_j nm_j check_j zs_j echoes_j where pj: "main_round_result M j n ys_j nm_j"
    "with_my_msg hash M nm_j (Some mine_j) = Ok (check_j, h_j)" "with_echo_output check_j echoes_j = Ok out_j" "j < n"
    using reliable_result_parts [OF j] .
  have outs: "out_i = no_main_round_output nm_i" "out_j = no_main_round_output nm_j"
    using pi(2,5) pj(2,3) hash_of_result [OF from_to pi(1), of hash mine_i] hash_of_result [OF from_to pj(1), of hash mine_j]
    by (auto simp: Let_def with_echo_output_def split: if_splits)
  obtain z where z: "z \<in> set zs_i" "inc_sender z = j" using echo_senders [OF pi(3) ne pj(4)] by blast
  then obtain m where "m \<in> set ms_i" "carries_echo (ROUND M) m z" using pi(4) by blast
  then have "inc_msg z = EchoMsg h_j" using auth [of m] z(2) by (auto simp: carries_echo_def Incoming_map_def)
  from echo_agrees [OF collision_free law pi(1,2) pj(1,2) pi(3) z ne this pi(5)]
  show "iter_including_me out_i mine_i = iter_including_me out_j mine_j" using outs(2) by simp
  show "RoundMsgs_wf out_i n" "rm_i out_i = i" "RoundMsgs_wf out_j n" "rm_i out_j = j"
    using main_round_result_wf [OF from_to pi(1)] main_round_result_wf [OF from_to pj(1)] outs by simp_all
qed

subsection \<open>Messages that complete a wrapped round\<close>

text \<open>
  Conversely: a wrapped store that is handed messages of its own kind goes where the store inside goes.
\<close>

lemma wrapped_store_completes:
  assumes inside: "foldl (store_step S0) (InProgress s) ys = Completed (Ok out)"
    and msgs: "list_all2 P ms ys"
    and step: "\<And>m y. P m y \<Longrightarrow> \<exists>x. Incoming_try_map (from_protocol_msg (rt_msg R)) m = Ok x \<and>
      (\<forall>s. rs_add_message (rt_store R) (C s) x = map_prod C (map_err f) (rs_add_message S0 s y))"
    and wants: "\<And>s. rs_wants_more (rt_store R) (C s) = rs_wants_more S0 s"
    and outp: "\<And>s. rs_output (rt_store R) (C s) = map_err C (map_ok D (rs_output S0 s))"
  shows "foldl (process_message rnd R) (InProgress (C s)) ms = Completed (Ok (D out))"
  using msgs inside
proof (induction arbitrary: s rule: list_all2_induct)
  case (Cons m ms y ys)
  obtain x where x: "Incoming_try_map (from_protocol_msg (rt_msg R)) m = Ok x"
    "rs_add_message (rt_store R) (C s) x = map_prod C (map_err f) (rs_add_message S0 s y)"
    using step [OF Cons.hyps(1)] by blast
  obtain s1 r where y: "rs_add_message S0 s y = (s1, r)" by fastforce
  have steps: "foldl (store_step S0) (store_step S0 (InProgress s) y) ys = Completed (Ok out)"
    using Cons.prems by simp
  have r: "r = Ok ()"
  proof (cases r)
    case (Inl e)
    then have "store_step S0 (InProgress s) y = Completed (Err (ProcessMsg e))" using y by (simp add: store_step_def)
    then show ?thesis using steps by simp
  qed simp
  show ?case
  proof (cases "rs_wants_more S0 s1")
    case True
    then have "foldl (store_step S0) (InProgress s1) ys = Completed (Ok out)"
      using steps y r by (simp add: store_step_def)
    from Cons.IH [OF this] show ?thesis
      using x y r True wants by (simp add: process_message_in_progress store_step_def)
  next
    case False
    then have "store_step S0 (InProgress s) y = Completed (map_err (\<lambda>_. from_ImproperRoundStore StoreDidntOutput) (rs_output S0 s1))"
      using y r by (simp add: store_step_def)
    then have "rs_output S0 s1 = Ok out" using steps by simp
    then show ?thesis
      using x y r False wants outp by (simp add: process_message_in_progress store_step_def)
  qed
qed simp

lemma carries_tagged:
  "carries M m y \<Longrightarrow> Incoming_try_map (from_protocol_msg (main_part M)) m = Ok (Incoming_map (\<lambda>y. MainPart (Main y)) y)"
  "carries_echo (ROUND M) m z \<Longrightarrow> Incoming_try_map (from_protocol_msg (echo_part M)) m = Ok (Incoming_map EchoPart z)"
  by (auto simp: Incoming_try_map_Ok main_part_def main_round_msg_def carries_def echo_part_def echo_round_msg_def
      carries_echo_def Incoming_map_def)

text \<open>The main round wants more messages until the last one that it accepts.\<close>

lemma MainRound_steps_complete:
  assumes "store_feed (MainRound_add_message S M) c ys = (c', Ok ())" and "MainRound_output c' = Ok nm" and "ys \<noteq> []"
  shows "foldl (store_step (MainRound_store S M)) (InProgress c) ys = Completed (Ok nm)"
  using assms(1,3)
proof (induction ys arbitrary: c)
  case (Cons y ys)
  obtain c1 where y: "MainRound_add_message S M c y = (c1, Ok ())"
    and feed: "store_feed (MainRound_add_message S M) c1 ys = (c', Ok ())"
    using Cons.prems(1) by (auto split: prod.splits sum.splits)
  show ?case
  proof (cases ys)
    case Nil
    then have "c1 = c'" using feed by simp
    moreover from this have "\<not> MainRound_wants_more c1"
      using assms(2) by (auto simp: MainRound_output_def MainRound_wants_more_def split: main_round_state.splits)
    ultimately show ?thesis using y assms(2) Nil by (simp add: store_step_def MainRound_store_def)
  next
    case (Cons z zs)
    then obtain c2 where "MainRound_add_message S M c1 z = (c2, Ok ())"
      using feed by (auto split: prod.splits sum.splits)
    then have "MainRound_wants_more c1" by (rule MainRound_add_ok) (simp add: MainRound_wants_more_def)
    then show ?thesis
      using Cons.IH [OF feed] Cons y by (simp add: store_step_def MainRound_store_def)
  qed
qed simp

lemma main_round_completes:
  assumes "main_round_result M i n ys nm" and "reliable_stores i n c e" and "ys \<noteq> []"
    and msgs: "list_all2 (carries M) ms ys"
  shows "foldl (process_message rnd (main_round_type plain_input ot et M)) (InProgress (MainRound c)) ms =
     Completed (Ok (MainOutput nm))"
proof -
  obtain c' where "store_feed (MainRound_add_message plain_input M) c ys = (c', Ok ())" "MainRound_output c' = Ok nm"
    using assms(1,2)
    by (auto simp: main_round_result_def reliable_stores_def echo_store_new_def RoundInput_broadcast_def RoundInput_new_def
        Let_def split: or_panic.splits if_splits)
  from MainRound_steps_complete [OF this assms(3)] msgs show ?thesis
    by (rule wrapped_store_completes [where f = id])
      (auto simp: wrapped_add MainRound_store_def dest: carries_tagged(1))
qed

lemma plain_round_completes:
  assumes "foldl (store_step S) (InProgress s) ys = Completed (Ok out)" and "list_all2 (carries M) ms ys"
  shows "foldl (process_message rnd (main_round_type S ot et M)) (InProgress (PlainRound s)) ms = Completed (Ok (PlainOutput out))"
  using assms
  by (rule wrapped_store_completes [where f = ErrMain and C = PlainRound]) (auto simp: wrapped_add dest: carries_tagged(1))

lemma wrapped_add_echo:
  "wrapped_add_message S M (EchoRound \<lparr>er_echo_round = s\<rparr>) (Incoming_map EchoPart z) =
     map_prod (\<lambda>s. EchoRound \<lparr>er_echo_round = s\<rparr>) (map_err (\<lambda>x. ErrEcho (EchoError (HandleEcho x))))
       (RoundInput_add_message s (Incoming_map echo_hash z))"
proof -
  obtain s1 r where "RoundInput_add_message s (Incoming_map echo_hash z) = (s1, r)" by fastforce
  then show ?thesis by (cases r) (simp_all add: wrapped_add EchoRound_add_message_def)
qed

lemma echo_round_completes:
  assumes "foldl (store_step plain_input) (InProgress (er_echo_round e)) ys = Completed (Ok out)"
    and msgs: "list_all2 (\<lambda>m y. \<exists>z. carries_echo (ROUND M) m z \<and> y = Incoming_map echo_hash z) ms ys"
  shows "foldl (process_message rnd (echo_round_type S ot et M)) (InProgress (EchoRound e)) ms = Completed (Ok (EchoOutput out))"
proof -
  have "map_err EchoRound (map_ok EchoOutput (map_err (\<lambda>s. \<lparr>er_echo_round = s\<rparr>) r)) =
      map_err (\<lambda>s. EchoRound \<lparr>er_echo_round = s\<rparr>) (map_ok EchoOutput r)" for r :: "'a round_input + 'a round_msgs"
    by (cases r) simp_all
  then have "foldl (process_message rnd (echo_round_type S ot et M))
      (InProgress ((\<lambda>s. EchoRound \<lparr>er_echo_round = s\<rparr>) (er_echo_round e))) ms = Completed (Ok (EchoOutput out))"
    using assms
    by (intro wrapped_store_completes [where f = "\<lambda>x. ErrEcho (EchoError (HandleEcho x))", OF assms])
      (auto simp: wrapped_add_echo plain_input_sel EchoRound_wants_more_def EchoRound_output_def dest!: carries_tagged(2))
  then show ?thesis by (cases e) simp
qed

end
