(* ===== verification/Echo_Protocol.thy ===== *)
theory Echo_Protocol
  imports Echo_Party Random_Generation
begin

section \<open>A protocol with echo broadcast over the engine\<close>

text \<open>
  The randomness generation protocol (\<open>examples/random-generation-protocol/src/lib.rs\<close>) over
  \<open>WithEchoBroadcast\<close> over \<open>MpcParty\<close>. Its first round needs reliable broadcast, so it becomes the main
  round \<open>0\<close> and the echo round \<open>1\<close> of the engine; its second round is the round \<open>2\<close> of the engine.
\<close>

subsection \<open>Setup\<close>

type_synonym 'd echo_rg_party =
  "(bytes round_input, bytes, rg_msg, bytes round_msgs, round_input_error, unit, 'd, nat,
    ('d, rg_msg) echo_msg outgoing list, unit) wrapped_party"

abbreviation echo_engine where
  "echo_engine hash ot et \<equiv> echo_ops hash rg_round (recorder :: (_, _, nat) sink) plain_input ot et"

definition echo_rg_party ::
  "u16 \<Rightarrow> u16 \<Rightarrow> (nat + ('d, rg_msg) echo_msg incoming) list \<Rightarrow> bool
     \<Rightarrow> ('d echo_rg_party, rg_msg) with_echo_broadcast" where
  "echo_rg_party i n items closed =
     echo_wrap (MpcParty_connected_halves () \<lparr>st_items = items, st_closed = closed\<rparr> []) i n"

lemma read_plain_input:
  "read_prop plain_input s RequiresReliableBroadcast_t =
     Some (RequiresReliableBroadcast (ri_expected_msg_type s = Broadcast True))"
  by (auto simp: read_prop_def RoundInput_store_def RoundInput_read_any_prop_def split: message_type.splits bool.splits)

lemma echo_define_rounds:
  assumes "2 \<le> n" and "i < n"
  obtains c e s2 x where "reliable_stores i n c e" "RoundInput_broadcast i n = Ret s2"
    "define_rounds (echo_engine hash ot et) (echo_rg_party i n items closed) i n = Ret (x,
       (commit_msg, AwaitRound (WithReliabilityCheck (main_round_type plain_input ot et commit_msg)
         (echo_round_type plain_input ot et commit_msg))),
       (decommit_msg, AwaitRound (Unmodified (main_round_type plain_input ot et decommit_msg))))"
    "rounds (mp_router (we_party x)) =
       [0 \<mapsto> Some \<lparr>br_type = main_round_type plain_input ot et commit_msg, br_state = InProgress (MainRound c)\<rparr>,
        1 \<mapsto> Some \<lparr>br_type = echo_round_type plain_input ot et commit_msg, br_state = InProgress (EchoRound e)\<rparr>,
        2 \<mapsto> Some \<lparr>br_type = main_round_type plain_input ot et decommit_msg, br_state = InProgress (PlainRound s2)\<rparr>]"
    "mp_io (we_party x) = \<lparr>incomings = \<lparr>st_items = items, st_closed = closed\<rparr>, outgoings = []\<rparr>"
    "sent_reliable_msgs x = [0 \<mapsto> None]"
proof -
  obtain s :: "bytes round_input" and c :: "(bytes round_input, bytes round_msgs, rg_msg) main_round"
    and e :: "'a echo_round" where s: "RoundInput_reliable_broadcast i n = Ret s"
    "ri_expected_msg_type s = Broadcast True" "echo_store_new plain_input i n s = Ret (c, e)" "reliable_stores i n c e"
    using reliable_stores_exist [OF assms] .
  obtain s2 :: "bytes round_input" where s2: "RoundInput_broadcast i n = Ret s2" "ri_expected_msg_type s2 = Broadcast False"
    using assms by (auto simp: RoundInput_broadcast_def RoundInput_new_ret)
  have "RoundInput_wants_more s2"
    using s2(1) RoundInput_new_wants_more by (auto simp: RoundInput_broadcast_def)
  note more = this reliable_stores_ongoing(1,2) [OF s(4)]
  have "\<exists>x. define_rounds (echo_engine hash ot et) (echo_rg_party i n items closed) i n = Ret (x,
       (commit_msg, AwaitRound (WithReliabilityCheck (main_round_type plain_input ot et commit_msg)
         (echo_round_type plain_input ot et commit_msg))),
       (decommit_msg, AwaitRound (Unmodified (main_round_type plain_input ot et decommit_msg)))) \<and>
    rounds (mp_router (we_party x)) =
       [0 \<mapsto> Some \<lparr>br_type = main_round_type plain_input ot et commit_msg, br_state = InProgress (MainRound c)\<rparr>,
        1 \<mapsto> Some \<lparr>br_type = echo_round_type plain_input ot et commit_msg, br_state = InProgress (EchoRound e)\<rparr>,
        2 \<mapsto> Some \<lparr>br_type = main_round_type plain_input ot et decommit_msg, br_state = InProgress (PlainRound s2)\<rparr>] \<and>
    mp_io (we_party x) = \<lparr>incomings = \<lparr>st_items = items, st_closed = closed\<rparr>, outgoings = []\<rparr> \<and>
    sent_reliable_msgs x = [0 \<mapsto> None]"
    using s s2 more
    by (simp add: define_rounds_def round_reliable_broadcast_def round_broadcast_def echo_ops_def echo_add_round_def
        echo_rg_party_def echo_wrap_def read_plain_input MpcParty_connected_halves_def MpcParty_connected_def
        Halves_new_def MpcParty_add_round_def add_round_def RoundsRouter_new_def ProcessRoundMessageImpl_new_def
        plain_input_sel echo_finish_setup_def map_party_def MpcParty_finish_setup_def Let_def)
  then show thesis using that s(4) s2(1) by blast
qed

type_synonym echo_rg_error =
  "(((round_input_error with_echo_error, nat) complete_round_error, nat) echo_complete_error, nat with_echo_error) rg_error"

text \<open>The two rounds of the protocol, and the party once it has sent its commitment.\<close>

abbreviation commit_round where
  "commit_round ot et \<equiv> (commit_msg, AwaitRound (WithReliabilityCheck (main_round_type plain_input ot et commit_msg)
     (echo_round_type plain_input ot et commit_msg)))"

abbreviation decommit_round where
  "decommit_round ot et \<equiv> (decommit_msg, AwaitRound (Unmodified (main_round_type plain_input ot et decommit_msg)))"

definition rg_ready where
  "rg_ready ot et com items closed c e s2 x \<longleftrightarrow>
     rounds (mp_router (we_party x)) =
       [0 \<mapsto> Some \<lparr>br_type = main_round_type plain_input ot et commit_msg, br_state = InProgress (MainRound c)\<rparr>,
        1 \<mapsto> Some \<lparr>br_type = echo_round_type plain_input ot et commit_msg, br_state = InProgress (EchoRound e)\<rparr>,
        2 \<mapsto> Some \<lparr>br_type = main_round_type plain_input ot et decommit_msg, br_state = InProgress (PlainRound s2)\<rparr>] \<and>
     mp_io (we_party x) = \<lparr>incomings = \<lparr>st_items = items, st_closed = closed\<rparr>,
       outgoings = [Outgoing_all_parties (MainMsg (CommitMsg com))]\<rparr> \<and>
     sent_reliable_msgs x = [0 \<mapsto> Some (CommitMsg com)]"

lemma echo_rg_start:
  assumes idx: "2 \<le> n" "i < n" and rng: "fill_bytes rng (replicate 32 0) = (rng', own)"
  obtains c e s2 x where "reliable_stores i n c e" "RoundInput_broadcast i n = Ret s2"
    "rg_start (echo_engine hash ot et) digest fill_bytes (echo_rg_party i n items closed) i n rng =
       Ret (x, rng', Ok (AwaitCommitments (commit_round ot et) (decommit_round ot et) own))"
    "rg_ready ot et (digest own) items closed c e s2 x"
proof -
  obtain c e s2 x where s: "reliable_stores i n c e" "RoundInput_broadcast i n = Ret s2"
    and x: "define_rounds (echo_engine hash ot et) (echo_rg_party i n items closed) i n =
      Ret (x, commit_round ot et, decommit_round ot et)"
    "rounds (mp_router (we_party x)) =
       [0 \<mapsto> Some \<lparr>br_type = main_round_type plain_input ot et commit_msg, br_state = InProgress (MainRound c)\<rparr>,
        1 \<mapsto> Some \<lparr>br_type = echo_round_type plain_input ot et commit_msg, br_state = InProgress (EchoRound e)\<rparr>,
        2 \<mapsto> Some \<lparr>br_type = main_round_type plain_input ot et decommit_msg, br_state = InProgress (PlainRound s2)\<rparr>]"
    "mp_io (we_party x) = \<lparr>incomings = \<lparr>st_items = items, st_closed = closed\<rparr>, outgoings = []\<rparr>"
    "sent_reliable_msgs x = [0 \<mapsto> None]"
    using echo_define_rounds [OF idx] .
  have "\<exists>x'. rg_start (echo_engine hash ot et) digest fill_bytes (echo_rg_party i n items closed) i n rng =
       Ret (x', rng', Ok (AwaitCommitments (commit_round ot et) (decommit_round ot et) own)) \<and>
     rg_ready ot et (digest own) items closed c e s2 x'"
    using x rng
    by (simp add: rg_start_def rg_ready_def reliably_broadcast_def echo_ops_def echo_send_def on_send_def
        Outgoing_reliable_broadcast_def Outgoing_map_def Outgoing_all_parties_def Let_def)
  then show thesis using that s by blast
qed

lemma rg_start_idx:
  assumes "rg_start E digest fill_bytes mpc i n rng = Ret r"
  shows "2 \<le> n" "i < n"
  using assms
  by (auto simp: rg_start_def define_rounds_def round_reliable_broadcast_def RoundInput_reliable_broadcast_def
      RoundInput_new_def split: or_panic.splits if_splits)

text \<open>What a completed run of the protocol did.\<close>

lemma echo_rg_sound:
  assumes start: "rg_start (echo_engine hash ot et) digest fill_bytes (echo_rg_party i n items closed) i n rng =
      Ret (x, rng', Ok fut)"
    and poll: "rg_poll (echo_engine hash ot et) digest x fut = (x', fut', Ready (Ok out))"
    and own: "own = snd (fill_bytes rng (replicate 32 0))"
  obtains c e ms h commitments openings where
    "reliable_stores i n c e" "reliable_result hash commit_msg (digest own) c e ms h commitments"
    "\<forall>m \<in> set ms. Ok m \<in> set items"
    "outgoings (mp_io (we_party x')) = [Outgoing_all_parties (MainMsg (CommitMsg (digest own))),
       Outgoing_all_parties (Echo 0 h), Outgoing_all_parties (MainMsg (DecommitMsg own))]"
    "RoundMsgs_wf openings n" "rm_i openings = i" "open_commitments digest own commitments openings =
       (Ok out :: echo_rg_error + bytes)"
proof -
  let ?E = "echo_engine hash ot et"
  note idx = rg_start_idx [OF start]
  have rng: "fill_bytes rng (replicate 32 0) = (fst (fill_bytes rng (replicate 32 0)), own)" using own by simp
  obtain c e s2 x0 where s: "reliable_stores i n c e" "RoundInput_broadcast i n = Ret s2"
    and "rg_start ?E digest fill_bytes (echo_rg_party i n items closed) i n rng =
       Ret (x0, fst (fill_bytes rng (replicate 32 0)), Ok (AwaitCommitments (commit_round ot et) (decommit_round ot et) own))"
    and "rg_ready ot et (digest own) items closed c e s2 x0"
    using echo_rg_start [where fill_bytes = fill_bytes and digest = digest and hash = hash, OF idx rng] .
  then have fut: "fut = AwaitCommitments (commit_round ot et) (decommit_round ot et) own"
    and ready: "rg_ready ot et (digest own) items closed c e s2 x"
    using start by simp_all
  let ?Ec = "MpcParty_engine rg_round (recorder :: (_, _, nat) sink) plain_input ot et commit_msg"
  let ?Ed = "MpcParty_engine rg_round (recorder :: (_, _, nat) sink) plain_input ot et decommit_msg"
  obtain x1 f1 commitments x2 f2 openings where
    c1: "poll_complete hash ?Ec commit_msg x (snd (commit_round ot et)) = (x1, f1, Ready (Ok commitments))"
    and send: "echo_send (MpcParty_send recorder) rg_round x1 (Outgoing_all_parties (DecommitMsg own)) = (x2, Ok ())"
    and c2: "poll_complete hash ?Ed decommit_msg x2 (snd (decommit_round ot et)) = (x', f2, Ready (Ok openings))"
    and out: "open_commitments digest own commitments openings =
       (Ok out :: echo_rg_error + bytes)"
    using poll unfolding fut
    by (auto simp: rg_poll_def poll_round2_def send_to_all_def echo_ops_def split: prod.splits poll.splits sum.splits)
  have main: "rounds (mp_router (we_party x)) (2 * ROUND commit_msg) =
      Some (Some \<lparr>br_type = main_round_type plain_input ot et commit_msg, br_state = InProgress (MainRound c)\<rparr>)"
    "rounds (mp_router (we_party x)) (2 * ROUND commit_msg + 1) =
      Some (Some \<lparr>br_type = echo_round_type plain_input ot et commit_msg, br_state = InProgress (EchoRound e)\<rparr>)"
    "sent_reliable_msgs x (ROUND commit_msg) = Some (Some (to_protocol_msg commit_msg (digest own)))"
    using ready by (simp_all add: rg_ready_def)
  obtain ms h where ms: "reliable_result hash commit_msg (digest own) c e ms h commitments"
    "items = map Ok ms @ st_items (incomings (mp_io (we_party x1)))"
    "outgoings (mp_io (we_party x1)) = [Outgoing_all_parties (MainMsg (CommitMsg (digest own))),
       Outgoing_all_parties (Echo 0 h)]"
    "\<And>k. k \<noteq> 0 \<Longrightarrow> k \<noteq> 1 \<Longrightarrow> rounds (mp_router (we_party x1)) k =
       rounds (received_all (echo_msg_round rg_round) (mp_router (we_party x)) ms) k"
    "sent_reliable_msgs x1 = Map.empty"
    using reliable_complete_sound [OF c1 [simplified] main commit.from_to] ready
    by (auto simp: rg_ready_def recorder_def)
  have x2: "mp_router (we_party x2) = mp_router (we_party x1)" "incomings (mp_io (we_party x2)) = incomings (mp_io (we_party x1))"
    "outgoings (mp_io (we_party x2)) = outgoings (mp_io (we_party x1)) @ [Outgoing_all_parties (MainMsg (DecommitMsg own))]"
    using send ms(5) by (auto simp: echo_send_def on_send_def Outgoing_all_parties_def Outgoing_map_def Let_def)
  have "rounds (mp_router (we_party x2)) (2 * ROUND decommit_msg) = Some (Some \<lparr>br_type = main_round_type plain_input ot et decommit_msg,
      br_state = foldl (process_message (echo_msg_round rg_round) (main_round_type plain_input ot et decommit_msg))
        (InProgress (PlainRound s2)) (filter (\<lambda>m. echo_msg_round rg_round (inc_msg m) = 2) ms)\<rparr>)"
    using ms(4) [of 2] ready by (simp add: x2 rg_ready_def received_all_rounds box_receive_all)
  from plain_complete_sound [OF c2 [simplified] this] obtain ms' ys s' where plain: "store_feed RoundInput_add_message s2 ys = (s', Ok ())"
    "RoundInput_output s' = Ok openings" "outgoings (mp_io (we_party x')) = outgoings (mp_io (we_party x2))"
    by (auto simp: plain_input_sel)
  have new: "RoundInput_new i n (Broadcast False) = Ret s2" using s(2) by (simp add: RoundInput_broadcast_def)
  have "RoundInput_wf s'" "ri_i s' = i" "ri_n s' = n"
    using feed_wf [OF plain(1) RoundInput_new_wf [OF new]] new by (simp_all add: RoundInput_new_ret)
  then have "RoundMsgs_wf openings n" "rm_i openings = i"
    using RoundInput_output_wf [OF _ plain(2)] by auto
  then show thesis using that s(1) ms(1,2,3) x2(3) plain(3) out by auto
qed

text \<open>
  Party \<open>i\<close> of \<open>n\<close> runs the protocol on the items of its stream and ends with the output \<open>out\<close>, in state \<open>x\<close>.
\<close>

definition echo_rg_run where
  "echo_rg_run hash ot et digest fill_bytes n i rng items x out \<longleftrightarrow>
     (\<exists>closed x0 rng' fut fut'.
        rg_start (echo_engine hash ot et) digest fill_bytes (echo_rg_party i n items closed) i n rng = Ret (x0, rng', Ok fut) \<and>
        rg_poll (echo_engine hash ot et) digest x0 fut = (x, fut', Ready (Ok out)))"

definition sent_msgs where
  "sent_msgs x = map out_msg (outgoings (mp_io (we_party x)))"

lemma echo_rg_runs_agree:
  assumes collision_free: "\<And>xs ys. hash xs (ROUND commit_msg) n = hash ys (ROUND commit_msg) n \<Longrightarrow> xs = ys"
      "\<And>x y. digest x = digest y \<Longrightarrow> x = y"
    and run_i: "echo_rg_run hash ot et digest fill_bytes n i rng_i items_i x_i out_i"
    and run_j: "echo_rg_run hash ot et digest fill_bytes n j rng_j items_j x_j out_j"
    and own: "own_i = snd (fill_bytes rng_i (replicate 32 0))" "own_j = snd (fill_bytes rng_j (replicate 32 0))"
      "length own_i = 32" "length own_j = 32"
    and auth: "\<And>m. Ok m \<in> set items_i \<Longrightarrow> inc_sender m = j \<Longrightarrow> inc_msg m \<in> set (sent_msgs x_j)"
    and ne: "j \<noteq> i"
  shows "\<exists>xs. length xs = unat n \<and> xs ! unat i = own_i \<and> xs ! unat j = own_j \<and>
     out_i = xor_all xs \<and> out_j = xor_all xs"
proof -
  obtain c_i e_i ms_i h_i cm_i op_i where i: "reliable_stores i n c_i e_i"
    "reliable_result hash commit_msg (digest own_i) c_i e_i ms_i h_i cm_i" "\<forall>m \<in> set ms_i. Ok m \<in> set items_i"
    "RoundMsgs_wf op_i n" "rm_i op_i = i" "open_commitments digest own_i cm_i op_i = (Ok out_i :: echo_rg_error + bytes)"
  proof -
    obtain closed x0 rng' fut fut' where
      "rg_start (echo_engine hash ot et) digest fill_bytes (echo_rg_party i n items_i closed) i n rng_i = Ret (x0, rng', Ok fut)"
      "rg_poll (echo_engine hash ot et) digest x0 fut = (x_i, fut', Ready (Ok out_i))"
      using run_i unfolding echo_rg_run_def by blast
    then show thesis by (rule echo_rg_sound [where fill_bytes = fill_bytes, OF _ _ own(1)]) (rule that; assumption)
  qed
  obtain c_j e_j ms_j h_j cm_j op_j where j: "reliable_stores j n c_j e_j"
    "reliable_result hash commit_msg (digest own_j) c_j e_j ms_j h_j cm_j"
    "outgoings (mp_io (we_party x_j)) = [Outgoing_all_parties (MainMsg (CommitMsg (digest own_j))),
       Outgoing_all_parties (Echo 0 h_j), Outgoing_all_parties (MainMsg (DecommitMsg own_j))]"
    "RoundMsgs_wf op_j n" "rm_i op_j = j" "open_commitments digest own_j cm_j op_j = (Ok out_j :: echo_rg_error + bytes)"
  proof -
    obtain closed x0 rng' fut fut' where
      "rg_start (echo_engine hash ot et) digest fill_bytes (echo_rg_party j n items_j closed) j n rng_j = Ret (x0, rng', Ok fut)"
      "rg_poll (echo_engine hash ot et) digest x0 fut = (x_j, fut', Ready (Ok out_j))"
      using run_j unfolding echo_rg_run_def by blast
    then show thesis by (rule echo_rg_sound [where fill_bytes = fill_bytes, OF _ _ own(2)]) (rule that; assumption)
  qed
  have auth': "h = h_j" if "m \<in> set ms_i" "inc_sender m = j" "inc_msg m = Echo (ROUND commit_msg) h" for m h
    using auth [OF i(3) [rule_format, OF that(1)] that(2)] that(3) by (auto simp: sent_msgs_def j(3) Outgoing_all_parties_def)
  have agree: "iter_including_me cm_i (digest own_i) = iter_including_me cm_j (digest own_j)"
    "RoundMsgs_wf cm_i n" "rm_i cm_i = i" "RoundMsgs_wf cm_j n" "rm_i cm_j = j"
    by (rule reliable_results_agree [OF collision_free(1) rg_lawful(1) i(1,2) j(1,2) auth' ne]; assumption)+
  have me: "rm_i op_i = rm_i cm_i" "rm_i op_j = rm_i cm_j" using agree(3,5) i(5) j(5) by simp_all
  have same: "iter_including_me op_i own_i = iter_including_me op_j own_j" "out_i = out_j"
    by (rule opened_lists_agree [OF collision_free(2) agree(2) i(4) me(1) i(6) own(3) agree(4) j(4) me(2) j(6) own(4) agree(1)]; assumption)+
  have out: "out_i = xor_all (iter_including_me op_i own_i)"
    using iffD1 [OF open_commitments_ok [OF agree(2) i(4) me(1) own(3)] i(6)] by (rule conjunct2)
  have lt: "i < n" "j < n" using reliable_stores_ongoing(5) [OF i(1)] reliable_stores_ongoing(5) [OF j(1)] .
  have "iter_including_me op_i own_i ! unat i = own_i"
    using iter_including_me_nth [OF i(4) lt(1), of own_i] i(5) by simp
  moreover have "iter_including_me op_i own_i ! unat j = own_j"
    using iter_including_me_nth [OF j(4) lt(2), of own_j] j(5) unfolding same(1) by simp
  moreover have "length (iter_including_me op_i own_i) = unat n" by (rule length_iter_including_me [OF i(4)])
  ultimately show ?thesis
    using out same(2) by (intro exI [of _ "iter_including_me op_i own_i"]) simp
qed

subsection \<open>Honest parties\<close>

text \<open>The messages of round \<open>k\<close> of the engine among those received.\<close>

definition engine_round :: "u16 \<Rightarrow> ('d, rg_msg) echo_msg incoming list \<Rightarrow> ('d, rg_msg) echo_msg incoming list" where
  "engine_round k ms = filter (\<lambda>m. echo_msg_round rg_round (inc_msg m) = k) ms"

text \<open>
  Every other party sent one message in each of the three rounds of the engine: \<open>digest (xs ! s)\<close>, the
  hash \<open>h\<close> and \<open>xs ! s\<close>.
\<close>

definition honest_echo_msgs ::
  "(bytes \<Rightarrow> bytes) \<Rightarrow> 'd \<Rightarrow> bytes list \<Rightarrow> u16 \<Rightarrow> u16 \<Rightarrow> ('d, rg_msg) echo_msg incoming list \<Rightarrow> bool" where
  "honest_echo_msgs digest h xs i n ms \<longleftrightarrow>
     (\<forall>m \<in> set ms. inc_msg_type m = Broadcast False \<and>
        inc_msg m \<in> {MainMsg (CommitMsg (digest (xs ! unat (inc_sender m)))), Echo 0 h,
          MainMsg (DecommitMsg (xs ! unat (inc_sender m)))}) \<and>
     (\<forall>k \<in> {0, 1, 2}. distinct (map inc_sender (engine_round k ms)) \<and>
        set (map inc_sender (engine_round k ms)) = {s. s \<noteq> i \<and> s < n})"

lemma engine_round_msgs:
  assumes "honest_echo_msgs digest h xs i n ms"
  shows "\<forall>m \<in> set (engine_round 0 ms). inc_msg m = MainMsg (CommitMsg (digest (xs ! unat (inc_sender m))))"
    and "\<forall>m \<in> set (engine_round 1 ms). inc_msg m = Echo 0 h"
    and "\<forall>m \<in> set (engine_round 2 ms). inc_msg m = MainMsg (DecommitMsg (xs ! unat (inc_sender m)))"
    and "\<forall>m \<in> set (engine_round k ms). inc_msg_type m = Broadcast False"
    and "\<forall>m \<in> set ms. echo_msg_round rg_round (inc_msg m) \<in> {0, 1, 2}"
  using assms by (force simp: honest_echo_msgs_def engine_round_def)+

definition honest_part_of :: "('m incoming \<Rightarrow> 'a) \<Rightarrow> 'm incoming list \<Rightarrow> 'a incoming list" where
  "honest_part_of f ms = map (\<lambda>m. Incoming_map (\<lambda>_. f m) m) ms"

lemma honest_part_of_sel:
  "map inc_sender (honest_part_of f ms) = map inc_sender ms"
  "y \<in> set (honest_part_of f ms) \<longleftrightarrow> (\<exists>m \<in> set ms. y = Incoming_map (\<lambda>_. f m) m)"
  "list_all2 P ms (honest_part_of f ms) \<longleftrightarrow> (\<forall>m \<in> set ms. P m (Incoming_map (\<lambda>_. f m) m))"
  by (auto simp: honest_part_of_def comp_def Incoming_map_def list_all2_map2 list.rel_refl_strong list_all2_same)

lemma one_each_part:
  assumes "honest_echo_msgs digest h xs i n ms" and "k \<in> {0, 1, 2}"
  shows "one_each i n (Broadcast False) (honest_part_of f (engine_round k ms))"
  using assms engine_round_msgs(4) [OF assms(1), of k]
  by (auto simp: one_each_def honest_echo_msgs_def honest_part_of_sel list_all_iff Incoming_map_def)

lemma messages_among: "set (rm_messages r) \<subseteq> set (iter_including_me r x)"
proof -
  have "set (rm_messages r) = set (take (unat (rm_i r)) (rm_messages r)) \<union> set (drop (unat (rm_i r)) (rm_messages r))"
    by (metis append_take_drop_id set_append)
  then show ?thesis by (auto simp: iter_including_me_def)
qed

text \<open>The engine completes all three rounds.\<close>

lemma honest_rounds_complete:
  assumes idx: "2 \<le> n" "i < n" "length xs = unat n" and honest: "honest_echo_msgs digest h xs i n ms"
    and h: "h = hash (map (\<lambda>x. Some (CommitMsg (digest x))) xs) 0 n"
    and s: "reliable_stores i n c e" "RoundInput_broadcast i n = Ret s2"
    and ready: "rg_ready ot et com items closed c e s2 x"
  obtains nm check out echoes openings where
    "rounds (received_all (echo_msg_round rg_round) (mp_router (we_party x)) ms) 0 = Some (Some
       \<lparr>br_type = main_round_type plain_input ot et commit_msg, br_state = Completed (Ok (MainOutput nm))\<rparr>)"
    "rounds (received_all (echo_msg_round rg_round) (mp_router (we_party x)) ms) 1 = Some (Some
       \<lparr>br_type = echo_round_type plain_input ot et commit_msg, br_state = Completed (Ok (EchoOutput echoes))\<rparr>)"
    "rounds (received_all (echo_msg_round rg_round) (mp_router (we_party x)) ms) 2 = Some (Some
       \<lparr>br_type = main_round_type plain_input ot et decommit_msg, br_state = Completed (Ok (PlainOutput openings))\<rparr>)"
    "with_my_msg hash commit_msg nm (Some (digest (xs ! unat i))) = Ok (check, h)"
    "with_echo_output check echoes = Ok out"
    "RoundMsgs_wf out n" "rm_i out = i" "iter_including_me out (digest (xs ! unat i)) = map digest xs"
    "RoundMsgs_wf openings n" "rm_i openings = i" "iter_including_me openings (xs ! unat i) = xs"
proof -
  let ?k = "\<lambda>k. engine_round k ms"
  define cs where "cs = honest_part_of (\<lambda>m. digest (xs ! unat (inc_sender m))) (?k 0)"
  define es where "es = honest_part_of (\<lambda>m. h) (?k 1)"
  define ds where "ds = honest_part_of (\<lambda>m. xs ! unat (inc_sender m)) (?k 2)"
  note msgs = engine_round_msgs [OF honest]
  have each: "one_each i n (Broadcast False) cs" "one_each i n (Broadcast False) es" "one_each i n (Broadcast False) ds"
    unfolding cs_def es_def ds_def by (rule one_each_part [OF honest]; simp)+
  let ?es = "round_output i n es" and ?ds = "round_output i n ds"
  have "iter_including_me ?es h = map (\<lambda>_. h) xs"
    by (rule round_output_lists(2) [OF idx(2) each(2) idx(3)]) (auto simp: es_def honest_part_of_sel Incoming_map_def)
  then have "set (iter_including_me ?es h) \<subseteq> {h}" by auto
  then have echoes: "\<forall>e \<in> set (RoundMsgs_iter ?es). e = h"
    using messages_among [of ?es h] by (auto simp: RoundMsgs_iter_def)
  have ne: "cs \<noteq> []"
  proof
    assume "cs = []"
    then have "set (others i n) = {}" using each(1) set_others [OF idx(2)] by (simp add: one_each_def)
    then show False using idx(1) length_others [of i n] by (simp add: unat_le_iff)
  qed
  have dcs: "distinct (map inc_sender cs)" "set (map inc_sender cs) = {s. s \<noteq> i \<and> s < n}"
    using each(1) by (simp_all add: one_each_def)
  have sent: "\<forall>m \<in> set cs. inc_msg m = map digest xs ! unat (inc_sender m)"
  proof
    fix m assume m: "m \<in> set cs"
    then have "inc_sender m < n" using dcs(2) by auto
    then show "inc_msg m = map digest xs ! unat (inc_sender m)"
      using m idx(3) by (auto simp: cs_def honest_part_of_sel Incoming_map_def unat_less_iff)
  qed
  obtain nm check out where nm: "main_round_result commit_msg i n cs nm"
    "with_my_msg hash commit_msg nm (Some (map digest xs ! unat i)) = Ok (check, h)"
    "with_echo_output check ?es = Ok out" "iter_including_me out (map digest xs ! unat i) = map digest xs"
    using honest_reliable_round [where hash = hash and h = h and echoes = ?es, OF rg_lawful(1) idx(1,2) _ dcs sent]
      h echoes idx(3) by (auto simp: comp_def)
  have own: "map digest xs ! unat i = digest (xs ! unat i)" using idx(2,3) by (simp add: unat_less_iff)
  have "out = no_main_round_output nm"
    using nm(2,3) hash_of_result [OF commit.from_to nm(1), of hash "map digest xs ! unat i"]
    by (auto simp: Let_def with_echo_output_def split: if_splits)
  then have out: "RoundMsgs_wf out n" "rm_i out = i" using main_round_result_wf [OF commit.from_to nm(1)] by simp_all
  have "foldl (process_message (echo_msg_round rg_round) (main_round_type plain_input ot et commit_msg))
      (InProgress (MainRound c)) (?k 0) = Completed (Ok (MainOutput nm))"
    by (rule main_round_completes [OF nm(1) s(1) ne])
      (use msgs(1) in \<open>auto simp: cs_def honest_part_of_sel carries_def Incoming_map_def\<close>)
  moreover have "foldl (process_message (echo_msg_round rg_round) (echo_round_type plain_input ot et commit_msg))
      (InProgress (EchoRound e)) (?k 1) = Completed (Ok (EchoOutput ?es))"
  proof (rule echo_round_completes)
    from round_input_round_completes [OF reliable_stores_ongoing(3) [OF s(1)] each(2), of "[]"]
    show "foldl (store_step plain_input) (InProgress (er_echo_round e)) es = Completed (Ok ?es)" by simp
    show "list_all2 (\<lambda>m y. \<exists>z. carries_echo (ROUND commit_msg) m z \<and> y = Incoming_map echo_hash z) (?k 1) es"
      using msgs(2) unfolding es_def honest_part_of_sel by (auto simp: carries_echo_def Incoming_map_def)
  qed
  moreover have "foldl (process_message (echo_msg_round rg_round) (main_round_type plain_input ot et decommit_msg))
      (InProgress (PlainRound s2)) (?k 2) = Completed (Ok (PlainOutput ?ds))"
  proof (rule plain_round_completes)
    have "RoundInput_new i n (Broadcast False) = Ret s2" using s(2) by (simp add: RoundInput_broadcast_def)
    from round_input_round_completes [OF this each(3), of "[]"]
    show "foldl (store_step plain_input) (InProgress s2) ds = Completed (Ok ?ds)" by simp
    show "list_all2 (carries decommit_msg) (?k 2) ds"
      using msgs(3) unfolding ds_def honest_part_of_sel by (auto simp: carries_def Incoming_map_def)
  qed
  moreover
  have "\<forall>m \<in> set ds. inc_msg m = id (xs ! unat (inc_sender m))"
    by (auto simp: ds_def honest_part_of_sel Incoming_map_def)
  note ds = round_output_lists [OF idx(2) each(3) idx(3) this]
  have "RoundMsgs_wf ?ds n" "iter_including_me ?ds (xs ! unat i) = xs" using ds by simp_all
  moreover have "rm_i ?ds = i" by (simp add: round_output_def)
  ultimately show thesis
    using nm out own ready
    by (intro that [of nm ?es ?ds check out]) (simp_all add: rg_ready_def received_all_rounds box_receive_all engine_round_def)
qed

lemma honest_echo_run:
  assumes idx: "2 \<le> n" "i < n" "length xs = unat n" and honest: "honest_echo_msgs digest h xs i n ms"
    and h: "h = hash (map (\<lambda>x. Some (CommitMsg (digest x))) xs) 0 n"
    and own: "snd (fill_bytes rng (replicate 32 0)) = xs ! unat i" "length (xs ! unat i) = 32"
  shows "\<exists>x. echo_rg_run hash ot et digest fill_bytes n i rng (map Ok ms @ tail) x (xor_all xs) \<and>
     sent_msgs x = [MainMsg (CommitMsg (digest (xs ! unat i))), Echo 0 h, MainMsg (DecommitMsg (xs ! unat i))]"
proof -
  let ?own = "xs ! unat i" and ?rnd = "echo_msg_round rg_round" and ?items = "map Ok ms @ tail"
  have rng: "fill_bytes rng (replicate 32 0) = (fst (fill_bytes rng (replicate 32 0)), ?own)"
    using own(1) by (simp add: prod_eq_iff)
  obtain c e s2 x where s: "reliable_stores i n c e" "RoundInput_broadcast i n = Ret s2"
    and start: "rg_start (echo_engine hash ot et) digest fill_bytes (echo_rg_party i n ?items False) i n rng =
       Ret (x, fst (fill_bytes rng (replicate 32 0)), Ok (AwaitCommitments (commit_round ot et) (decommit_round ot et) ?own))"
    and ready: "rg_ready ot et (digest ?own) ?items False c e s2 x"
    using echo_rg_start [where fill_bytes = fill_bytes and digest = digest and hash = hash, OF idx(1,2) rng] .
  obtain nm check out echoes openings where fin:
    "rounds (received_all ?rnd (mp_router (we_party x)) ms) 0 = Some (Some
       \<lparr>br_type = main_round_type plain_input ot et commit_msg, br_state = Completed (Ok (MainOutput nm))\<rparr>)"
    "rounds (received_all ?rnd (mp_router (we_party x)) ms) 1 = Some (Some
       \<lparr>br_type = echo_round_type plain_input ot et commit_msg, br_state = Completed (Ok (EchoOutput echoes))\<rparr>)"
    "rounds (received_all ?rnd (mp_router (we_party x)) ms) 2 = Some (Some
       \<lparr>br_type = main_round_type plain_input ot et decommit_msg, br_state = Completed (Ok (PlainOutput openings))\<rparr>)"
    and check: "with_my_msg hash commit_msg nm (Some (digest ?own)) = Ok (check, h)" "with_echo_output check echoes = Ok out"
    and lists: "RoundMsgs_wf out n" "rm_i out = i" "iter_including_me out (digest ?own) = map digest xs"
    "RoundMsgs_wf openings n" "rm_i openings = i" "iter_including_me openings ?own = xs"
    using honest_rounds_complete [where hash = hash, OF idx honest h s ready] .
  have dom: "\<forall>m \<in> set ms'. ?rnd (inc_msg m) \<in> dom (rounds rt)"
    if "set ms' \<subseteq> set ms" "dom (rounds rt) = dom (rounds (mp_router (we_party x)))" for ms' rt
    using engine_round_msgs(5) [OF honest] that ready by (auto simp: rg_ready_def)
  have io: "incomings (mp_io (we_party x)) = \<lparr>st_items = map Ok ms @ tail, st_closed = False\<rparr>"
    "outgoings (mp_io (we_party x)) = [Outgoing_all_parties (MainMsg (CommitMsg (digest ?own)))]"
    "sent_reliable_msgs x = [0 \<mapsto> Some (CommitMsg (digest ?own))]"
    using ready by (simp_all add: rg_ready_def)
  let ?Rm = "main_round_type plain_input ot et commit_msg" and ?Re = "echo_round_type plain_input ot et commit_msg"
  let ?Rd = "main_round_type plain_input ot et decommit_msg"
  obtain p1 suf1 where p1: "MpcParty_complete ?rnd (we_party x) ?Rm = (p1, Ready (Ok (MainOutput nm)))"
    "incomings (mp_io p1) = \<lparr>st_items = map Ok suf1 @ tail, st_closed = False\<rparr>"
    "outgoings (mp_io p1) = outgoings (mp_io (we_party x))" "dom (rounds (mp_router p1)) = dom (rounds (mp_router (we_party x)))"
    "set suf1 \<subseteq> set ms" "\<And>k. k \<noteq> 0 \<Longrightarrow>
        rounds (received_all ?rnd (mp_router p1) suf1) k = rounds (received_all ?rnd (mp_router (we_party x)) ms) k"
    using complete_among_rounds [where R = ?Rm, OF io(1), of ?rnd "Ok (MainOutput nm)"] dom [OF subset_refl refl] fin(1) by auto
  define p2 where "p2 = fst (MpcParty_send recorder p1 (Outgoing_all_parties (Echo 0 h)))"
  have p2: "mp_router p2 = mp_router p1" "incomings (mp_io p2) = incomings (mp_io p1)"
    "outgoings (mp_io p2) = outgoings (mp_io p1) @ [Outgoing_all_parties (Echo 0 h)]"
    by (simp_all add: p2_def)
  obtain p3 suf3 where p3: "MpcParty_complete ?rnd p2 ?Re = (p3, Ready (Ok (EchoOutput echoes)))"
    "incomings (mp_io p3) = \<lparr>st_items = map Ok suf3 @ tail, st_closed = False\<rparr>"
    "outgoings (mp_io p3) = outgoings (mp_io p2)" "dom (rounds (mp_router p3)) = dom (rounds (mp_router p2))"
    "set suf3 \<subseteq> set suf1" "\<And>k. k \<noteq> 1 \<Longrightarrow>
        rounds (received_all ?rnd (mp_router p3) suf3) k = rounds (received_all ?rnd (mp_router p2) suf1) k"
    using complete_among_rounds [where R = ?Re and p = p2 and ms = suf1 and tail = tail and closed = False,
        of ?rnd "Ok (EchoOutput echoes)"] dom [OF p1(5), of "mp_router p1"] fin(2) p1(2,4) p1(6) [of 1] p2 by auto
  define p4 where "p4 = fst (MpcParty_send recorder p3 (Outgoing_all_parties (MainMsg (DecommitMsg ?own))))"
  have p4: "mp_router p4 = mp_router p3" "incomings (mp_io p4) = incomings (mp_io p3)"
    "outgoings (mp_io p4) = outgoings (mp_io p3) @ [Outgoing_all_parties (MainMsg (DecommitMsg ?own))]"
    by (simp_all add: p4_def)
  obtain p5 suf5 where p5: "MpcParty_complete ?rnd p4 ?Rd = (p5, Ready (Ok (PlainOutput openings)))"
    "outgoings (mp_io p5) = outgoings (mp_io p4)"
    using complete_among_rounds [where R = ?Rd and p = p4 and ms = suf3 and tail = tail and closed = False,
        of ?rnd "Ok (PlainOutput openings)"] dom [OF subset_trans [OF p3(5) p1(5)], of "mp_router p3"] fin(3)
      p3(2,4) p3(6) [of 2] p1(4) p1(6) [of 2] p2(1) p4 by auto
  have "open_commitments digest ?own out openings = (Ok (xor_all xs) :: echo_rg_error + bytes)"
  proof -
    have me: "rm_i openings = rm_i out" using lists(2,5) by simp
    have "\<forall>j. j < n \<longrightarrow> iter_including_me out (digest ?own) ! unat j = digest (iter_including_me openings ?own ! unat j)"
      using lists(3,6) idx(3) by (simp add: unat_less_iff)
    then have "cheaters digest n out openings = []"
      unfolding cheaters_empty_iff [OF lists(1,4) me, of digest ?own, symmetric] .
    then show ?thesis unfolding open_commitments_ok [OF lists(1,4) me own(2)] using lists(6) by simp
  qed
  moreover have "\<exists>x' fut'. rg_poll (echo_engine hash ot et) digest x
      (AwaitCommitments (commit_round ot et) (decommit_round ot et) ?own) =
      (x', fut', Ready (open_commitments digest ?own out openings)) \<and> we_party x' = p5"
  proof -
    have send: "MpcParty_send recorder p1 (Outgoing_all_parties (Echo 0 h)) = (p2, Ok ())"
      "MpcParty_send recorder p3 (Outgoing_all_parties (MainMsg (DecommitMsg ?own))) = (p4, Ok ())"
      by (simp_all add: p2_def p4_def)
    then show ?thesis
      using p1(1) p3(1) p5(1) check io(3)
      by (simp add: rg_poll_def poll_round2_def echo_ops_def poll_complete_def poll_echoes_def take_sent_msg_def
          send_to_all_def echo_send_def on_send_def Outgoing_all_parties_def Outgoing_map_def Let_def del: recorder_send)
  qed
  ultimately obtain x' fut' where poll: "rg_poll (echo_engine hash ot et) digest x
      (AwaitCommitments (commit_round ot et) (decommit_round ot et) ?own) = (x', fut', Ready (Ok (xor_all xs)))"
    and x': "we_party x' = p5" by auto
  have "sent_msgs x' = [MainMsg (CommitMsg (digest ?own)), Echo 0 h, MainMsg (DecommitMsg ?own)]"
    using p5(2) p4(3) p3(3) p2(3) p1(3) io(2) by (simp add: sent_msgs_def x' Outgoing_all_parties_def)
  then show ?thesis using start poll unfolding echo_rg_run_def by blast
qed

subsection \<open>Properties\<close>

text \<open>C9: Parties agree on the randomness over the whole stack. Two parties run the protocol over echo
  broadcast over \<open>MpcParty\<close>, on any streams of messages, and both end with an output. Let what the one
  receives from the other be what the other sent, let the hash of the echoes and the digest of the
  commitments be injective, and let the strings drawn have 32 bytes.
  Then, whatever the other parties sent to each of the two, both outputs are the xor of the same \<open>n\<close>
  strings, among them the strings that the two parties drew themselves.\<close>

theorem echo_random_generation_agreement:
  assumes collision_free: "\<And>xs ys. hash xs (ROUND commit_msg) n = hash ys (ROUND commit_msg) n \<Longrightarrow> xs = ys"
      "\<And>x y. digest x = digest y \<Longrightarrow> x = y"
    and run_i: "echo_rg_run hash ot et digest fill_bytes n i rng_i items_i x_i out_i"
    and run_j: "echo_rg_run hash ot et digest fill_bytes n j rng_j items_j x_j out_j"
    and own: "own_i = snd (fill_bytes rng_i (replicate 32 0))" "own_j = snd (fill_bytes rng_j (replicate 32 0))"
      "length own_i = 32" "length own_j = 32"
    and auth: "\<And>m. Ok m \<in> set items_i \<Longrightarrow> inc_sender m = j \<Longrightarrow> inc_msg m \<in> set (sent_msgs x_j)"
    and ne: "j \<noteq> i"
  shows "\<exists>xs. length xs = unat n \<and> xs ! unat i = own_i \<and> xs ! unat j = own_j \<and>
     out_i = xor_all xs \<and> out_j = xor_all xs"
  using collision_free run_i run_j own auth ne by (rule echo_rg_runs_agree)

text \<open>Parties \<open>0\<close> and \<open>1\<close> of two. The messages that the party with index \<open>1 - i\<close> sends.\<close>

definition sample_echo_msgs ::
  "u16 \<Rightarrow> bytes \<Rightarrow> rg_msg option list \<Rightarrow> (rg_msg option list, rg_msg) echo_msg incoming list" where
  "sample_echo_msgs j y h = [sample_incoming 1 j (Broadcast False) (Echo 0 h),
     sample_incoming 2 j (Broadcast False) (MainMsg (DecommitMsg y)),
     sample_incoming 3 j (Broadcast False) (MainMsg (CommitMsg y))]"

lemma sample_honest_echo_msgs:
  assumes "{s. s \<noteq> i \<and> s < n} = {j}" and "y = xs ! unat j"
  shows "honest_echo_msgs id h xs i n (sample_echo_msgs j y h)"
  using assms by (simp add: honest_echo_msgs_def sample_echo_msgs_def sample_incoming_def engine_round_def)

abbreviation sample_opened :: "bytes list" where
  "sample_opened \<equiv> [replicate 32 7, replicate 32 8]"

abbreviation sample_echo_hash :: "rg_msg option list \<Rightarrow> u16 \<Rightarrow> u16 \<Rightarrow> rg_msg option list" where
  "sample_echo_hash xs r n \<equiv> xs"

abbreviation sample_fill :: "u8 \<Rightarrow> bytes \<Rightarrow> u8 \<times> bytes" where
  "sample_fill b zeros \<equiv> (b, map (\<lambda>_. b) zeros)"

abbreviation sample_commits :: "rg_msg option list" where
  "sample_commits \<equiv> [Some (CommitMsg (replicate 32 7)), Some (CommitMsg (replicate 32 8))]"

theorem echo_random_generation_agreement_witness:
  "\<exists>x_0 x_1. echo_rg_run sample_echo_hash unat unat id sample_fill 2 0 7
       (map Ok (sample_echo_msgs 1 (replicate 32 8) sample_commits) @ []) x_0 (xor_all sample_opened) \<and>
     echo_rg_run sample_echo_hash unat unat id sample_fill 2 1 8
       (map Ok (sample_echo_msgs 0 (replicate 32 7) sample_commits) @ []) x_1 (xor_all sample_opened) \<and>
     (\<exists>xs. length xs = unat (2 :: u16) \<and> xs ! unat (0 :: u16) = replicate 32 7 \<and> xs ! unat (1 :: u16) = replicate 32 8 \<and>
        xor_all sample_opened = xor_all xs \<and> xor_all sample_opened = xor_all xs)"
proof -
  have others: "{s. s \<noteq> 0 \<and> s < (2 :: u16)} = {1}" "{s. s \<noteq> 1 \<and> s < (2 :: u16)} = {0}"
    by (auto simp: u16_less_2)
  obtain x_0 where x_0: "echo_rg_run sample_echo_hash unat unat id sample_fill 2 0 7
      (map Ok (sample_echo_msgs 1 (replicate 32 8) sample_commits) @ []) x_0 (xor_all sample_opened)"
    using honest_echo_run [where hash = sample_echo_hash and fill_bytes = sample_fill and i = 0 and n = 2 and rng = 7 and
        ot = unat and et = unat and tail = "[]",
        OF _ _ _ sample_honest_echo_msgs [OF others(1), of "replicate 32 8" sample_opened sample_commits]]
    by (auto simp: map_replicate_const)
  obtain x_1 where x_1: "echo_rg_run sample_echo_hash unat unat id sample_fill 2 1 8
      (map Ok (sample_echo_msgs 0 (replicate 32 7) sample_commits) @ []) x_1 (xor_all sample_opened)"
    "sent_msgs x_1 = [MainMsg (CommitMsg (replicate 32 8)), Echo 0 sample_commits, MainMsg (DecommitMsg (replicate 32 8))]"
    using honest_echo_run [where hash = sample_echo_hash and fill_bytes = sample_fill and i = 1 and n = 2 and rng = 8 and
        ot = unat and et = unat and tail = "[]",
        OF _ _ _ sample_honest_echo_msgs [OF others(2), of "replicate 32 7" sample_opened sample_commits]]
    by (auto simp: map_replicate_const)
  have "\<exists>xs. length xs = unat (2 :: u16) \<and> xs ! unat (0 :: u16) = replicate 32 7 \<and> xs ! unat (1 :: u16) = replicate 32 8 \<and>
      xor_all sample_opened = xor_all xs \<and> xor_all sample_opened = xor_all xs"
    by (rule echo_random_generation_agreement [where hash = sample_echo_hash and fill_bytes = sample_fill and digest = id,
          OF _ _ x_0 x_1(1)])
      (auto simp: map_replicate_const sample_echo_msgs_def sample_incoming_def x_1(2))
  with x_0 x_1(1) show ?thesis by blast
qed

text \<open>C10: Honest parties generate the xor of their randomness over the whole stack. Party \<open>i\<close> of \<open>n\<close> runs the
  protocol over echo broadcast over \<open>MpcParty\<close>. If its stream delivers, in any order and any
  interleaving of the rounds, the commitment, the echo and the opening of every other party, then the
  party sends its commitment, the hash of all commitments and its opening, and ends with the xor of
  all strings. The hash that is sent does not depend on the party.\<close>

theorem honest_echo_random_generation:
  assumes idx: "2 \<le> n" "i < n" "length xs = unat n" and honest: "honest_echo_msgs digest h xs i n ms"
    and h: "h = hash (map (\<lambda>x. Some (CommitMsg (digest x))) xs) 0 n"
    and own: "snd (fill_bytes rng (replicate 32 0)) = xs ! unat i" "length (xs ! unat i) = 32"
  shows "\<exists>x. echo_rg_run hash ot et digest fill_bytes n i rng (map Ok ms @ tail) x (xor_all xs) \<and>
     sent_msgs x = [MainMsg (CommitMsg (digest (xs ! unat i))), Echo 0 h, MainMsg (DecommitMsg (xs ! unat i))]"
  by (rule honest_echo_run [where hash = hash and fill_bytes = fill_bytes, OF assms])

theorem honest_echo_random_generation_witness:
  "\<exists>x. echo_rg_run (\<lambda>xs r n. xs) unat unat id (\<lambda>b zeros. (b, map (\<lambda>_. b) zeros)) 2 0 (7 :: u8)
       (map Ok (sample_echo_msgs 1 (replicate 32 8) [Some (CommitMsg (replicate 32 7)), Some (CommitMsg (replicate 32 8))]) @ []) x
       (xor_all [replicate 32 7, replicate 32 8]) \<and>
     sent_msgs x = [MainMsg (CommitMsg (id ([replicate 32 7, replicate 32 8] ! unat (0 :: u16)))),
       Echo 0 [Some (CommitMsg (replicate 32 7)), Some (CommitMsg (replicate 32 8))],
       MainMsg (DecommitMsg ([replicate 32 7, replicate 32 8] ! unat (0 :: u16)))]"
proof -
  have others: "{s. s \<noteq> 0 \<and> s < (2 :: u16)} = {1}" by (auto simp: u16_less_2)
  show ?thesis
    by (rule honest_echo_random_generation [where n = 2 and i = 0 and hash = "\<lambda>(xs :: rg_msg option list) (r :: u16) (n :: u16). xs" and
          fill_bytes = "\<lambda>(b :: u8) zeros. (b, map (\<lambda>_ :: u8. b) zeros)", OF _ _ _ sample_honest_echo_msgs [OF others]])
      (simp_all add: map_replicate_const)
qed

end
