(* ===== verification/Async_Env.thy ===== *)
theory Async_Env
  imports RB_Delivery
begin

section \<open>The async simulation network\<close>

text \<open>
  \<open>round-based/src/sim/async_env.rs\<close>: parties as async tasks joined by one \<open>tokio\<close> broadcast channel.
  The channel is third-party code: a dictionary of the operations the source uses, with their
  documented behaviour as the locale below. The channel and the counter of message ids are shared
  by all parties (\<open>Arc\<close>): operations take and return the network; a party keeps its receiver.
\<close>

subsection \<open>The broadcast channel\<close>

text \<open>
  \<open>ch_new\<close> is \<open>broadcast::channel(capacity).0\<close>; \<open>ch_recv\<close> is \<open>poll_next\<close> of the \<open>BroadcastStream\<close> made by \<open>subscribe\<close>,
  whose error is the number of messages that were dropped.
\<close>

record ('c, 'q, 'x) channel_ops =
  ch_new :: "nat \<Rightarrow> 'c"
  ch_subscribe :: "'c \<Rightarrow> 'c \<times> 'q"
  ch_send :: "'c \<Rightarrow> 'x \<Rightarrow> 'c \<times> (unit + nat)"
  ch_recv :: "'c \<Rightarrow> 'q \<Rightarrow> 'q \<times> (u64 + 'x) option poll"

subsection \<open>The network\<close>

record 'c network =
  nw_channel :: 'c
  next_party_idx :: party_index
  next_msg_id :: msg_id

record 'q mocked_incoming =
  mi_local_party_idx :: party_index
  mi_receiver :: 'q

record mocked_outgoing =
  mo_local_party_idx :: party_index

datatype mocked_delivery_error = Recv u64 | SendError

type_synonym 'q mocked_delivery = "'q mocked_incoming \<times> mocked_outgoing"

definition DEFAULT_CAPACITY :: nat where
  "DEFAULT_CAPACITY = 500"

definition Network_with_capacity :: "('c, 'q, 'x) channel_ops \<Rightarrow> nat \<Rightarrow> 'c network" where
  "Network_with_capacity C capacity =
     \<lparr>nw_channel = ch_new C capacity, next_party_idx = 0, next_msg_id = 0\<rparr>"

definition Network_new :: "('c, 'q, 'x) channel_ops \<Rightarrow> 'c network" where
  "Network_new C = Network_with_capacity C 500"

definition connect_new_party ::
  "('c, 'q, 'x) channel_ops \<Rightarrow> 'c network \<Rightarrow> 'c network \<times> 'q mocked_delivery" where
  "connect_new_party C self =
     (let local_party_idx = next_party_idx self;
          self1 = self\<lparr>next_party_idx := next_party_idx self + 1\<rparr>;
          (c, receiver) = ch_subscribe C (nw_channel self1)
      in (self1\<lparr>nw_channel := c\<rparr>,
          (\<lparr>mi_local_party_idx = local_party_idx, mi_receiver = receiver\<rparr>,
           \<lparr>mo_local_party_idx = local_party_idx\<rparr>)))"

definition NextMessageId_next :: "'c network \<Rightarrow> 'c network \<times> msg_id" where
  "NextMessageId_next self = (self\<lparr>next_msg_id := next_msg_id self + 1\<rparr>, next_msg_id self)"

subsection \<open>Receiving and sending\<close>

text \<open>The loop of \<open>poll_next\<close> ends if the channel does not deliver forever; \<open>None\<close> is a loop that does not.\<close>

partial_function (option) MockedIncoming_poll_next ::
  "('c, 'q, 'm incoming outgoing) channel_ops \<Rightarrow> 'c \<Rightarrow> 'q mocked_incoming
     \<Rightarrow> ('q mocked_incoming \<times> (mocked_delivery_error + 'm incoming) option poll) option" where
  "MockedIncoming_poll_next C c self =
     (case ch_recv C c (mi_receiver self) of
        (q, r) \<Rightarrow>
          (case r of
             Pending \<Rightarrow> Some (self\<lparr>mi_receiver := q\<rparr>, Pending)
           | Ready None \<Rightarrow> Some (self\<lparr>mi_receiver := q\<rparr>, Ready None)
           | Ready (Some (Err e)) \<Rightarrow> Some (self\<lparr>mi_receiver := q\<rparr>, Ready (Some (Err (Recv e))))
           | Ready (Some (Ok msg)) \<Rightarrow>
               if MessageDestination_is_p2p (out_recipient msg) \<and>
                  out_recipient msg \<noteq> OneParty (mi_local_party_idx self)
               then MockedIncoming_poll_next C c (self\<lparr>mi_receiver := q\<rparr>)
               else Some (self\<lparr>mi_receiver := q\<rparr>, Ready (Some (Ok (out_msg msg))))))"

definition MockedOutgoing_poll_ready :: "(mocked_delivery_error + unit) poll" where
  "MockedOutgoing_poll_ready = Ready (Ok ())"

definition MockedOutgoing_poll_flush :: "(mocked_delivery_error + unit) poll" where
  "MockedOutgoing_poll_flush = Ready (Ok ())"

definition MockedOutgoing_poll_close :: "(mocked_delivery_error + unit) poll" where
  "MockedOutgoing_poll_close = Ready (Ok ())"

definition msg_type_of :: "message_destination \<Rightarrow> message_type" where
  "msg_type_of recipient =
     (case recipient of AllParties reliable \<Rightarrow> Broadcast reliable | OneParty _ \<Rightarrow> P2P)"

definition MockedOutgoing_start_send ::
  "('c, 'q, 'm incoming outgoing) channel_ops \<Rightarrow> 'c network \<Rightarrow> mocked_outgoing \<Rightarrow> 'm outgoing
     \<Rightarrow> 'c network \<times> (mocked_delivery_error + unit)" where
  "MockedOutgoing_start_send C nw self msg =
     (let msg_type = msg_type_of (out_recipient msg);
          (nw1, d) = NextMessageId_next nw;
          (c, r) = ch_send C (nw_channel nw1)
                     (Outgoing_map (\<lambda>m. \<lparr>inc_id = d, inc_sender = mo_local_party_idx self,
                                         inc_msg_type = msg_type, inc_msg = m\<rparr>) msg)
      in (nw1\<lparr>nw_channel := c\<rparr>,
          case r of Err _ \<Rightarrow> Err SendError | Ok _ \<Rightarrow> Ok ()))"

subsection \<open>Running a protocol\<close>

text \<open>
  \<open>connected\<close> is \<open>MpcParty::connected\<close> on the delivery, \<open>party_start\<close> the function that carries out the
  protocol; awaiting all the futures together (\<open>join_all\<close>) is a parameter.
\<close>

definition Network_add_party ::
  "('c, 'q, 'x) channel_ops \<Rightarrow> ('q mocked_delivery \<Rightarrow> 'p) \<Rightarrow> 'c network \<Rightarrow> 'c network \<times> 'p" where
  "Network_add_party C connected self =
     (case connect_new_party C self of (self', d) \<Rightarrow> (self', connected d))"

primrec start_parties ::
  "('c, 'q, 'x) channel_ops \<Rightarrow> ('q mocked_delivery \<Rightarrow> 'p) \<Rightarrow> (u16 \<Rightarrow> 'p \<Rightarrow> 's \<Rightarrow> 'f)
     \<Rightarrow> 'c network \<Rightarrow> ('s \<times> u16) list \<Rightarrow> 'c network \<times> 'f list" where
  "start_parties C connected party_start nw [] = (nw, [])"
| "start_parties C connected party_start nw (x # xs) =
     (case Network_add_party C connected nw of
        (nw1, party) \<Rightarrow>
          (case start_parties C connected party_start nw1 xs of
             (nw2, outs) \<Rightarrow> (nw2, party_start (snd x) party (fst x) # outs)))"

definition run_with_capacity_and_setup ::
  "('c, 'q, 'x) channel_ops \<Rightarrow> ('q mocked_delivery \<Rightarrow> 'p) \<Rightarrow> ('c network \<Rightarrow> 'f list \<Rightarrow> 'o) \<Rightarrow> nat \<Rightarrow> 's list
     \<Rightarrow> (u16 \<Rightarrow> 'p \<Rightarrow> 's \<Rightarrow> 'f) \<Rightarrow> 'o" where
  "run_with_capacity_and_setup C connected join_all capacity setups party_start =
     (case start_parties C connected party_start (Network_with_capacity C capacity)
             (zip setups (map of_nat [0..<length setups])) of
        (nw, outs) \<Rightarrow> join_all nw outs)"

definition async_run_with_setup ::
  "('c, 'q, 'x) channel_ops \<Rightarrow> ('q mocked_delivery \<Rightarrow> 'p) \<Rightarrow> ('c network \<Rightarrow> 'f list \<Rightarrow> 'o) \<Rightarrow> 's list
     \<Rightarrow> (u16 \<Rightarrow> 'p \<Rightarrow> 's \<Rightarrow> 'f) \<Rightarrow> 'o" where
  "async_run_with_setup C connected join_all setups party_start =
     run_with_capacity_and_setup C connected join_all DEFAULT_CAPACITY setups party_start"

definition run_with_capacity ::
  "('c, 'q, 'x) channel_ops \<Rightarrow> ('q mocked_delivery \<Rightarrow> 'p) \<Rightarrow> ('c network \<Rightarrow> 'f list \<Rightarrow> 'o) \<Rightarrow> nat \<Rightarrow> u16
     \<Rightarrow> (u16 \<Rightarrow> 'p \<Rightarrow> 'f) \<Rightarrow> 'o" where
  "run_with_capacity C connected join_all capacity n party_start =
     run_with_capacity_and_setup C connected join_all capacity (replicate (unat n) ())
       (\<lambda>i party _. party_start i party)"

definition async_run ::
  "('c, 'q, 'x) channel_ops \<Rightarrow> ('q mocked_delivery \<Rightarrow> 'p) \<Rightarrow> ('c network \<Rightarrow> 'f list \<Rightarrow> 'o) \<Rightarrow> u16
     \<Rightarrow> (u16 \<Rightarrow> 'p \<Rightarrow> 'f) \<Rightarrow> 'o" where
  "async_run C connected join_all n party_start =
     run_with_capacity C connected join_all DEFAULT_CAPACITY n party_start"

subsection \<open>Sequences of operations\<close>

text \<open>Messages sent one after the other by the parties, and what is put into the channel for them.\<close>

primrec send_all ::
  "('c, 'q, 'm incoming outgoing) channel_ops \<Rightarrow> 'c network \<Rightarrow> (party_index \<times> 'm outgoing) list \<Rightarrow> 'c network" where
  "send_all C nw [] = nw"
| "send_all C nw (x # xs) =
     send_all C (fst (MockedOutgoing_start_send C nw \<lparr>mo_local_party_idx = fst x\<rparr> (snd x))) xs"

definition labelled :: "msg_id \<Rightarrow> party_index \<Rightarrow> 'm outgoing \<Rightarrow> 'm incoming outgoing" where
  "labelled d sender m =
     Outgoing_map (\<lambda>x. \<lparr>inc_id = d, inc_sender = sender, inc_msg_type = msg_type_of (out_recipient m),
                        inc_msg = x\<rparr>) m"

primrec labelled_log :: "msg_id \<Rightarrow> (party_index \<times> 'm outgoing) list \<Rightarrow> 'm incoming outgoing list" where
  "labelled_log d [] = []"
| "labelled_log d (x # xs) = labelled d (fst x) (snd x) # labelled_log (d + 1) xs"

lemma length_labelled_log [simp]: "length (labelled_log d xs) = length xs"
  by (induction xs arbitrary: d) simp_all

definition for_party :: "party_index \<Rightarrow> 'm incoming outgoing \<Rightarrow> bool" where
  "for_party j x \<longleftrightarrow> \<not> (MessageDestination_is_p2p (out_recipient x) \<and> out_recipient x \<noteq> OneParty j)"

text \<open>Polling the stream of a party until it has given \<open>k\<close> messages.\<close>

primrec receive_many ::
  "('c, 'q, 'm incoming outgoing) channel_ops \<Rightarrow> 'c \<Rightarrow> nat \<Rightarrow> 'q mocked_incoming
     \<Rightarrow> ('m incoming list \<times> 'q mocked_incoming) option" where
  "receive_many C c 0 self = Some ([], self)"
| "receive_many C c (Suc k) self =
     (case MockedIncoming_poll_next C c self of
        Some (self', Ready (Some (Ok m))) \<Rightarrow>
          (case receive_many C c k self' of None \<Rightarrow> None | Some (ms, self'') \<Rightarrow> Some (m # ms, self''))
      | _ \<Rightarrow> None)"

subsection \<open>What the channel promises\<close>

text \<open>
  The documented behaviour of \<open>tokio::sync::broadcast\<close>: \<open>sent\<close> is the sequence of all values sent,
  \<open>pos\<close> where a receiver is in it, \<open>cap\<close> how many values are kept (at least the capacity asked for),
  \<open>live\<close> that there is a receiver. Receivers see every value sent after they subscribed, in order,
  unless they fall behind by more than \<open>cap\<close> values, which is an error.
\<close>

locale broadcast_channel =
  fixes C :: "('c, 'q, 'm incoming outgoing) channel_ops"
    and sent :: "'c \<Rightarrow> 'm incoming outgoing list" and cap :: "'c \<Rightarrow> nat" and live :: "'c \<Rightarrow> bool"
    and pos :: "'q \<Rightarrow> nat"
  assumes new: "0 < k \<Longrightarrow> sent (ch_new C k) = [] \<and> k \<le> cap (ch_new C k)"
    and subscribe: "ch_subscribe C c = (c', q) \<Longrightarrow>
          sent c' = sent c \<and> cap c' = cap c \<and> live c' \<and> pos q = length (sent c)"
    and send: "live c \<Longrightarrow> \<exists>c' k. ch_send C c x = (c', Ok k) \<and>
          sent c' = sent c @ [x] \<and> cap c' = cap c \<and> live c'"
    and recv: "pos q < length (sent c) \<Longrightarrow> length (sent c) - pos q \<le> cap c \<Longrightarrow>
          \<exists>q'. ch_recv C c q = (q', Ready (Some (Ok (sent c ! pos q)))) \<and> pos q' = Suc (pos q)"
    and recv_empty: "pos q = length (sent c) \<Longrightarrow> \<exists>q'. ch_recv C c q = (q', Pending) \<and> pos q' = pos q"
    and recv_lagged: "cap c < length (sent c) - pos q \<Longrightarrow>
          \<exists>q' k. ch_recv C c q = (q', Ready (Some (Err k)))"
begin

definition unread :: "'c \<Rightarrow> 'q mocked_incoming \<Rightarrow> 'm incoming outgoing list" where
  "unread c self = drop (pos (mi_receiver self)) (sent c)"

text \<open>The stream skips what is for others; it always comes to an end.\<close>

lemma poll_next_unread:
  assumes "pos (mi_receiver self) \<le> length (sent c)" and "length (unread c self) \<le> cap c"
  shows "case filter (for_party (mi_local_party_idx self)) (unread c self) of
     [] \<Rightarrow> \<exists>self'. MockedIncoming_poll_next C c self = Some (self', Pending)
   | x # xs \<Rightarrow> \<exists>self'. MockedIncoming_poll_next C c self = Some (self', Ready (Some (Ok (out_msg x)))) \<and>
       filter (for_party (mi_local_party_idx self)) (unread c self') = xs \<and>
       mi_local_party_idx self' = mi_local_party_idx self \<and>
       pos (mi_receiver self') \<le> length (sent c) \<and> length (unread c self') \<le> cap c"
  using assms
proof (induction "unread c self" arbitrary: self)
  case Nil
  then have "pos (mi_receiver self) = length (sent c)" by (simp add: unread_def)
  from recv_empty [OF this] show ?case
    using Nil(1) by (subst MockedIncoming_poll_next.simps) auto
next
  case (Cons x rest)
  let ?j = "mi_local_party_idx self"
  have less: "pos (mi_receiver self) < length (sent c)"
    using Cons(2) by (metis drop_all leI list.distinct(1) unread_def)
  then obtain q where q: "ch_recv C c (mi_receiver self) = (q, Ready (Some (Ok x)))"
    "pos q = Suc (pos (mi_receiver self))"
    using recv [of "mi_receiver self" c] Cons(2,4) Suc_diff_Suc [OF less]
    by (auto simp: unread_def Cons_nth_drop_Suc [symmetric])
  let ?self = "self\<lparr>mi_receiver := q\<rparr>"
  have rest: "rest = unread c ?self"
    using Cons(2) less q(2) by (simp add: unread_def Cons_nth_drop_Suc [symmetric])
  have small: "pos (mi_receiver ?self) \<le> length (sent c)" "length (unread c ?self) \<le> cap c"
    using less q(2) Cons(4) unfolding Cons(2) [symmetric] rest [symmetric] by simp_all
  show ?case
  proof (cases "for_party ?j x")
    case True
    then show ?thesis
      using q(1) small rest unfolding Cons(2) [symmetric]
      by (subst (2) MockedIncoming_poll_next.simps) (auto simp: for_party_def)
  next
    case False
    have "MockedIncoming_poll_next C c self = MockedIncoming_poll_next C c ?self"
      using False q(1) by (subst MockedIncoming_poll_next.simps) (auto simp: for_party_def)
    then show ?thesis
      using Cons(1) [OF rest small] False unfolding Cons(2) [symmetric] rest [symmetric]
      by (simp split: list.splits)
  qed
qed

lemma receive_unread:
  assumes "pos (mi_receiver self) \<le> length (sent c)" and "length (unread c self) \<le> cap c"
    and "xs = filter (for_party (mi_local_party_idx self)) (unread c self)"
  shows "\<exists>self' self''. receive_many C c (length xs) self = Some (map out_msg xs, self') \<and>
     MockedIncoming_poll_next C c self' = Some (self'', Pending)"
  using assms
proof (induction xs arbitrary: self)
  case Nil
  then show ?case using poll_next_unread [of self c] by simp
next
  case (Cons x xs)
  obtain self' where "MockedIncoming_poll_next C c self = Some (self', Ready (Some (Ok (out_msg x))))"
    and "filter (for_party (mi_local_party_idx self')) (unread c self') = xs"
    "pos (mi_receiver self') \<le> length (sent c)" "length (unread c self') \<le> cap c"
    using poll_next_unread [OF Cons.prems(1,2)] Cons.prems(3) [symmetric] by auto
  with Cons.IH [of self'] show ?case by auto
qed

lemma poll_next_lagged:
  assumes "cap c < length (sent c) - pos (mi_receiver self)"
  shows "\<exists>self' k. MockedIncoming_poll_next C c self = Some (self', Ready (Some (Err (Recv k))))"
  using recv_lagged [OF assms] by (subst MockedIncoming_poll_next.simps) auto

lemma start_send_log:
  assumes "live (nw_channel nw)"
  shows "\<exists>nw'. MockedOutgoing_start_send C nw mo m = (nw', Ok ()) \<and> live (nw_channel nw') \<and>
     sent (nw_channel nw') = sent (nw_channel nw) @ [labelled (next_msg_id nw) (mo_local_party_idx mo) m] \<and>
     cap (nw_channel nw') = cap (nw_channel nw) \<and> next_msg_id nw' = next_msg_id nw + 1"
  using send [OF assms, of "labelled (next_msg_id nw) (mo_local_party_idx mo) m"]
  by (auto simp: MockedOutgoing_start_send_def NextMessageId_next_def labelled_def)

lemma send_all_log:
  "live (nw_channel nw) \<Longrightarrow>
     sent (nw_channel (send_all C nw xs)) = sent (nw_channel nw) @ labelled_log (next_msg_id nw) xs \<and>
     cap (nw_channel (send_all C nw xs)) = cap (nw_channel nw)"
proof (induction xs arbitrary: nw)
  case (Cons x xs)
  from start_send_log [OF Cons.prems, of "\<lparr>mo_local_party_idx = fst x\<rparr>" "snd x"] Cons.IH
  show ?case by auto
qed simp

lemma start_parties_spec:
  assumes "start_parties C connected party_start nw xs = (nw', outs)"
  shows "sent (nw_channel nw') = sent (nw_channel nw) \<and> cap (nw_channel nw') = cap (nw_channel nw) \<and>
    next_msg_id nw' = next_msg_id nw \<and> (xs \<noteq> [] \<longrightarrow> live (nw_channel nw')) \<and> length outs = length xs \<and>
    (\<forall>k < length xs. \<exists>q. pos q = length (sent (nw_channel nw)) \<and>
       outs ! k = party_start (snd (xs ! k))
         (connected (\<lparr>mi_local_party_idx = next_party_idx nw + of_nat k, mi_receiver = q\<rparr>,
                     \<lparr>mo_local_party_idx = next_party_idx nw + of_nat k\<rparr>)) (fst (xs ! k)))"
  using assms
proof (induction xs arbitrary: nw nw' outs)
  case (Cons x xs)
  obtain c q where c: "ch_subscribe C (nw_channel nw) = (c, q)" by fastforce
  let ?nw = "nw\<lparr>next_party_idx := next_party_idx nw + 1, nw_channel := c\<rparr>"
  obtain out' where out': "start_parties C connected party_start ?nw xs = (nw', out')"
    and out: "outs = party_start (snd x) (connected (\<lparr>mi_local_party_idx = next_party_idx nw, mi_receiver = q\<rparr>,
                     \<lparr>mo_local_party_idx = next_party_idx nw\<rparr>)) (fst x) # out'"
    using Cons.prems c by (auto simp: Network_add_party_def connect_new_party_def Let_def split: prod.splits)
  note sub = subscribe [OF c]
  note IH = Cons.IH [OF out']
  have "live (nw_channel nw')"
  proof (cases "xs = []")
    case True
    then show ?thesis using out' sub by auto
  qed (use IH in blast)
  moreover have "\<exists>q. pos q = length (sent (nw_channel nw)) \<and> outs ! k = party_start (snd ((x # xs) ! k))
         (connected (\<lparr>mi_local_party_idx = next_party_idx nw + of_nat k, mi_receiver = q\<rparr>,
                     \<lparr>mo_local_party_idx = next_party_idx nw + of_nat k\<rparr>)) (fst ((x # xs) ! k))"
    if "k < length (x # xs)" for k
    using that IH sub out by (cases k) (auto simp: ac_simps)
  ultimately show ?case using IH sub out by auto
qed simp

end

subsection \<open>A channel of this kind\<close>

text \<open>A log of the values sent, of which a receiver must not miss more than the capacity.\<close>

record 'x log_channel =
  lc_log :: "'x list"
  lc_cap :: nat
  lc_live :: bool

definition log_channel_ops :: "('x log_channel, nat, 'x) channel_ops" where
  "log_channel_ops =
     \<lparr>ch_new = (\<lambda>k. \<lparr>lc_log = [], lc_cap = k, lc_live = False\<rparr>),
      ch_subscribe = (\<lambda>c. (c\<lparr>lc_live := True\<rparr>, length (lc_log c))),
      ch_send = (\<lambda>c x. if lc_live c then (c\<lparr>lc_log := lc_log c @ [x]\<rparr>, Ok 1) else (c, Err ())),
      ch_recv = (\<lambda>c q.
        let behind = length (lc_log c) - q in
        if lc_cap c < behind then (length (lc_log c) - lc_cap c, Ready (Some (Err (of_nat (behind - lc_cap c)))))
        else if q < length (lc_log c) then (Suc q, Ready (Some (Ok (lc_log c ! q))))
        else (q, Pending))\<rparr>"

interpretation log_channel: broadcast_channel log_channel_ops lc_log lc_cap lc_live id
  by unfold_locales (auto simp: log_channel_ops_def Let_def)

subsection \<open>Properties\<close>

text \<open>C38: The async network delivers. Over any channel that behaves as documented, start the parties
  on a network, and then let them send some messages, not more than the capacity of the network,
  before anything is received (beyond the capacity the channel drops messages, as documented). Then
  polling the stream of a party gives exactly the messages that were broadcast, its own included, or addressed
  to it, in the order of sending, each with the index of its sender, its kind and the number of
  messages sent before it as its id; and then the stream is pending.\<close>

theorem async_network_delivers:
  assumes chan: "broadcast_channel C sent cap live pos"
    and bounds: "0 < capacity" "length xs \<le> capacity" "k < length setups"
    and start: "start_parties C (\<lambda>d. d) (\<lambda>i d _. (i, d)) (Network_with_capacity C capacity)
           (zip setups (map of_nat [0..<length setups])) = (nw, parties)"
    and msgs: "msgs = map out_msg (filter (for_party (of_nat k)) (labelled_log 0 xs))"
  shows "\<exists>self' self''.
     receive_many C (nw_channel (send_all C nw xs)) (length msgs) (fst (snd (parties ! k))) = Some (msgs, self') \<and>
     MockedIncoming_poll_next C (nw_channel (send_all C nw xs)) self' = Some (self'', Pending)"
proof -
  let ?nw = "Network_with_capacity C capacity" and ?c = "nw_channel (send_all C nw xs)"
  have nw0: "next_party_idx ?nw = 0" "next_msg_id ?nw = 0" "sent (nw_channel ?nw) = []"
    "capacity \<le> cap (nw_channel ?nw)"
    using broadcast_channel.new [OF chan bounds(1)] by (simp_all add: Network_with_capacity_def)
  note spec = broadcast_channel.start_parties_spec [OF chan start]
  obtain q where q: "pos q = 0" and k: "fst (snd (parties ! k)) = \<lparr>mi_local_party_idx = of_nat k, mi_receiver = q\<rparr>"
    using spec bounds(3) nw0(1,3) by auto
  have nw: "sent (nw_channel nw) = []" "next_msg_id nw = 0" "cap (nw_channel nw) = cap (nw_channel ?nw)"
    "live (nw_channel nw)"
    using spec nw0(2,3) bounds(3) by auto
  have c: "sent ?c = labelled_log 0 xs" "capacity \<le> cap ?c"
    using broadcast_channel.send_all_log [OF chan nw(4), of xs] nw(1-3) nw0(4) by simp_all
  show ?thesis
    using broadcast_channel.receive_unread [OF chan _ _ refl, of "\<lparr>mi_local_party_idx = of_nat k, mi_receiver = q\<rparr>" ?c]
      c bounds(2) by (simp add: k q msgs broadcast_channel.unread_def [OF chan])
qed

abbreviation sample_sends :: "(party_index \<times> nat outgoing) list" where
  "sample_sends \<equiv> [(0, Outgoing_all_parties 7), (1, Outgoing_p2p 2 8), (2, Outgoing_p2p 0 9)]"

abbreviation sample_delivered :: "nat incoming list" where
  "sample_delivered \<equiv>
     [\<lparr>inc_id = 0, inc_sender = 0, inc_msg_type = Broadcast False, inc_msg = 7\<rparr>,
      \<lparr>inc_id = 1, inc_sender = 1, inc_msg_type = P2P, inc_msg = 8\<rparr>]"

theorem async_network_delivers_witness:
  "\<exists>nw parties self'. start_parties log_channel_ops (\<lambda>d. d) (\<lambda>i d _. (i, d))
      (Network_with_capacity log_channel_ops 4) (zip [(), (), ()] (map of_nat [0..<length [(), (), ()]])) = (nw, parties) \<and>
     receive_many log_channel_ops (nw_channel (send_all log_channel_ops nw sample_sends))
       (length sample_delivered) (fst (snd (parties ! 2))) = Some (sample_delivered, self')"
proof -
  obtain nw :: "nat incoming outgoing log_channel network" and parties :: "(u16 \<times> nat mocked_delivery) list" where
    start: "start_parties log_channel_ops (\<lambda>d. d) (\<lambda>i d _. (i, d))
      (Network_with_capacity log_channel_ops 4) (zip [(), (), ()] (map of_nat [0..<length [(), (), ()]])) = (nw, parties)"
    by fastforce
  have "sample_delivered = map out_msg (filter (for_party (of_nat 2)) (labelled_log 0 sample_sends))"
    by (simp add: for_party_def labelled_def msg_type_of_def Outgoing_all_parties_def Outgoing_p2p_def
          Outgoing_map_def)
  from async_network_delivers [OF log_channel.broadcast_channel_axioms _ _ _ start this]
  obtain self' where "receive_many log_channel_ops (nw_channel (send_all log_channel_ops nw sample_sends))
       (length sample_delivered) (fst (snd (parties ! 2))) = Some (sample_delivered, self')" by auto
  with start show ?thesis by blast
qed

text \<open>C39: Every party runs under the index it has in the network. The simulation starts one party
  for each setup, in order; the function that carries out the protocol gets as its index the position
  of the setup, and a delivery which sends and receives under the same index and which has missed
  no message.\<close>

theorem async_parties_keep_their_index:
  assumes "broadcast_channel C sent cap live pos" and "0 < capacity"
  shows "\<exists>nw ds. run_with_capacity_and_setup C connected join_all capacity setups party_start =
       join_all nw (map (\<lambda>k. party_start (of_nat k) (connected (ds k)) (setups ! k)) [0..<length setups]) \<and>
     sent (nw_channel nw) = [] \<and>
     (\<forall>k < length setups. mi_local_party_idx (fst (ds k)) = of_nat k \<and>
        mo_local_party_idx (snd (ds k)) = of_nat k \<and> pos (mi_receiver (fst (ds k))) = 0)"
proof -
  let ?xs = "zip setups (map of_nat [0..<length setups])" and ?nw = "Network_with_capacity C capacity"
  obtain nw outs where run: "start_parties C connected party_start ?nw ?xs = (nw, outs)" by fastforce
  note spec = broadcast_channel.start_parties_spec [OF assms(1) run]
  have nw0: "sent (nw_channel ?nw) = []" "next_party_idx ?nw = 0"
    using broadcast_channel.new [OF assms] by (simp_all add: Network_with_capacity_def)
  have "\<forall>k. \<exists>q. k < length setups \<longrightarrow> pos q = 0 \<and> outs ! k = party_start (of_nat k)
      (connected (\<lparr>mi_local_party_idx = of_nat k, mi_receiver = q\<rparr>, \<lparr>mo_local_party_idx = of_nat k\<rparr>)) (setups ! k)"
    using spec nw0 by auto
  then obtain q where q: "k < length setups \<Longrightarrow> pos (q k) = 0 \<and> outs ! k = party_start (of_nat k)
      (connected (\<lparr>mi_local_party_idx = of_nat k, mi_receiver = q k\<rparr>, \<lparr>mo_local_party_idx = of_nat k\<rparr>)) (setups ! k)" for k
    by metis
  have "outs = map (\<lambda>k. party_start (of_nat k)
      (connected (\<lparr>mi_local_party_idx = of_nat k, mi_receiver = q k\<rparr>, \<lparr>mo_local_party_idx = of_nat k\<rparr>)) (setups ! k))
      [0..<length setups]"
    using spec q by (intro nth_equalityI) auto
  then show ?thesis
    using run spec nw0(1) q
    by (intro exI [of _ nw] exI [of _ "\<lambda>k. (\<lparr>mi_local_party_idx = of_nat k, mi_receiver = q k\<rparr>,
          \<lparr>mo_local_party_idx = of_nat k\<rparr>)"]) (simp add: run_with_capacity_and_setup_def)
qed

theorem async_parties_keep_their_index_witness:
  "\<exists>nw ds. run_with_capacity_and_setup (log_channel_ops :: (nat incoming outgoing log_channel, _, _) channel_ops)
       id Pair 500 [True, False] (\<lambda>i p s. (i, s)) =
       (nw, map (\<lambda>k. (of_nat k, [True, False] ! k)) [0..<2]) \<and>
     mo_local_party_idx (snd (ds (1 :: nat) :: nat mocked_delivery)) = 1"
  using async_parties_keep_their_index [OF log_channel.broadcast_channel_axioms, of 500 id Pair "[True, False]"
      "\<lambda>i p s. (i, s)"] by (fastforce simp: numeral_2_eq_2)

text \<open>Falling behind is reported. If more messages were sent since a party last received one than
  the channel keeps, its stream yields the error \<open>Recv\<close> instead of skipping messages silently.\<close>

lemma async_lag_is_reported:
  assumes "broadcast_channel C sent cap live pos"
    and "cap c < length (sent c) - pos (mi_receiver self)"
  shows "\<exists>self' k. MockedIncoming_poll_next C c self = Some (self', Ready (Some (Err (Recv k))))"
  using assms by (rule broadcast_channel.poll_next_lagged)

end
