(* ===== verification/Spec2Isabelle.thy ===== *)
theory Spec2Isabelle
  imports Simulated_Protocol Echo_Protocol Async_Env
begin

text \<open>
  \<^bold>\<open>Verification of the crate \<open>round-based\<close>.\<close>

  \<^bold>\<open>The program.\<close> \<open>round-based\<close> runs multiparty computation protocols that proceed in rounds. A protocol
  is an async function over an engine (the traits \<open>Mpc\<close> and \<open>MpcExecution\<close>): it registers its rounds,
  each with a store that collects the round's messages, sends messages, and awaits rounds. The
  engine \<open>MpcParty\<close> reads a stream of incoming messages and hands each to the rounds router, which
  gives it to the store of its round; when a store has all its messages, its output is what awaiting
  the round returns. Around this core: a wrapper that turns a protocol into a state machine without
  an async runtime, a simulation that runs the state machines of all parties in one thread, a
  wrapper that adds echo broadcast to an engine that has no reliable broadcast, a derive macro for
  the message types, and an example protocol.

  \<^bold>\<open>Theories, in the order of the components (sources under \<open>src/round-based/src\<close>).\<close>

  \<^item> \<open>RB_Prelude\<close>: results, panics and polls as values, vectors, 16-bit arithmetic; the collections of
    facts that the proofs share.
  \<^item> \<open>RB_Delivery\<close> (\<open>delivery.rs\<close>): messages, their types and destinations.
  \<^item> \<open>Round_Store\<close> (\<open>round/mod.rs\<close>): the trait \<open>RoundStore\<close> as a dictionary, properties of stores, \<open>WithProp\<close>;
    the locale \<open>proper_store\<close> is the contract of the trait.
  \<^item> \<open>Simple_Store\<close> (\<open>round/simple_store.rs\<close>): \<open>RoundInput\<close> and \<open>RoundMsgs\<close>. Shown: the store implements an
    abstract map of messages by sender on every branch (\<open>collector_add\<close>), outputs exactly when
    complete, in any order of arrival; duplicates are rejected; all views of the output agree.
  \<^item> \<open>Mpc_Traits\<close> (\<open>mpc/mod.rs\<close>): \<open>RoundMsg\<close> with its laws as the locale \<open>lawful_msg\<close>; engines as the dictionary
    \<open>mpc_ops\<close>; the default sending methods.
  \<^item> \<open>Rounds_Router\<close> (\<open>mpc/party/router.rs\<close>): registration, routing, completion. Shown: rounds are kept
    apart under any interleaving; no router error is reachable for a correct client
    (\<open>router_reach\<close>, by rule induction); results are taken once; the downcasts between the type-erased
    rounds and their witnesses are safe for any client and any store (\<open>router_use\<close>, \<open>well_typed\<close>).
  \<^item> \<open>Mpc_Party\<close> (\<open>mpc/party/mod.rs\<close>, \<open>runtime.rs\<close>): the engine. Shown: what \<open>complete\<close> returns and consumes,
    with one or several rounds; that it can be resumed; which errors it reports and which never.
  \<^item> \<open>Shared_State\<close>, \<open>State_Machine\<close> (\<open>state_machine/\<close>): the shared slots and the executor. A protocol is any
    future given by its resumption (\<open>act\<close>); \<open>cooperative_future\<close> is the contract that it awaits only its
    party. Shown: driving the machine carries out the protocol; no message is lost, duplicated or
    reordered; the executor never fails on a cooperative protocol.
  \<^item> \<open>Simulation\<close> (\<open>sim/mod.rs\<close>): queues and the loops of \<open>run\<close>. Shown: queues are FIFO, ids unique; the
    possible errors.
  \<^item> \<open>Sim_Network\<close> (\<open>sim/mod.rs\<close>): the loops as a run of a network of arbitrary state machines. The locale
    \<open>tracked_machines\<close> carries a description of the parties, in terms of what they received and sent,
    through the loops; it is interpreted on the runs of the machines themselves (\<open>machine_run\<close>) and, in
    \<open>Sim_Traces\<close>, on protocols. Shown: what \<open>run\<close> returns, output or error, comes from its own run.
  \<^item> \<open>Sim_Termination\<close>, \<open>Sim_Traces\<close> (\<open>sim/mod.rs\<close> with \<open>state_machine/\<close>): when \<open>run\<close> returns, and what. The locale
    \<open>progressing_machine\<close> asks for a well-founded order that every step of a machine goes down; it is
    interpreted on any machine, on the states from which it takes finitely many steps
    (\<open>finite_steps\<close>), and on futures that await one operation after the other. Shown: if no machine can
    take infinitely many steps, \<open>run\<close> returns exactly if it comes to no deadlock; a deadlock is never
    reported; a party that never stops keeps \<open>run\<close> from returning outputs; the outputs are those of a run of the
    network in which every party received, in order, what was addressed to it (\<open>network_run\<close>).
  \<^item> \<open>Simulated_Party\<close>, \<open>Simulated_Protocol\<close>: the parts put together. \<open>party_complete\<close> is \<open>complete\<close> over the
    delivery of a state machine, \<open>rg_party\<close> the example protocol over it. Shown: a party in a state
    machine does, on any messages, what the protocol does over an \<open>MpcParty\<close> with these messages in its
    stream; the simulation of any number of parties returns the xor of what they drew.
  \<^item> \<open>Async_Env\<close> (\<open>sim/async_env.rs\<close>): the network of the async simulation over a broadcast channel, whose
    documented behaviour is the locale \<open>broadcast_channel\<close>. Shown: what each party receives; indexes;
    the error of a receiver that falls behind.
  \<^item> \<open>Echo_Msg\<close>, \<open>Echo_Store\<close>, \<open>Echo_Broadcast\<close> (\<open>echo_broadcast/\<close>): messages, stores and the engine wrapper.
    Shown: agreement on the messages of all parties when the check passes; honest parties pass;
    one message is sent per reliable round; the wrapped messages keep the contract for round numbers
    below \<open>2 ^ 15\<close>, and what happens beyond (a round number that wraps).
  \<^item> \<open>Derive_Msg\<close> (\<open>round-based-derive/src/lib.rs\<close>): the macro as a function from declarations to emitted
    code, and what that code does. Shown: it satisfies \<open>lawful_msg\<close>; what is rejected.
  \<^item> \<open>Random_Generation\<close> (\<open>examples/random-generation-protocol/src/lib.rs\<close>): the commit and open protocol over
    any engine. Shown: over \<open>MpcParty\<close> honest parties output the xor of all randomness; cheaters are
    blamed exactly.
  \<^item> \<open>Echo_Party\<close>, \<open>Echo_Protocol\<close>: the echo broadcast wrapper around \<open>MpcParty\<close>, whose router then holds
    rounds of three kinds behind \<open>Box<dyn ProcessRoundMessage>\<close>, and the example protocol over it. Shown:
    what a completed round comes from (\<open>complete_sound\<close>, \<open>reliable_complete_sound\<close>); two parties agree on
    the output whatever the others send; honest parties output the xor of all randomness.

  \<^bold>\<open>Conventions.\<close> \<open>Result<T, E>\<close> is the sum \<open>'e + 't\<close> with \<open>Err\<close> and \<open>Ok\<close>; a panic is a value of \<open>or_panic\<close>; \<open>u16\<close>
  and \<open>u64\<close> are words. A method on \<open>&mut self\<close> returns the new value of \<open>self\<close>. An async function is the
  function that polls its future, with \<open>Pending\<close> as a value; the states of its future are a datatype.
  Code outside the repository is a parameter: sinks (\<open>futures\<close>), the hash functions, the random number
  generator, the protocol run by the state machine and the simulation, the broadcast channel and
  \<open>join_all\<close> of the async simulation, the parser of the macro's attribute.

  \<^bold>\<open>Protocols.\<close> The state machine takes any future, given by its resumption, that may also go on
  forever. Where the properties speak of what a protocol does, they are about the type \<open>fut\<close>: protocols
  that await sending, receiving and yielding one after the other, with finitely many steps between
  start and end, whatever they receive. Protocols that loop forever, or that feed messages to
  their sink and flush them later, are not of this type.

  \<^bold>\<open>Fuel.\<close> The loops of \<open>Simulation::run\<close> may run forever: they take fuel, and running out of it is
  \<open>None\<close>. More fuel does not change a result (\<open>Simulation_run_mono\<close>); if no party can take infinitely many
  steps, some fuel is enough exactly if there is no deadlock; for a deadlock none is. The properties on results hold for every fuel that gives
  one. A party of a simulation bounds the messages that one call of \<open>complete\<close> awaits, and ends with
  \<open>OutOfFuel\<close> beyond: \<open>n\<close> parties that send two messages each need fewer than \<open>2 * n + 1\<close>. The loop of the async stream is a partial function, shown to return
  over a channel that behaves as documented. All other loops are structurally recursive or proved
  to terminate.

  \<^bold>\<open>Bounds.\<close> Arithmetic on words wraps around, as in a release build. A build with overflow checks
  panics instead; this concerns the round number of an echo message, the iterators \<open>(0..)\<close> over \<open>u16\<close> that
  are zipped with the parties or messages when \<open>n\<close> is 65535, and the indexes of the async network beyond
  \<open>2 ^ 16\<close> parties. The capacity of the async network is a natural number; \<open>tokio\<close> refuses 0, which the
  properties exclude, and capacities above half of \<open>usize\<close>. The router's and echo broadcast's round numbers are 16-bit with wrap-around. Uniqueness of
  message ids is shown for fewer than \<open>2 ^ 64\<close> messages.

  \<^bold>\<open>Not modelled.\<close> \<open>TokioRuntime\<close> only calls \<open>tokio\<close>; \<open>noop_waker.rs\<close> builds a waker all of whose functions do
  nothing, and wakers have no effect on the state that is modelled; formatting of errors and the
  texts of panics; \<open>lib.rs\<close> and \<open>_docs.rs\<close> are re-exports and documentation; \<open>sim/sim_sync.rs\<close> is included
  by no module; the test crates. The echo broadcast wrapper is modelled over any engine and over
  \<open>MpcParty\<close>, and not run inside the simulation.
\<close>

end
